(* ===== verification/Prelude.thy ===== *)
theory Prelude
  imports Main "HOL-Library.Word"
begin

text \<open>
  Shared vocabulary of the development: the machine integer types of \<open>types.h\<close>, the
  limits of \<open>param.h\<close>, the address arithmetic of \<open>mmu.h\<close> and \<open>memlayout.h\<close>, and the
  generic facts on lists and 32-bit words that several components use.
\<close>

section \<open>Machine integers and limits\<close>

type_synonym u8 = "8 word"
type_synonym u16 = "16 word"
type_synonym u32 = "32 word"

unbundle bit_operations_syntax

definition NPROC :: nat where [simp]: "NPROC = 64"
definition KSTACKSIZE :: u32 where [simp]: "KSTACKSIZE = 4096"
definition NOFILE :: nat where [simp]: "NOFILE = 16"
definition NFILE :: nat where [simp]: "NFILE = 100"
definition NINODE :: nat where [simp]: "NINODE = 50"
definition NDEV :: int where [simp]: "NDEV = 10"
definition ROOTDEV :: u32 where [simp]: "ROOTDEV = 1"
definition MAXOPBLOCKS :: nat where [simp]: "MAXOPBLOCKS = 10"
definition LOGSIZE :: nat where [simp]: "LOGSIZE = MAXOPBLOCKS * 3"
definition NBUF :: nat where [simp]: "NBUF = MAXOPBLOCKS * 3"

section \<open>Addresses\<close>

definition PGSIZE :: u32 where [simp]: "PGSIZE = 4096"
definition KERNBASE :: u32 where [simp]: "KERNBASE = 0x80000000"
definition PHYSTOP :: u32 where [simp]: "PHYSTOP = 0xE000000"

definition V2P :: "u32 \<Rightarrow> u32" where "V2P a = a - KERNBASE"
definition P2V :: "u32 \<Rightarrow> u32" where "P2V a = a + KERNBASE"

definition PGROUNDUP :: "u32 \<Rightarrow> u32" where
  "PGROUNDUP sz = (sz + PGSIZE - 1) AND NOT (PGSIZE - 1)"

definition PGROUNDDOWN :: "u32 \<Rightarrow> u32" where
  "PGROUNDDOWN a = a AND NOT (PGSIZE - 1)"

lemma V2P_P2V [simp]: "V2P (P2V a) = a"
  by (simp add: V2P_def P2V_def)

lemma P2V_V2P [simp]: "P2V (V2P a) = a"
  by (simp add: V2P_def P2V_def)

section \<open>Words\<close>

lemma unat_of_nat32 [simp]: "n < 2 ^ 32 \<Longrightarrow> unat (of_nat n :: u32) = n"
  by (simp add: unat_of_nat)

lemma unat_neg_1: "unat (- 1 :: u32) = 2 ^ 32 - 1"
  using unat_sub_if'[of "0 :: u32" 1] by simp

lemma unat_lt32: "unat (x :: u32) < 2 ^ 32" "unat (x :: u32) < 4294967296"
  using unsigned_less[of x] by simp_all

lemma unat_minus_1: "x \<noteq> a \<Longrightarrow> unat (x - a) = Suc (unat (x - (a + 1)))" for x a :: u32
proof -
  assume "x \<noteq> a"
  then have "x - a \<noteq> 0" by simp
  then have "unat (x - a) = Suc (unat (x - a - 1))"
    by (simp add: unat_minus_one unat_gt_0)
  then show ?thesis by (simp add: diff_diff_eq)
qed

lemma sint32: "sint (x :: u32) = (if uint x < 2 ^ 31 then uint x else uint x - 2 ^ 32)"
proof -
  have u: "0 \<le> uint x" "uint x < 2 ^ 32" using uint_lt2p[of x] by simp_all
  have "sint x = take_bit 32 (uint x + 2 ^ 31) - 2 ^ 31"
    by (simp add: sint_uint signed_take_bit_eq_take_bit_shift)
  also have "\<dots> = (uint x + 2 ^ 31) mod 2 ^ 32 - 2 ^ 31" by (simp add: take_bit_eq_mod)
  also have "\<dots> = (if uint x < 2 ^ 31 then uint x else uint x - 2 ^ 32)"
  proof (cases "uint x < 2 ^ 31")
    case True
    then have "(uint x + 2 ^ 31) mod 2 ^ 32 = uint x + 2 ^ 31" using u by (intro mod_pos_pos_trivial) simp_all
    then show ?thesis using True by simp
  next
    case False
    have "(uint x + 2 ^ 31) mod 2 ^ 32 = (uint x - 2 ^ 31 + 2 ^ 32) mod 2 ^ 32" by (simp add: add.commute)
    also have "\<dots> = (uint x - 2 ^ 31) mod 2 ^ 32" by (rule mod_add_self2)
    also have "\<dots> = uint x - 2 ^ 31" using False u by (intro mod_pos_pos_trivial) simp_all
    finally show ?thesis using False by simp
  qed
  finally show ?thesis .
qed

lemma byte_cases:
  assumes "n < (32 :: nat)"
  obtains j where "j < 8" "n = j" | j where "j < 8" "n = 8 + j" | j where "j < 8" "n = 16 + j"
    | j where "j < 8" "n = 24 + j"
proof -
  consider "n < 8" | "8 \<le> n" "n < 16" | "16 \<le> n" "n < 24" | "24 \<le> n" using assms by linarith
  then show ?thesis
    by cases (use that(1)[of n] that(2)[of "n - 8"] that(3)[of "n - 16"] that(4)[of "n - 24"] assms in auto)
qed

lemma unat_PGROUNDDOWN: "unat (PGROUNDDOWN a) = unat a div 4096 * 4096"
proof -
  have "PGROUNDDOWN a = push_bit 12 (drop_bit 12 a)"
    by (rule bit_word_eqI) (auto simp: PGROUNDDOWN_def bit_and_iff bit_not_iff bit_push_bit_iff bit_drop_bit_eq
      bit_mask_iff mask_eq_exp_minus_1[of 12, where 'a = "32 word", simplified, symmetric])
  then have "PGROUNDDOWN a = a div 4096 * 4096"
    by (simp add: push_bit_eq_mult drop_bit_eq_div)
  moreover have "unat (a div 4096) * unat (4096 :: u32) < 2 ^ LENGTH(32)"
    using unat_lt32(2)[of a] div_times_less_eq_dividend[of "unat a" 4096] by (simp add: unat_div less_mult_imp_div_less)
  then have "unat (a div 4096 * 4096) = unat a div 4096 * 4096"
    by (subst unat_mult_lem[THEN iffD1]) (simp_all add: unat_div)
  ultimately show ?thesis by simp
qed

lemma PGROUNDUP_PGROUNDDOWN: "PGROUNDUP a = PGROUNDDOWN (a + 4095)"
  by (simp add: PGROUNDUP_def PGROUNDDOWN_def add.commute)

lemma unat_PGROUNDUP: "unat a + 4095 < 2 ^ 32 \<Longrightarrow> unat (PGROUNDUP a) = (unat a + 4095) div 4096 * 4096"
  by (simp add: PGROUNDUP_PGROUNDDOWN unat_PGROUNDDOWN unat_plus_if')

lemma mod_PGSIZE: "a mod PGSIZE = 0 \<longleftrightarrow> unat a mod 4096 = 0"
  using unat_mod[of a 4096] by (simp add: unat_eq_0[symmetric] del: unat_eq_0)

lemma PGROUNDDOWN_aligned [simp]: "PGROUNDDOWN a mod PGSIZE = 0" "PGROUNDUP a mod PGSIZE = 0"
  unfolding mod_PGSIZE by (simp_all add: PGROUNDUP_PGROUNDDOWN unat_PGROUNDDOWN)

lemma PGROUNDUP_ge: "unat a + 4095 < 2 ^ 32 \<Longrightarrow> a \<le> PGROUNDUP a"
  by (simp add: word_le_nat_alt unat_PGROUNDUP)

lemma PGROUNDUP_id [simp]: "a mod PGSIZE = 0 \<Longrightarrow> PGROUNDUP a = a"
proof -
  assume "a mod PGSIZE = 0"
  then obtain k where k: "unat a = 4096 * k" unfolding mod_PGSIZE by (metis mod_0_imp_dvd dvdE)
  then have "unat a + 4095 < 2 ^ 32" using unat_lt32(2)[of a] by simp
  then have "unat (PGROUNDUP a) = unat a" using k by (simp add: unat_PGROUNDUP)
  then show "PGROUNDUP a = a" by (simp only: word_unat_eq_iff)
qed

text \<open>Two different pages do not overlap.\<close>

lemma page_apart:
  fixes v p :: u32
  assumes "v mod PGSIZE = 0" and "p mod PGSIZE = 0" and "v \<noteq> p" and "i < 4096"
  shows "4096 \<le> unat (p + of_nat i - v)"
proof -
  have "unat v mod 4096 = 0" "unat p mod 4096 = 0"
    using assms(1,2) unat_mod[of v 4096] unat_mod[of p 4096] by simp_all
  then obtain a b where ab: "unat v = 4096 * a" "unat p = 4096 * b" by (metis mod_0_imp_dvd dvdE)
  have lt: "a < 2 ^ 20" "b < 2 ^ 20" using ab unat_lt32(2)[of v] unat_lt32(2)[of p] by simp_all
  have "a \<noteq> b" using assms(3) ab by (metis word_unat_eq_iff)
  moreover have "unat (p + of_nat i) = 4096 * b + i"
    using ab lt assms(4) by (simp add: unat_plus_if')
  ultimately show ?thesis using ab lt assms(4) by (auto simp: unat_sub_if')
qed

section \<open>Lists\<close>

text \<open>The loops \<open>for(p = tab; p < &tab[N]; p++) if(P(p)) break;\<close>: the first entry with \<open>P\<close>.\<close>

fun scan :: "('a \<Rightarrow> bool) \<Rightarrow> 'a list \<Rightarrow> nat option" where
  "scan P [] = None"
| "scan P (x # xs) = (if P x then Some 0 else map_option Suc (scan P xs))"

lemma scan_None [simp]: "scan P xs = None \<longleftrightarrow> (\<forall>x\<in>set xs. \<not> P x)"
  by (induction xs) auto

lemma scan_Some:
  "scan P xs = Some i \<longleftrightarrow> i < length xs \<and> P (xs ! i) \<and> (\<forall>j<i. \<not> P (xs ! j))"
proof (induction xs arbitrary: i)
  case (Cons x xs)
  then show ?case by (cases i) (auto simp: All_less_Suc2 split: if_splits)
qed simp

lemma scan_SomeD:
  assumes "scan P xs = Some i"
  shows "i < length xs" "P (xs ! i)"
  using assms by (simp_all add: scan_Some)

lemma scan_Some_ex: "(\<exists>i. scan P xs = Some i) \<longleftrightarrow> (\<exists>x\<in>set xs. P x)"
  using scan_None[of P xs] by (cases "scan P xs") auto

lemma scan_map: "scan P (map f xs) = scan (\<lambda>x. P (f x)) xs"
  by (induction xs) simp_all

lemma map_eq_nth_cong:
  assumes "length xs = length ys" and "\<And>i. i < length xs \<Longrightarrow> f (xs ! i) = g (ys ! i)"
  shows "map f xs = map g ys"
  using assms by (simp add: list_eq_iff_nth_eq)

end
