(* ===== verification/Kernel_Monad.thy ===== *)
theory Kernel_Monad
  imports Prelude
begin

text \<open>
  Kernel code as state transformers with an explicit outcome.  A C function that runs in
  the kernel either returns (\<open>Ok\<close>), stops the machine in \<open>panic()\<close> (\<open>Panic\<close>, the message
  is kept), performs an access C gives no meaning to (\<open>Fault\<close>: a null dereference, an
  index past an array, a page fault in kernel mode), or goes to sleep and is never
  scheduled again (\<open>Asleep\<close>).  Sequencing is \<open>bnd\<close> for a step whose value is used and \<open>sq\<close>
  and \<open>seqs\<close> for steps run for their effect.  \<open>pres I J m\<close> says that the step \<open>m\<close>
  keeps the invariant \<open>I\<close>, and leaves \<open>J\<close> behind when it never wakes up;
  its rules are collected in \<open>pres_intros\<close>.
\<close>

datatype ('a, 's) res = Ok 'a 's | Panic string | Fault string | Asleep 's

named_theorems pres_intros \<open>rules of \<open>pres\<close> for the statements of the monad\<close>
named_theorems kdefs \<open>definitions unfolded when a kernel function is run symbolically\<close>

definition ret :: "'a \<Rightarrow> 's \<Rightarrow> ('a, 's) res" where
  [kdefs]: "ret x s = Ok x s"

definition bnd :: "('s \<Rightarrow> ('a, 's) res) \<Rightarrow> ('a \<Rightarrow> 's \<Rightarrow> ('b, 's) res) \<Rightarrow> 's \<Rightarrow> ('b, 's) res" where
  [kdefs]: "bnd m f s = (case m s of Ok x t \<Rightarrow> f x t | Panic e \<Rightarrow> Panic e | Fault e \<Rightarrow> Fault e
     | Asleep t \<Rightarrow> Asleep t)"

definition sq :: "('s \<Rightarrow> ('a, 's) res) \<Rightarrow> ('s \<Rightarrow> ('b, 's) res) \<Rightarrow> 's \<Rightarrow> ('b, 's) res" where
  [kdefs]: "sq m k = bnd m (\<lambda>_. k)"

fun seqs :: "('s \<Rightarrow> (unit, 's) res) list \<Rightarrow> 's \<Rightarrow> (unit, 's) res" where
  "seqs [] = ret ()"
| "seqs (m # ms) = bnd m (\<lambda>_. seqs ms)"

definition panic :: "string \<Rightarrow> 's \<Rightarrow> ('a, 's) res" where
  [kdefs]: "panic e s = Panic e"

definition fault :: "string \<Rightarrow> 's \<Rightarrow> ('a, 's) res" where
  [kdefs]: "fault e s = Fault e"

definition gets :: "('s \<Rightarrow> 'a) \<Rightarrow> 's \<Rightarrow> ('a, 's) res" where
  [kdefs]: "gets f s = Ok (f s) s"

definition modify :: "('s \<Rightarrow> 's) \<Rightarrow> 's \<Rightarrow> (unit, 's) res" where
  [kdefs]: "modify f s = Ok () (f s)"

definition whenk :: "bool \<Rightarrow> ('s \<Rightarrow> (unit, 's) res) \<Rightarrow> 's \<Rightarrow> (unit, 's) res" where
  [kdefs]: "whenk b m = (if b then m else ret ())"

section \<open>Laws of sequencing\<close>

lemma bnd_ret [simp]: "bnd (ret x) f = f x"
  by (rule ext) (simp add: kdefs)

lemma bnd_ret_right [simp]: "bnd m ret = m"
  by (rule ext) (simp add: bnd_def ret_def split: res.split)

lemma bnd_assoc: "bnd (bnd m f) g = bnd m (\<lambda>x. bnd (f x) g)"
  by (rule ext) (simp add: bnd_def split: res.split)

lemma bnd_eq_Ok:
  "bnd m f s = Ok y u \<longleftrightarrow> (\<exists>x t. m s = Ok x t \<and> f x t = Ok y u)"
  by (simp add: bnd_def split: res.split)

lemma bnd_cong:
  assumes "m s = m' s" and "\<And>x t. m' s = Ok x t \<Longrightarrow> f x t = f' x t"
  shows "bnd m f s = bnd m' f' s"
  using assms by (simp add: bnd_def split: res.split)

section \<open>Invariants of steps\<close>

definition pres :: "('s \<Rightarrow> bool) \<Rightarrow> ('s \<Rightarrow> bool) \<Rightarrow> ('s \<Rightarrow> ('a, 's) res) \<Rightarrow> bool" where
  "pres I J m \<longleftrightarrow> (\<forall>s. I s \<longrightarrow> (case m s of Ok x t \<Rightarrow> I t | Asleep t \<Rightarrow> J t | Panic e \<Rightarrow> True
     | Fault e \<Rightarrow> True))"

lemma presI:
  assumes "\<And>s x t. I s \<Longrightarrow> m s = Ok x t \<Longrightarrow> I t" and "\<And>s t. I s \<Longrightarrow> m s = Asleep t \<Longrightarrow> J t"
  shows "pres I J m"
proof -
  have "case m s of Ok x t \<Rightarrow> I t | Asleep t \<Rightarrow> J t | Panic e \<Rightarrow> True | Fault e \<Rightarrow> True" if "I s" for s
    using assms(1)[OF that] assms(2)[OF that] by (cases "m s") (simp_all only: res.case)
  then show ?thesis by (simp add: pres_def)
qed

lemma pres_Ok: "pres I J m \<Longrightarrow> I s \<Longrightarrow> m s = Ok x t \<Longrightarrow> I t"
  unfolding pres_def by (drule spec[of _ s]) simp

lemma pres_Asleep: "pres I J m \<Longrightarrow> I s \<Longrightarrow> m s = Asleep t \<Longrightarrow> J t"
  unfolding pres_def by (drule spec[of _ s]) simp

text \<open>Triples with a precondition, a postcondition on the value and state of a return, and one
  for a thread that never wakes up.\<close>

definition trip :: "('s \<Rightarrow> bool) \<Rightarrow> ('s \<Rightarrow> ('a, 's) res) \<Rightarrow> ('a \<Rightarrow> 's \<Rightarrow> bool) \<Rightarrow> ('s \<Rightarrow> bool) \<Rightarrow> bool" where
  "trip P m Q J \<longleftrightarrow> (\<forall>s. P s \<longrightarrow> (case m s of Ok x t \<Rightarrow> Q x t | Asleep t \<Rightarrow> J t | Panic e \<Rightarrow> True
     | Fault e \<Rightarrow> True))"

lemma pres_trip: "pres I J m \<longleftrightarrow> trip I m (\<lambda>_. I) J"
  by (simp add: pres_def trip_def)

lemma tripI:
  assumes "\<And>s x t. P s \<Longrightarrow> m s = Ok x t \<Longrightarrow> Q x t" and "\<And>s t. P s \<Longrightarrow> m s = Asleep t \<Longrightarrow> J t"
  shows "trip P m Q J"
proof -
  have "case m s of Ok x t \<Rightarrow> Q x t | Asleep t \<Rightarrow> J t | Panic e \<Rightarrow> True | Fault e \<Rightarrow> True" if "P s" for s
    using assms(1)[OF that] assms(2)[OF that] by (cases "m s") (simp_all only: res.case)
  then show ?thesis by (simp add: trip_def)
qed

lemma trip_Ok: "trip P m Q J \<Longrightarrow> P s \<Longrightarrow> m s = Ok x t \<Longrightarrow> Q x t"
  unfolding trip_def by (drule spec[of _ s]) simp

lemma trip_Asleep: "trip P m Q J \<Longrightarrow> P s \<Longrightarrow> m s = Asleep t \<Longrightarrow> J t"
  unfolding trip_def by (drule spec[of _ s]) simp

lemma trip_bnd:
  assumes "trip P m Q J" and "\<And>x. trip (Q x) (f x) R J"
  shows "trip P (bnd m f) R J"
proof (rule tripI)
  fix s y u
  assume "P s" "bnd m f s = Ok y u"
  then obtain x t where "m s = Ok x t" "f x t = Ok y u" by (auto simp: bnd_eq_Ok)
  then show "R y u" using trip_Ok[OF assms(1) \<open>P s\<close>] trip_Ok[OF assms(2)] by blast
next
  fix s u
  assume s: "P s" and b: "bnd m f s = Asleep u"
  show "J u"
  proof (cases "m s")
    case (Ok x t)
    then have "Q x t" using trip_Ok[OF assms(1) s] by blast
    moreover have "f x t = Asleep u" using Ok b by (simp add: bnd_def)
    ultimately show ?thesis by (rule trip_Asleep[OF assms(2)])
  qed (use b trip_Asleep[OF assms(1) s] in \<open>simp_all add: bnd_def\<close>)
qed

lemma trip_modify: "(\<And>s. P s \<Longrightarrow> Q () (f s)) \<Longrightarrow> trip P (modify f) Q J"
  by (simp add: trip_def modify_def)

lemma pres_ret [pres_intros]: "pres I J (ret x)"
  by (simp add: pres_def ret_def)

lemma pres_panic [pres_intros]: "pres I J (panic e)"
  by (simp add: pres_def panic_def)

lemma pres_fault [pres_intros]: "pres I J (fault e)"
  by (simp add: pres_def fault_def)

lemma pres_gets [pres_intros]: "pres I J (gets f)"
  by (simp add: pres_def gets_def)

lemma pres_modify: "(\<And>s. I s \<Longrightarrow> I (f s)) \<Longrightarrow> pres I J (modify f)"
  by (simp add: pres_def modify_def)

lemma pres_bnd [pres_intros]: "pres I J m \<Longrightarrow> (\<And>x. pres I J (f x)) \<Longrightarrow> pres I J (bnd m f)"
  unfolding pres_trip by (rule trip_bnd)

lemma pres_sq [pres_intros]: "pres I J m \<Longrightarrow> pres I J k \<Longrightarrow> pres I J (sq m k)"
  by (simp add: sq_def pres_bnd)

lemma pres_case_prod [pres_intros]:
  "(\<And>a b. (a, b) = x \<Longrightarrow> pres I J (f a b)) \<Longrightarrow> pres I J (case x of (a, b) \<Rightarrow> f a b)"
  by (cases x) simp

lemma pres_seqs_Nil [pres_intros]: "pres I J (seqs [])"
  by (simp add: pres_ret)

lemma pres_seqs_Cons [pres_intros]:
  "pres I J m \<Longrightarrow> pres I J (seqs ms) \<Longrightarrow> pres I J (seqs (m # ms))"
  by (simp add: pres_bnd)

lemma pres_whenk [pres_intros]: "(b \<Longrightarrow> pres I J m) \<Longrightarrow> pres I J (whenk b m)"
  by (simp add: whenk_def pres_ret)

lemma pres_if [pres_intros]:
  "(b \<Longrightarrow> pres I J m) \<Longrightarrow> (\<not> b \<Longrightarrow> pres I J m') \<Longrightarrow> pres I J (if b then m else m')"
  by simp

lemma pres_case_option [pres_intros]:
  "(x = None \<Longrightarrow> pres I J m) \<Longrightarrow> (\<And>y. x = Some y \<Longrightarrow> pres I J (f y)) \<Longrightarrow>
   pres I J (case x of None \<Rightarrow> m | Some y \<Rightarrow> f y)"
  by (cases x) simp_all

lemma pres_seqs_map [pres_intros]: "(\<And>i. pres I J (f i)) \<Longrightarrow> pres I J (seqs (map f ks))"
  by (induction ks) (simp_all add: pres_intros)

lemma pres_seqs_replicate [pres_intros]: "pres I J m \<Longrightarrow> pres I J (seqs (replicate n m))"
  by (induction n) (simp_all add: pres_intros)

section \<open>Rules for triples\<close>

lemma trip_pres: "pres I J m \<Longrightarrow> (\<And>s. J s \<Longrightarrow> J' s) \<Longrightarrow> trip I m (\<lambda>_. I) J'"
  by (auto simp: pres_def trip_def split: res.splits)

lemma trip_pre: "trip P m Q J \<Longrightarrow> (\<And>s. P' s \<Longrightarrow> P s) \<Longrightarrow> trip P' m Q J"
  by (simp add: trip_def)

lemma trip_post: "trip P m Q J \<Longrightarrow> (\<And>x s. Q x s \<Longrightarrow> Q' x s) \<Longrightarrow> (\<And>s. J s \<Longrightarrow> J' s) \<Longrightarrow> trip P m Q' J'"
  by (fastforce simp: trip_def split: res.splits)

lemma trip_sq: "trip P m (\<lambda>_. Q) J \<Longrightarrow> trip Q k R J \<Longrightarrow> trip P (sq m k) R J"
  unfolding sq_def by (rule trip_bnd)

lemma trip_ret: "(\<And>s. P s \<Longrightarrow> Q x s) \<Longrightarrow> trip P (ret x) Q J"
  by (simp add: trip_def ret_def)

lemma trip_if: "(b \<Longrightarrow> trip P m Q J) \<Longrightarrow> (\<not> b \<Longrightarrow> trip P m' Q J) \<Longrightarrow> trip P (if b then m else m') Q J"
  by simp

lemma trip_panic: "trip P (panic e) Q J"
  by (simp add: trip_def panic_def)

lemma seqs_snoc: "seqs (ms @ [m]) = sq (seqs ms) m"
  by (induction ms) (simp_all add: sq_def bnd_assoc bnd_ret)

end
