(* ===== verification/Memory.thy ===== *)
theory Memory
  imports Prelude
begin

text \<open>
  Raw memory as a function from 32-bit addresses to bytes, and the routines of \<open>string.c\<close>
  on it, loop by loop.  \<open>bytes m a n\<close> reads \<open>n\<close> bytes at \<open>a\<close> and \<open>blit m a bs\<close> stores the
  list \<open>bs\<close> there; the properties say that the loops, with their word-sized and backward
  variants, compute these closed forms.  Address arithmetic wraps at \<open>2 ^ 32\<close>.
\<close>

type_synonym mem = "u32 \<Rightarrow> u8"

definition bytes :: "mem \<Rightarrow> u32 \<Rightarrow> nat \<Rightarrow> u8 list" where
  "bytes m a n = map (\<lambda>i. m (a + of_nat i)) [0..<n]"

definition blit :: "mem \<Rightarrow> u32 \<Rightarrow> u8 list \<Rightarrow> mem" where
  "blit m a bs = (\<lambda>x. if unat (x - a) < length bs then bs ! unat (x - a) else m x)"

text \<open>The C string at \<open>s\<close>, cut at \<open>n\<close> bytes, without its NUL.\<close>

definition cstr :: "mem \<Rightarrow> u32 \<Rightarrow> nat \<Rightarrow> u8 list" where
  "cstr m s n = takeWhile (\<lambda>b. b \<noteq> 0) (bytes m s n)"

section \<open>Words in memory\<close>

text \<open>The processor is little-endian.\<close>

definition split32 :: "u32 \<Rightarrow> u8 list" where
  "split32 w = [ucast w, ucast (drop_bit 8 w), ucast (drop_bit 16 w), ucast (drop_bit 24 w)]"

definition join32 :: "u8 list \<Rightarrow> u32" where
  "join32 bs = (case bs of [a, b, c, d] \<Rightarrow>
     ucast a OR push_bit 8 (ucast b) OR push_bit 16 (ucast c) OR push_bit 24 (ucast d) | _ \<Rightarrow> 0)"

definition rd32 :: "mem \<Rightarrow> u32 \<Rightarrow> u32" where
  "rd32 m a = join32 (bytes m a 4)"

definition wr32 :: "mem \<Rightarrow> u32 \<Rightarrow> u32 \<Rightarrow> mem" where
  "wr32 m a w = blit m a (split32 w)"

section \<open>string.c\<close>

primrec stosb :: "nat \<Rightarrow> mem \<Rightarrow> u32 \<Rightarrow> u8 \<Rightarrow> mem" where
  "stosb 0 m a c = m"
| "stosb (Suc n) m a c = stosb n (m(a := c)) (a + 1) c"

primrec stosl :: "nat \<Rightarrow> mem \<Rightarrow> u32 \<Rightarrow> u32 \<Rightarrow> mem" where
  "stosl 0 m a w = m"
| "stosl (Suc n) m a w = stosl n (wr32 m a w) (a + 4) w"

definition memset :: "mem \<Rightarrow> u32 \<Rightarrow> u32 \<Rightarrow> u32 \<Rightarrow> mem" where
  "memset m dst c n =
     (if dst mod 4 = 0 \<and> n mod 4 = 0 then
        let c = c AND 0xFF in
        stosl (unat (n div 4)) m dst (push_bit 24 c OR push_bit 16 c OR push_bit 8 c OR c)
      else stosb (unat n) m dst (ucast c))"

primrec memcmp :: "nat \<Rightarrow> mem \<Rightarrow> u32 \<Rightarrow> u32 \<Rightarrow> int" where
  "memcmp 0 m s1 s2 = 0"
| "memcmp (Suc n) m s1 s2 =
     (if m s1 \<noteq> m s2 then uint (m s1) - uint (m s2) else memcmp n m (s1 + 1) (s2 + 1))"

primrec copy_up :: "nat \<Rightarrow> mem \<Rightarrow> u32 \<Rightarrow> u32 \<Rightarrow> mem" where
  "copy_up 0 m d s = m"
| "copy_up (Suc n) m d s = copy_up n (m(d := m s)) (d + 1) (s + 1)"

primrec copy_down :: "nat \<Rightarrow> mem \<Rightarrow> u32 \<Rightarrow> u32 \<Rightarrow> mem" where
  "copy_down 0 m d s = m"
| "copy_down (Suc n) m d s = copy_down n (m(d - 1 := m (s - 1))) (d - 1) (s - 1)"

definition memmove :: "mem \<Rightarrow> u32 \<Rightarrow> u32 \<Rightarrow> u32 \<Rightarrow> mem" where
  "memmove m dst src n =
     (if src < dst \<and> src + n > dst then copy_down (unat n) m (dst + n) (src + n)
      else copy_up (unat n) m dst src)"

definition memcpy :: "mem \<Rightarrow> u32 \<Rightarrow> u32 \<Rightarrow> u32 \<Rightarrow> mem" where
  "memcpy m dst src n = memmove m dst src n"

primrec strncmp :: "nat \<Rightarrow> mem \<Rightarrow> u32 \<Rightarrow> u32 \<Rightarrow> int" where
  "strncmp 0 m p q = 0"
| "strncmp (Suc n) m p q =
     (if m p \<noteq> 0 \<and> m p = m q then strncmp n m (p + 1) (q + 1) else uint (m p) - uint (m q))"

primrec strncpy_loop :: "nat \<Rightarrow> mem \<Rightarrow> u32 \<Rightarrow> u32 \<Rightarrow> mem" where
  "strncpy_loop 0 m s t = m"
| "strncpy_loop (Suc n) m s t =
     (let m' = m(s := m t) in
      if m t \<noteq> 0 then strncpy_loop n m' (s + 1) (t + 1) else stosb n m' (s + 1) 0)"

definition strncpy :: "mem \<Rightarrow> u32 \<Rightarrow> u32 \<Rightarrow> int \<Rightarrow> mem" where
  "strncpy m s t n = strncpy_loop (nat n) m s t"

primrec safestrcpy_loop :: "nat \<Rightarrow> mem \<Rightarrow> u32 \<Rightarrow> u32 \<Rightarrow> mem" where
  "safestrcpy_loop 0 m s t = m(s := 0)"
| "safestrcpy_loop (Suc n) m s t =
     (let m' = m(s := m t) in
      if m t \<noteq> 0 then safestrcpy_loop n m' (s + 1) (t + 1) else m'(s + 1 := 0))"

definition safestrcpy :: "mem \<Rightarrow> u32 \<Rightarrow> u32 \<Rightarrow> int \<Rightarrow> mem" where
  "safestrcpy m s t n = (if n \<le> 0 then m else safestrcpy_loop (nat (n - 1)) m s t)"

text \<open>\<open>None\<close> when the counter, an \<open>int\<close>, would overflow.\<close>

function strlen_from :: "mem \<Rightarrow> u32 \<Rightarrow> nat \<Rightarrow> nat option" where
  "strlen_from m s n =
     (if m (s + of_nat n) = 0 then Some n
      else if n + 1 < 2 ^ 31 then strlen_from m s (n + 1) else None)"
  by pat_completeness auto
termination
  by (relation "measure (\<lambda>(m, s, n). 2 ^ 31 - n)") auto

declare strlen_from.simps [simp del]

definition strlen :: "mem \<Rightarrow> u32 \<Rightarrow> nat option" where
  "strlen m s = strlen_from m s 0"

section \<open>Closed forms\<close>

lemma length_bytes [simp]: "length (bytes m a n) = n"
  by (simp add: bytes_def)

lemma nth_bytes [simp]: "i < n \<Longrightarrow> bytes m a n ! i = m (a + of_nat i)"
  by (simp add: bytes_def)

lemma blit_Nil [simp]: "blit m a [] = m"
  by (simp add: blit_def)

lemma bytes_0 [simp]: "bytes m a 0 = []"
  by (simp add: bytes_def)

lemma bytes_Suc: "bytes m a (Suc n) = m a # bytes m (a + 1) n"
  unfolding bytes_def upt_conv_Cons[OF zero_less_Suc] map_Suc_upt[symmetric]
  by (simp add: add.assoc comp_def)

lemma blit_Cons:
  assumes "length bs < 2 ^ 32"
  shows "blit m a (b # bs) = blit (m(a := b)) (a + 1) bs"
proof
  fix x
  show "blit m a (b # bs) x = blit (m(a := b)) (a + 1) bs x"
  proof (cases "x = a")
    case True
    have "unat (a - (a + 1)) = 2 ^ 32 - 1" by (simp add: unat_neg_1)
    then show ?thesis using True assms by (simp add: blit_def)
  next
    case False
    then show ?thesis by (simp add: blit_def unat_minus_1)
  qed
qed

lemma blit_append:
  "length xs + length ys \<le> 2 ^ 32 \<Longrightarrow>
     blit m a (xs @ ys) = blit (blit m a xs) (a + of_nat (length xs)) ys"
  by (induction xs arbitrary: m a) (simp_all add: blit_Cons ac_simps)

lemma blit_inside:
  assumes "i < length bs" and "length bs \<le> 2 ^ 32"
  shows "blit m a bs (a + of_nat i) = bs ! i"
  using assms by (simp add: blit_def)

lemma blit_outside: "length bs \<le> unat (x - a) \<Longrightarrow> blit m a bs x = m x"
  by (simp add: blit_def)

lemma bytes_blit [simp]: "length bs = n \<Longrightarrow> n \<le> 2 ^ 32 \<Longrightarrow> bytes (blit m a bs) a n = bs"
  by (rule nth_equalityI) (simp_all add: blit_inside)

lemma bytes_cong:
  "(\<And>i. i < n \<Longrightarrow> m (a + of_nat i) = m' (a + of_nat i)) \<Longrightarrow> bytes m a n = bytes m' a n"
  by (simp add: bytes_def)

lemma bytes_snoc: "bytes m a (Suc n) = bytes m a n @ [m (a + of_nat n)]"
  by (simp add: bytes_def)

lemma length_split32 [simp]: "length (split32 w) = 4"
  by (simp add: split32_def)

lemma join32_split32 [simp]: "join32 (split32 w) = w"
proof (rule bit_word_eqI)
  fix n assume "n < LENGTH(32)"
  then have "n < 32" by simp
  then show "bit (join32 (split32 w)) n = bit w n"
    by (cases n rule: byte_cases)
      (simp_all add: join32_def split32_def bit_or_iff bit_push_bit_iff bit_ucast_iff bit_drop_bit_eq)
qed

lemma rd32_wr32 [simp]: "rd32 (wr32 m a w) a = w"
  by (simp add: rd32_def wr32_def)

lemma stosb_blit: "n \<le> 2 ^ 32 \<Longrightarrow> stosb n m a c = blit m a (replicate n c)"
  by (induction n arbitrary: m a) (simp_all add: blit_Cons)

lemma stosl_blit:
  "4 * n \<le> 2 ^ 32 \<Longrightarrow> stosl n m a w = blit m a (concat (replicate n (split32 w)))"
proof (induction n arbitrary: m a)
  case (Suc n)
  have "length (concat (replicate k (split32 w))) = 4 * k" for k by (induction k) simp_all
  then show ?case using Suc by (simp add: blit_append wr32_def)
qed simp

lemma split32_repeat:
  fixes c :: u32
  shows "split32 (push_bit 24 (c AND 0xFF) OR push_bit 16 (c AND 0xFF) OR push_bit 8 (c AND 0xFF) OR (c AND 0xFF))
     = replicate 4 (ucast c)"
proof -
  define d where "d = c AND 0xFF"
  have "d = c AND mask 8" by (simp add: d_def mask_eq_exp_minus_1)
  then have d: "bit d i \<longleftrightarrow> i < 8 \<and> bit c i" for i by (auto simp: bit_and_iff bit_mask_iff)
  define w where "w = push_bit 24 d OR push_bit 16 d OR push_bit 8 d OR d"
  have w: "bit w i \<longleftrightarrow> i < 32 \<and> (24 \<le> i \<and> bit d (i - 24) \<or> 16 \<le> i \<and> bit d (i - 16) \<or> 8 \<le> i \<and> bit d (i - 8) \<or> bit d i)" for i
    using bit_imp_le_length[of w i] by (auto simp: w_def bit_or_iff bit_push_bit_iff)
  have h: "ucast (drop_bit k w) = (ucast c :: u8)" if "k = 0 \<or> k = 8 \<or> k = 16 \<or> k = 24" for k
  proof (rule bit_word_eqI)
    fix n assume "n < LENGTH(8)"
    then have "n < 8" by simp
    then show "bit (ucast (drop_bit k w) :: u8) n = bit (ucast c :: u8) n"
      using that by (elim disjE) (simp_all add: bit_ucast_iff bit_drop_bit_eq w d)
  qed
  moreover have "replicate 4 x = [x, x, x, x]" for x :: u8 by (simp add: numeral_eq_Suc)
  ultimately show ?thesis
    unfolding d_def[symmetric] w_def[symmetric] split32_def using h[of 0] by simp
qed

lemma concat_replicate4: "concat (replicate k (replicate 4 x)) = replicate (4 * k) x"
  by (induction k) (simp_all add: replicate_add)

lemma memset_blit: "memset m dst c n = blit m dst (replicate (unat n) (ucast c))"
proof (cases "dst mod 4 = 0 \<and> n mod 4 = 0")
  case True
  then have "unat n mod 4 = 0" using unat_mod[of n 4] by simp
  then have n: "4 * (unat n div 4) = unat n" by auto
  have "memset m dst c n = stosl (unat n div 4) m dst
      (push_bit 24 (c AND 0xFF) OR push_bit 16 (c AND 0xFF) OR push_bit 8 (c AND 0xFF) OR (c AND 0xFF))"
    using True by (simp only: memset_def Let_def if_True unat_div unat_numeral) simp
  also have "\<dots> = blit m dst (concat (replicate (unat n div 4) (replicate 4 (ucast c))))"
    using n by (subst stosl_blit) (simp_all only: split32_repeat unat_lt32 less_imp_le)
  finally show ?thesis by (simp only: concat_replicate4 n)
next
  case False
  then show ?thesis by (auto simp: memset_def stosb_blit less_imp_le unat_lt32)
qed

lemma bytes_upd_below:
  assumes "Suc n \<le> unat (d - s)"
  shows "bytes (m(d := v)) (s + 1) n = bytes m (s + 1) n"
proof (rule bytes_cong)
  fix i assume i: "i < n"
  have "d \<noteq> s + 1 + of_nat i"
  proof
    assume "d = s + 1 + of_nat i"
    then have "d - s = of_nat (Suc i)" by simp
    moreover have "Suc i < 2 ^ 32" using i assms unat_lt32(1)[of "d - s"] by linarith
    ultimately have "unat (d - s) = Suc i" by (simp del: of_nat_Suc)
    then show False using assms i by simp
  qed
  then show "(m(d := v)) (s + 1 + of_nat i) = m (s + 1 + of_nat i)" by simp
qed

lemma copy_up_blit:
  assumes "n \<le> 2 ^ 32" and "d = s \<or> n \<le> unat (d - s)"
  shows "copy_up n m d s = blit m d (bytes m s n)"
  using assms
proof (induction n arbitrary: m d s)
  case (Suc n)
  have "bytes (m(d := m s)) (s + 1) n = bytes m (s + 1) n"
    using Suc.prems(2) by (auto simp: bytes_upd_below)
  moreover have "copy_up n (m(d := m s)) (d + 1) (s + 1) =
      blit (m(d := m s)) (d + 1) (bytes (m(d := m s)) (s + 1) n)"
    using Suc.prems by (intro Suc.IH) auto
  ultimately show ?case using Suc.prems by (simp add: bytes_Suc blit_Cons)
qed simp

lemma memcmp_correct: "memcmp n m p q = 0 \<longleftrightarrow> bytes m p n = bytes m q n"
  by (induction n arbitrary: p q) (auto simp: bytes_Suc word_uint_eqI)

lemma copy_down_blit:
  assumes "n \<le> 2 ^ 32" and "n \<le> unat (s - d)"
  shows "copy_down n m (d + of_nat n) (s + of_nat n) = blit m d (bytes m s n)"
  using assms
proof (induction n arbitrary: m)
  case (Suc n)
  let ?m = "m(d + of_nat n := m (s + of_nat n))"
  have "bytes ?m s n = bytes m s n"
  proof (rule bytes_cong)
    fix i assume i: "i < n"
    have "s + of_nat i \<noteq> d + of_nat n"
    proof
      assume "s + of_nat i = d + of_nat n"
      then have "s - d = of_nat n - of_nat i" by (simp add: algebra_simps)
      also have "\<dots> = of_nat (n - i)" using i by (simp add: of_nat_diff)
      finally have "unat (s - d) = n - i" using Suc.prems(1) by simp
      then show False using Suc.prems(2) by simp
    qed
    then show "?m (s + of_nat i) = m (s + of_nat i)" by simp
  qed
  moreover have "copy_down n ?m (d + of_nat n) (s + of_nat n) = blit ?m d (bytes ?m s n)"
    using Suc.prems by (intro Suc.IH) auto
  moreover have "blit ?m d bs = (blit m d bs)(d + of_nat n := m (s + of_nat n))" if "length bs = n" for bs
    using that Suc.prems(1) by (auto simp: blit_def fun_eq_iff)
  ultimately show ?case using Suc.prems
    by (simp add: bytes_snoc blit_append blit_Cons algebra_simps)
qed simp

lemma cstr_Suc: "cstr m s (Suc n) = (if m s = 0 then [] else m s # cstr m (s + 1) n)"
  by (simp add: cstr_def bytes_Suc)

lemma cstr_0 [simp]: "cstr m s 0 = []"
  by (simp add: cstr_def)

lemma length_cstr [simp]: "length (cstr m s n) \<le> n"
  using length_takeWhile_le[of _ "bytes m s n"] by (simp add: cstr_def)

lemma cstr_upd_below: "Suc n \<le> unat (d - s) \<Longrightarrow> cstr (m(d := v)) (s + 1) n = cstr m (s + 1) n"
  by (simp add: cstr_def bytes_upd_below)

lemma strncpy_loop_blit:
  assumes "n \<le> 2 ^ 32" and "n \<le> unat (s - t)"
  shows "strncpy_loop n m s t = blit m s (cstr m t n @ replicate (n - length (cstr m t n)) 0)"
  using assms
proof (induction n arbitrary: m s t)
  case (Suc n)
  have "strncpy_loop n (m(s := m t)) (s + 1) (t + 1) = blit (m(s := m t)) (s + 1)
      (cstr m (t + 1) n @ replicate (n - length (cstr m (t + 1) n)) 0)"
    using Suc by (simp add: cstr_upd_below)
  then show ?case using Suc.prems length_cstr[of m "t + 1" n]
    by (simp add: cstr_Suc Let_def blit_Cons stosb_blit)
qed simp

lemma safestrcpy_loop_blit:
  assumes "Suc n < 2 ^ 32" and "n \<le> unat (s - t)"
  shows "safestrcpy_loop n m s t = blit m s (cstr m t n @
     (if length (cstr m t n) = n then [0] else [0, 0]))"
  using assms
proof (induction n arbitrary: m s t)
  case (Suc n)
  have "safestrcpy_loop n (m(s := m t)) (s + 1) (t + 1) = blit (m(s := m t)) (s + 1)
      (cstr m (t + 1) n @ (if length (cstr m (t + 1) n) = n then [0] else [0, 0]))"
    using Suc by (simp add: cstr_upd_below)
  moreover have "length (cstr m (t + 1) n) \<noteq> n \<Longrightarrow> length (cstr m (t + 1) n) < n"
    by (meson length_cstr le_neq_implies_less)
  ultimately show ?case using Suc.prems
    by (auto simp: cstr_Suc Let_def blit_Cons)
qed (simp add: blit_Cons)

lemma blit_head: "blit m a (b # bs) a = b"
  by (simp add: blit_def)

lemma cstr_blit:
  assumes "0 \<notin> set z" and "length z < n" and "length z + length r < 2 ^ 32"
  shows "cstr (blit m s (z @ 0 # r)) s n = z"
  using assms
proof (induction z arbitrary: m s n)
  case Nil
  then show ?case by (cases n) (simp_all add: cstr_Suc blit_head)
next
  case (Cons b z)
  then obtain k where n: "n = Suc k" by (cases n) auto
  have "cstr (blit (m(s := b)) (s + 1) (z @ 0 # r)) (s + 1) k = z"
    using Cons.prems n by (intro Cons.IH) simp_all
  then have "cstr (blit m s (b # z @ 0 # r)) (s + 1) k = z"
    using Cons.prems by (subst blit_Cons) simp_all
  then show ?case using Cons.prems n by (simp add: cstr_Suc blit_head)
qed

lemma cstr_nonzero: "0 \<notin> set (cstr m s n)"
  by (auto simp: cstr_def dest: set_takeWhileD)

lemma strlen_from_Some:
  assumes "n < 2 ^ 31"
  shows "strlen_from m s n = Some k \<longleftrightarrow>
     n \<le> k \<and> k < 2 ^ 31 \<and> m (s + of_nat k) = 0 \<and> (\<forall>i. n \<le> i \<and> i < k \<longrightarrow> m (s + of_nat i) \<noteq> 0)"
  using assms
proof (induction m s n rule: strlen_from.induct)
  case (1 m s n)
  show ?case
  proof (cases "m (s + of_nat n) \<noteq> 0 \<and> n + 1 < 2 ^ 31")
    case True
    then have "strlen_from m s n = strlen_from m s (n + 1)" by (subst strlen_from.simps) simp
    then show ?thesis using 1 True Suc_le_eq[of n]
      by (auto simp: le_less dest: Suc_leI)
  next
    case False
    then show ?thesis using "1.prems" by (subst strlen_from.simps) (auto simp: le_less)
  qed
qed

text \<open>C35: \<open>memmove\<close> moves \<open>n\<close> bytes as if through a temporary copy, also when the regions
  overlap in either direction, as long as neither runs past the end of the address space;
  every other byte keeps its value.\<close>

theorem memmove_correct:
  assumes "unat src + unat n < 2 ^ 32" and "unat dst + unat n < 2 ^ 32"
  shows "memmove m dst src n = blit m dst (bytes m src (unat n))"
proof (cases "src < dst \<and> src + n > dst")
  case True
  then have "unat (src - dst) = 2 ^ 32 + unat src - unat dst"
    by (auto simp: unat_sub_if' word_less_nat_alt)
  then have "unat n \<le> unat (src - dst)" using assms by simp
  then show ?thesis using True copy_down_blit[of "unat n" src dst m]
    by (simp add: memmove_def less_imp_le unat_lt32)
next
  case False
  have "dst = src \<or> unat n \<le> unat (dst - src)"
    using False assms by (auto simp: unat_sub_if' word_less_nat_alt unat_word_ariths(1) word_unat_eq_iff)
  then show ?thesis using False by (auto simp: memmove_def copy_up_blit less_imp_le unat_lt32)
qed

theorem memmove_correct_witness:
  "memmove (\<lambda>a. ucast a) 0x1002 0x1000 6 0x1007 = 5 \<and> memmove (\<lambda>a. ucast a) 0x1002 0x1000 6 0x1008 = 8"
  using memmove_correct[where src = "0x1000" and n = 6 and dst = "0x1002" and m = "\<lambda>a. ucast a"] by (simp add: blit_def)

text \<open>\<open>memset\<close> fills exactly \<open>n\<close> bytes with the low byte of \<open>c\<close>, whether it runs word by word
  (aligned address and length) or byte by byte.\<close>

theorem memset_correct: "memset m dst c n = blit m dst (replicate (unat n) (ucast c))"
  by (rule memset_blit)

text \<open>\<open>strlen\<close> returns the offset of the first NUL, when there is one below \<open>2 ^ 31\<close>.\<close>

theorem strlen_correct:
  "strlen m s = Some k \<longleftrightarrow> k < 2 ^ 31 \<and> m (s + of_nat k) = 0 \<and> (\<forall>i<k. m (s + of_nat i) \<noteq> 0)"
  by (simp add: strlen_def strlen_from_Some)

text \<open>\<open>strncmp\<close> returns 0 exactly when the two strings, cut at their NUL and at \<open>n\<close> bytes,
  are equal.\<close>

theorem strncmp_correct: "strncmp n m p q = 0 \<longleftrightarrow> cstr m p n = cstr m q n"
  by (induction n arbitrary: p q) (auto simp: cstr_Suc uint_0_iff word_uint_eqI)

text \<open>C40: \<open>safestrcpy(s, t, n)\<close> leaves a NUL-terminated copy of the first \<open>n - 1\<close> bytes of the string
  \<open>t\<close> at \<open>s\<close> and writes nothing outside the \<open>n\<close> bytes there.\<close>

theorem safestrcpy_correct:
  assumes "0 < n" and "n < 2 ^ 31" and "nat n \<le> unat (s - t)"
  shows "cstr (safestrcpy m s t n) s (nat n) = cstr m t (nat (n - 1)) \<and>
    (\<exists>i < nat n. safestrcpy m s t n (s + of_nat i) = 0) \<and>
    (\<forall>x. nat n \<le> unat (x - s) \<longrightarrow> safestrcpy m s t n x = m x)"
proof -
  define k where "k = nat (n - 1)"
  have n: "nat n = Suc k" "Suc k < 2 ^ 32" using assms(1,2) by (auto simp: k_def)
  define r where "r = (if length (cstr m t k) = k then [] else [0 :: u8])"
  have l: "length (cstr m t k) + length r \<le> k"
    using le_neq_implies_less[OF length_cstr[of m t k]] by (auto simp: r_def)
  have "safestrcpy m s t n = safestrcpy_loop k m s t"
    using assms(1) by (simp add: safestrcpy_def k_def)
  also have "\<dots> = blit m s (cstr m t k @ 0 # r)"
    using assms(3) n by (simp add: safestrcpy_loop_blit r_def)
  finally have c: "safestrcpy m s t n = blit m s (cstr m t k @ 0 # r)" .
  have "cstr (blit m s (cstr m t k @ 0 # r)) s (Suc k) = cstr m t k"
    using l n by (intro cstr_blit) (simp_all add: cstr_nonzero)
  moreover have "blit m s (cstr m t k @ 0 # r) (s + of_nat (length (cstr m t k))) = 0"
    using l n by (subst blit_inside) (simp_all add: nth_append)
  moreover have "length (cstr m t k) < Suc k" by (simp add: le_imp_less_Suc)
  moreover have "\<forall>x. Suc k \<le> unat (x - s) \<longrightarrow> blit m s (cstr m t k @ 0 # r) x = m x"
    using l by (auto intro!: blit_outside)
  ultimately show ?thesis unfolding c n(1) k_def[symmetric] by blast
qed

theorem safestrcpy_correct_witness:
  "cstr (safestrcpy (\<lambda>a. if a < 100 then 65 else 0) 0x1000 96 3) 0x1000 3 = [65, 65]"
  using safestrcpy_correct[of 3 "0x1000" 96 "\<lambda>a. if a < 100 then 65 else 0"]
  by (simp add: cstr_def bytes_def upt_rec)

text \<open>\<open>strncpy(s, t, n)\<close> stores the string \<open>t\<close>, cut at \<open>n\<close> bytes and padded with NULs to
  exactly \<open>n\<close> bytes.\<close>

theorem strncpy_correct:
  assumes "0 \<le> n" and "n < 2 ^ 31" and "nat n \<le> unat (s - t)"
  shows "strncpy m s t n =
    blit m s (cstr m t (nat n) @ replicate (nat n - length (cstr m t (nat n))) 0)"
  using assms by (simp add: strncpy_def strncpy_loop_blit)

end
