(* ===== verification/Kernel_State.thy ===== *)
theory Kernel_State
  imports Kernel_Monad Memory
begin

text \<open>
  The kernel's data structures (\<open>proc.h\<close>, \<open>file.h\<close>, \<open>buf.h\<close>, \<open>fs.h\<close>, \<open>sleeplock.h\<close>,
  \<open>x86.h\<close> and the anonymous structs of the C files) and the state a kernel thread runs on.

  \<open>shared\<close> holds what all threads and CPUs see.  Arrays of structs are lists, a pointer
  into such an array is an index, a null pointer is \<open>None\<close>.  Structs that live in pages
  from \<open>kalloc()\<close> (trap frames, contexts, pipes) are in one heap per type, addressed by
  kernel virtual addresses; raw bytes are in \<open>mem\<close>.  Addresses the linker chooses are the
  fields of \<open>layout\<close>; \<open>past_pid\<close> is the word a read of \<open>ptable.proc[NPROC].pid\<close>, one entry
  past the process table, finds.  \<open>dwrites\<close> is the disk's history: the blocks written, in order.

  \<open>kst\<close> adds what belongs to the running thread: its slot in the process table, the
  spinlocks this CPU holds, the page directory register, and \<open>others\<close>, the script of
  interference: what the other threads, CPUs and interrupt handlers do to the shared state
  at the points where this thread lets them run (when it takes a spinlock, and while it is
  switched out).  Theorems that hold for every script hold for every interleaving at that
  granularity; an empty script is an undisturbed run.
\<close>

section \<open>Processes (proc.h)\<close>

datatype procstate = UNUSED | EMBRYO | SLEEPING | RUNNABLE | RUNNING | ZOMBIE

record trapframe =
  tf_edi :: u32
  tf_esi :: u32
  tf_ebp :: u32
  tf_oesp :: u32
  tf_ebx :: u32
  tf_edx :: u32
  tf_ecx :: u32
  tf_eax :: u32
  tf_gs :: u16
  tf_fs :: u16
  tf_es :: u16
  tf_ds :: u16
  tf_trapno :: u32
  tf_err :: u32
  tf_eip :: u32
  tf_cs :: u16
  tf_eflags :: u32
  tf_esp :: u32
  tf_ss :: u16

record kcontext =
  c_edi :: u32
  c_esi :: u32
  c_ebx :: u32
  c_ebp :: u32
  c_eip :: u32

record proc =
  sz :: u32
  threadcount :: u32
  pgdir :: u32
  kstack :: u32
  pstate :: procstate
  pid :: int
  tgid :: int
  process :: "nat option"
  parent :: "nat option"
  tf :: u32
  context_p :: u32
  chan :: u32
  killed :: bool
  ofile :: "nat option list"
  cwd :: "nat option"
  pname :: "u8 list"
  lostwakeup :: u32

section \<open>Locks\<close>

text \<open>A sleep lock protects one buffer of the block cache or one cached inode; its own
  spinlock is \<open>SlLock\<close>.\<close>

datatype slid = BufLock nat | InodeLock nat

record sleeplock =
  slocked :: bool
  slpid :: int

datatype lockid = PtableLock | VLock nat | CwdLock nat | KmemLock | FtableLock | IcacheLock
  | BcacheLock | LogLock | IdeLock | ConsLock | TicksLock | PipeLock u32 | SlLock slid

section \<open>Files, inodes, buffers, pipes\<close>

datatype ftypet = FD_NONE | FD_PIPE | FD_INODE

record kfile =
  ftype :: ftypet
  fref :: int
  readable :: bool
  writable :: bool
  fpipe :: u32
  fip :: "nat option"
  foff :: u32

record inode =
  idev :: u32
  inum :: u32
  iref :: int
  ivalid :: bool
  itype :: u16
  major :: u16
  minor :: u16
  nlink :: u16
  isz :: u32
  addrs :: "u32 list"

record superblock =
  sb_size :: u32
  sb_nblocks :: u32
  sb_ninodes :: u32
  sb_nlog :: u32
  sb_logstart :: u32
  sb_inodestart :: u32
  sb_bmapstart :: u32

record buf =
  b_valid :: bool
  b_dirty :: bool
  bdev :: u32
  blockno :: u32
  refcnt :: u32
  bdata :: "u8 list"

record pipe =
  pdata :: "u8 list"
  nread :: u32
  nwrite :: u32
  readopen :: bool
  writeopen :: bool

record klog =
  log_start :: u32
  log_size :: u32
  outstanding :: int
  committing :: bool
  log_dev :: u32
  lh_n :: int
  lh_block :: "u32 list"

record console =
  cons_locking :: bool
  panicked :: bool
  uart_out :: "u8 list"
  crt :: "nat \<Rightarrow> u16"
  crt_pos :: nat
  in_buf :: "u8 list"
  in_r :: u32
  in_w :: u32
  in_e :: u32

record kmem =
  use_lock :: bool
  freelist :: u32

datatype devfun = ConsoleRead | ConsoleWrite

record devsw =
  dev_read :: "devfun option"
  dev_write :: "devfun option"

section \<open>The state of the machine as one kernel thread sees it\<close>

record layout =
  proc_addr :: "nat \<Rightarrow> u32"
  slock_addr :: "slid \<Rightarrow> u32"
  log_addr :: u32
  ticks_addr :: u32
  input_r_addr :: u32
  trapret_addr :: u32
  forkret_addr :: u32
  end_addr :: u32
  data_addr :: u32

record shared =
  lay :: layout
  ptable :: "proc list"
  past_pid :: int
  initproc :: "nat option"
  nextpid :: int
  kmem :: kmem
  mem :: mem
  trapframes :: "u32 \<Rightarrow> trapframe"
  contexts :: "u32 \<Rightarrow> kcontext"
  kpgdir :: u32
  slocks :: "slid \<Rightarrow> sleeplock"
  ftable :: "kfile list"
  pipes :: "u32 \<Rightarrow> pipe"
  icache :: "inode list"
  sb :: superblock
  bcache :: "buf list"
  bc_next :: "nat \<Rightarrow> nat"
  bc_prev :: "nat \<Rightarrow> nat"
  disk :: "nat \<Rightarrow> u8 list"
  dwrites :: "(nat \<times> u8 list) list"
  disksize :: nat
  klog :: klog
  cons :: console
  devsw :: "devsw list"
  ticks :: u32

text \<open>The data segment before \<open>main()\<close> runs: C zeroes static storage, \<open>nextpid\<close> is initialised
  to 1 and \<open>panicked\<close> to 0.\<close>

definition zeroed_proc :: proc where
  "zeroed_proc = \<lparr>sz = 0, threadcount = 0, pgdir = 0, kstack = 0, pstate = UNUSED, pid = 0, tgid = 0,
     process = None, parent = None, tf = 0, context_p = 0, chan = 0, killed = False,
     ofile = replicate NOFILE None, cwd = None, pname = replicate 16 0, lostwakeup = 0\<rparr>"

definition zeroed_file :: kfile where
  "zeroed_file = \<lparr>ftype = FD_NONE, fref = 0, readable = False, writable = False, fpipe = 0, fip = None,
     foff = 0\<rparr>"

definition zeroed_inode :: inode where
  "zeroed_inode = \<lparr>idev = 0, inum = 0, iref = 0, ivalid = False, itype = 0, major = 0, minor = 0,
     nlink = 0, isz = 0, addrs = replicate 13 0\<rparr>"

definition zeroed_buf :: buf where
  "zeroed_buf = \<lparr>b_valid = False, b_dirty = False, bdev = 0, blockno = 0, refcnt = 0,
     bdata = replicate 512 0\<rparr>"

definition zeroed_pipe :: pipe where
  "zeroed_pipe = \<lparr>pdata = replicate 512 0, nread = 0, nwrite = 0, readopen = False, writeopen = False\<rparr>"

definition zeroed_tf :: trapframe where
  "zeroed_tf = \<lparr>tf_edi = 0, tf_esi = 0, tf_ebp = 0, tf_oesp = 0, tf_ebx = 0, tf_edx = 0, tf_ecx = 0,
     tf_eax = 0, tf_gs = 0, tf_fs = 0, tf_es = 0, tf_ds = 0, tf_trapno = 0, tf_err = 0, tf_eip = 0,
     tf_cs = 0, tf_eflags = 0, tf_esp = 0, tf_ss = 0\<rparr>"

definition zeroed :: "layout \<Rightarrow> shared" where
  "zeroed l = \<lparr>lay = l, ptable = replicate NPROC zeroed_proc, past_pid = 0, initproc = None,
     nextpid = 1, kmem = \<lparr>use_lock = False, freelist = 0\<rparr>, mem = (\<lambda>_. 0),
     trapframes = (\<lambda>_. zeroed_tf),
     contexts = (\<lambda>_. \<lparr>c_edi = 0, c_esi = 0, c_ebx = 0, c_ebp = 0, c_eip = 0\<rparr>), kpgdir = 0,
     slocks = (\<lambda>_. \<lparr>slocked = False, slpid = 0\<rparr>), ftable = replicate NFILE zeroed_file,
     pipes = (\<lambda>_. zeroed_pipe), icache = replicate NINODE zeroed_inode,
     sb = \<lparr>sb_size = 0, sb_nblocks = 0, sb_ninodes = 0, sb_nlog = 0, sb_logstart = 0,
       sb_inodestart = 0, sb_bmapstart = 0\<rparr>,
     bcache = replicate NBUF zeroed_buf, bc_next = (\<lambda>_. 0), bc_prev = (\<lambda>_. 0),
     disk = (\<lambda>_. replicate 512 0), dwrites = [], disksize = 0,
     klog = \<lparr>log_start = 0, log_size = 0, outstanding = 0, committing = False, log_dev = 0, lh_n = 0,
       lh_block = replicate LOGSIZE 0\<rparr>,
     cons = \<lparr>cons_locking = False, panicked = False, uart_out = [], crt = (\<lambda>_. 0), crt_pos = 0,
       in_buf = replicate 128 0, in_r = 0, in_w = 0, in_e = 0\<rparr>,
     devsw = replicate (nat NDEV) \<lparr>dev_read = None, dev_write = None\<rparr>, ticks = 0\<rparr>"

record kst =
  sh :: shared
  curp :: "nat option"
  held :: "lockid list"
  cr3 :: u32
  esp0 :: u32
  others :: "(shared \<Rightarrow> shared) list"

type_synonym 'a km = "kst \<Rightarrow> ('a, kst) res"

definition getsh :: "(shared \<Rightarrow> 'a) \<Rightarrow> 'a km" where
  [kdefs]: "getsh f s = Ok (f (sh s)) s"

definition modsh :: "(shared \<Rightarrow> shared) \<Rightarrow> unit km" where
  [kdefs]: "modsh f s = Ok () (s\<lparr>sh := f (sh s)\<rparr>)"

definition interfere :: "kst \<Rightarrow> kst" where
  "interfere s = (case others s of [] \<Rightarrow> s | f # fs \<Rightarrow> s\<lparr>sh := f (sh s), others := fs\<rparr>)"

lemma interfere_private [simp]:
  "curp (interfere s) = curp s" "held (interfere s) = held s" "cr3 (interfere s) = cr3 s"
  "esp0 (interfere s) = esp0 s" "others (interfere s) = tl (others s)"
  by (simp_all add: interfere_def split: list.split)

lemma interfere_quiet [simp]: "others s = [] \<Longrightarrow> interfere s = s"
  by (simp add: interfere_def)

text \<open>An example of what the linker may choose, for concrete runs.\<close>

definition sample_layout :: layout where
  "sample_layout = \<lparr>proc_addr = (\<lambda>i. 0x80112D54 + 136 * of_nat i),
     slock_addr = (\<lambda>l. case l of BufLock i \<Rightarrow> 0x8010B5CC + 604 * of_nat i
       | InodeLock i \<Rightarrow> 0x80111A20 + 144 * of_nat i),
     log_addr = 0x80112680, ticks_addr = 0x80115CA0, input_r_addr = 0x8010FF60,
     trapret_addr = 0x80105E3C, forkret_addr = 0x80103CB0, end_addr = 0x801166A8,
     data_addr = 0x80108000\<rparr>"

text \<open>A thread with no lock held.\<close>

definition fresh_kst :: "shared \<Rightarrow> nat option \<Rightarrow> (shared \<Rightarrow> shared) list \<Rightarrow> kst" where
  [simp]: "fresh_kst x q fs = \<lparr>sh = x, curp = q, held = [], cr3 = 0, esp0 = 0, others = fs\<rparr>"

section \<open>Access to the process table\<close>

definition upd_proc :: "nat \<Rightarrow> (proc \<Rightarrow> proc) \<Rightarrow> shared \<Rightarrow> shared" where
  "upd_proc i f x = x\<lparr>ptable := (ptable x)[i := f (ptable x ! i)]\<rparr>"

definition getp :: "nat \<Rightarrow> (proc \<Rightarrow> 'a) \<Rightarrow> 'a km" where
  [kdefs]: "getp i f = getsh (\<lambda>x. f (ptable x ! i))"

definition setp :: "nat \<Rightarrow> (proc \<Rightarrow> proc) \<Rightarrow> unit km" where
  [kdefs]: "setp i f = modsh (upd_proc i f)"

definition ptr_addr :: "nat option \<Rightarrow> shared \<Rightarrow> u32" where
  "ptr_addr p x = (case p of None \<Rightarrow> 0 | Some i \<Rightarrow> proc_addr (lay x) i)"

text \<open>Following a null pointer has no defined meaning.\<close>

definition deref :: "'p option \<Rightarrow> 'p km" where
  [kdefs]: "deref p = (case p of None \<Rightarrow> fault ''null pointer'' | Some i \<Rightarrow> ret i)"

text \<open>\<open>myproc()\<close> reads \<open>mycpu()->proc\<close> between \<open>pushcli()\<close> and \<open>popcli()\<close>, which cancel.\<close>

definition myproc :: "nat option km" where
  [kdefs]: "myproc = gets curp"

definition curproc :: "nat km" where
  [kdefs]: "curproc = bnd myproc deref"

definition initlock :: "lockid \<Rightarrow> unit km" where
  [kdefs]: "initlock lk = modify (\<lambda>s. s\<lparr>held := removeAll lk (held s)\<rparr>)"

definition acquire :: "lockid \<Rightarrow> unit km" where
  [kdefs]: "acquire lk s = (if lk \<in> set (held s) then Panic ''acquire''
     else Ok () ((interfere s)\<lparr>held := lk # held s\<rparr>))"

definition release :: "lockid \<Rightarrow> unit km" where
  [kdefs]: "release lk s = (if lk \<notin> set (held s) then Panic ''release''
     else Ok () (s\<lparr>held := remove1 lk (held s)\<rparr>))"

definition holding :: "lockid \<Rightarrow> bool km" where
  [kdefs]: "holding lk = gets (\<lambda>s. lk \<in> set (held s))"

lemma acquire_Ok_iff [simp]:
  "acquire lk s = Ok u t \<longleftrightarrow> lk \<notin> set (held s) \<and> t = (interfere s)\<lparr>held := lk # held s\<rparr>"
  by (auto simp: acquire_def)

lemma release_Ok_iff [simp]:
  "release lk s = Ok u t \<longleftrightarrow> lk \<in> set (held s) \<and> t = s\<lparr>held := remove1 lk (held s)\<rparr>"
  by (auto simp: release_def)

section \<open>Relying on the other threads\<close>

text \<open>\<open>env_ok W p f\<close>: the step \<open>f\<close> of the others keeps the invariant \<open>W\<close> of the shared state
  and does not take the CPU from the thread in slot \<open>p\<close> while that is \<open>RUNNING\<close>.  \<open>thr W R p s\<close>:
  \<open>W\<close> holds, the current thread is that in slot \<open>p\<close> and \<open>RUNNING\<close>, and the script is made of such
  steps, which satisfy \<open>R\<close> as well.  \<open>rest W\<close> is what a thread leaves behind when it never runs
  again.\<close>

definition env_ok :: "(shared \<Rightarrow> bool) \<Rightarrow> nat \<Rightarrow> (shared \<Rightarrow> shared) \<Rightarrow> bool" where
  "env_ok W p f \<longleftrightarrow> (\<forall>x. W x \<longrightarrow> p < length (ptable x) \<longrightarrow>
     W (f x) \<and> length (ptable (f x)) = length (ptable x) \<and>
     (pstate (ptable x ! p) = RUNNING \<longrightarrow> pstate (ptable (f x) ! p) = RUNNING))"

definition thr_at :: "(shared \<Rightarrow> bool) \<Rightarrow> ((shared \<Rightarrow> shared) \<Rightarrow> bool) \<Rightarrow> nat \<Rightarrow> kst \<Rightarrow> bool" where
  "thr_at W R p s \<longleftrightarrow> W (sh s) \<and> curp s = Some p \<and> p < length (ptable (sh s)) \<and>
     (\<forall>f\<in>set (others s). R f \<and> env_ok W p f)"

definition thr :: "(shared \<Rightarrow> bool) \<Rightarrow> ((shared \<Rightarrow> shared) \<Rightarrow> bool) \<Rightarrow> nat \<Rightarrow> kst \<Rightarrow> bool" where
  "thr W R p s \<longleftrightarrow> thr_at W R p s \<and> pstate (ptable (sh s) ! p) = RUNNING"

definition rest :: "(shared \<Rightarrow> bool) \<Rightarrow> kst \<Rightarrow> bool" where
  "rest W s \<longleftrightarrow> W (sh s)"

lemma thr_interfere: "thr W R p s \<Longrightarrow> thr W R p (interfere s)"
  by (cases "others s") (auto simp: thr_def thr_at_def interfere_def env_ok_def)

lemma thr_private [simp]:
  "thr W R p (s\<lparr>held := h\<rparr>) = thr W R p s" "thr W R p (s\<lparr>cr3 := c\<rparr>) = thr W R p s"
  "thr W R p (s\<lparr>esp0 := e\<rparr>) = thr W R p s"
  by (simp_all add: thr_def thr_at_def)

lemma pres_acquire [pres_intros]: "pres (thr W R p) J (acquire lk)"
  by (rule presI) (auto simp: thr_interfere, simp add: acquire_def split: if_splits)

lemma pres_release [pres_intros]: "pres (thr W R p) J (release lk)"
  by (rule presI) (auto, simp add: release_def split: if_splits)

lemma pres_initlock [pres_intros]: "pres (thr W R p) J (initlock lk)"
  by (simp add: initlock_def pres_modify)

lemma pres_getsh [pres_intros]: "pres I J (getsh f)"
  by (simp add: pres_def getsh_def)

lemma pres_getp [pres_intros]: "pres I J (getp i f)"
  by (simp add: getp_def pres_getsh)

lemma pres_modsh:
  assumes "\<And>x. W x \<Longrightarrow> W (f x)" and "\<And>x. length (ptable (f x)) = length (ptable x)"
    and "\<And>x p. p < length (ptable x) \<Longrightarrow> pstate (ptable x ! p) = RUNNING \<Longrightarrow>
           pstate (ptable (f x) ! p) = RUNNING"
  shows "pres (thr W R p) J (modsh f)"
  using assms by (auto simp: pres_def modsh_def thr_def thr_at_def)

lemma pres_deref [pres_intros]: "pres I J (deref p)"
  by (simp add: deref_def pres_intros)

lemma pres_myproc [pres_intros]: "pres I J myproc"
  by (simp add: myproc_def pres_intros)

lemma pres_curproc [pres_intros]: "pres I J curproc"
  by (simp add: curproc_def pres_intros)

lemma pres_bnd_myproc: "pres (thr W R p) J (f (Some p)) \<Longrightarrow> pres (thr W R p) J (bnd myproc f)"
  by (simp add: pres_def bnd_def myproc_def gets_def thr_def thr_at_def)

lemma pres_bnd_curproc: "pres (thr W R p) J (f p) \<Longrightarrow> pres (thr W R p) J (bnd curproc f)"
  by (simp add: pres_def kdefs thr_def thr_at_def)

lemma length_upd_proc [simp]: "length (ptable (upd_proc i f x)) = length (ptable x)"
  by (simp add: upd_proc_def)

lemma nth_upd_proc:
  "ptable (upd_proc i f x) ! j =
     (if j = i \<and> i < length (ptable x) then f (ptable x ! i) else ptable x ! j)"
  by (auto simp: upd_proc_def nth_list_update not_less list_update_beyond)

lemma trip_getp: "(\<And>v. trip (\<lambda>s. P s \<and> v = f (ptable (sh s) ! i)) (k v) Q J) \<Longrightarrow> trip P (bnd (getp i f) k) Q J"
  by (simp add: trip_def bnd_def getp_def getsh_def)

lemma trip_setp: "(\<And>s. P s \<Longrightarrow> Q () (s\<lparr>sh := upd_proc i f (sh s)\<rparr>)) \<Longrightarrow> trip P (setp i f) Q J"
  by (simp add: trip_def setp_def modsh_def)

lemma trip_deref: "(\<And>v. p = Some v \<Longrightarrow> trip P (k v) Q J) \<Longrightarrow> trip P (bnd (deref p) k) Q J"
  by (cases p) (simp_all add: trip_def bnd_def deref_def fault_def ret_def)

end
