(* ===== verification/Sched.thy ===== *)
theory Sched
  imports Kernel_State
begin

text \<open>
  Switching between kernel threads: \<open>sched\<close>, \<open>scheduler\<close>, \<open>yield\<close>, \<open>sleep\<close>, \<open>wakeup\<close>,
  \<open>kill\<close> and the blocking primitives \<open>park\<close> and \<open>unpark\<close> of \<open>proc.c\<close>, with \<open>switchuvm\<close> of
  \<open>vm.c\<close>.  A thread that is switched out comes back when the script of the others has made
  it \<open>RUNNABLE\<close> and the scheduler picks it; \<open>sleep_loop\<close> is the C idiom
  \<open>while(...) sleep(chan, lk)\<close>.
\<close>

section \<open>Switching\<close>

definition switchuvm :: "nat option \<Rightarrow> unit km" where
  [kdefs]: "switchuvm q = (case q of None \<Rightarrow> panic ''switchuvm: no process''
   | Some p \<Rightarrow> bnd (getp p kstack) (\<lambda>ks. bnd (getp p pgdir) (\<lambda>pd.
       if ks = 0 then panic ''switchuvm: no kstack''
       else if pd = 0 then panic ''switchuvm: no pgdir''
       else modify (\<lambda>s. s\<lparr>esp0 := ks + KSTACKSIZE, cr3 := V2P pd\<rparr>))))"

definition switchkvm :: "unit km" where
  [kdefs]: "switchkvm = modify (\<lambda>s. s\<lparr>cr3 := V2P (kpgdir (sh s))\<rparr>)"

text \<open>The part of the scheduler's loop that starts a process.\<close>

definition scheduler_run :: "nat \<Rightarrow> unit km" where
  [kdefs]: "scheduler_run p = seqs [
     modify (\<lambda>s. s\<lparr>curp := Some p\<rparr>),
     switchuvm (Some p),
     setp p (\<lambda>r. r\<lparr>pstate := RUNNING\<rparr>)]"

text \<open>The thread in slot \<open>p\<close> has switched away: the others run until a scheduler finds it
  \<open>RUNNABLE\<close>; if the script ends before, it is never resumed.\<close>

fun resched :: "nat \<Rightarrow> (shared \<Rightarrow> shared) list \<Rightarrow> unit km" where
  "resched p [] s =
     (let t = s\<lparr>others := []\<rparr> in
      if pstate (ptable (sh t) ! p) = RUNNABLE then scheduler_run p t else Asleep t)"
| "resched p (f # fs) s =
     (let t = s\<lparr>sh := f (sh s), others := fs\<rparr> in
      if pstate (ptable (sh t) ! p) = RUNNABLE then scheduler_run p t else resched p fs t)"

definition swtch :: "nat \<Rightarrow> unit km" where
  "swtch p s = resched p (others s) s"

text \<open>The last test of the source, that interrupts are off, is the test that no lock is held: a CPU
  has interrupts on exactly when it holds none (\<open>Spinlock\<close>).\<close>

definition sched :: "unit km" where
  "sched = bnd curproc (\<lambda>p. bnd (gets held) (\<lambda>h. bnd (getp p pstate) (\<lambda>st.
     bnd (getsh (\<lambda>x. length (ptable x))) (\<lambda>n.
     if PtableLock \<notin> set h then panic ''sched ptable.lock''
     else if length h \<noteq> 1 then panic ''sched locks''
     else if st = RUNNING then panic ''sched running''
     else if h = [] then panic ''sched interruptible''
     else if n \<le> p then fault ''bad process pointer''
     else swtch p))))"

definition yield :: "unit km" where
  "yield = seqs [
     acquire PtableLock,
     bnd curproc (\<lambda>p. setp p (\<lambda>r. r\<lparr>pstate := RUNNABLE\<rparr>)),
     sched,
     release PtableLock]"

text \<open>The statements of \<open>sleep\<close> behind its two checks, one by one.\<close>

definition sleep_body :: "nat \<Rightarrow> u32 \<Rightarrow> lockid \<Rightarrow> unit km list" where
  "sleep_body p ch lk =
     (if lk \<noteq> PtableLock then [acquire PtableLock, release lk] else []) @
     [setp p (\<lambda>r. r\<lparr>chan := ch\<rparr>),
      setp p (\<lambda>r. r\<lparr>pstate := SLEEPING\<rparr>),
      sched,
      setp p (\<lambda>r. r\<lparr>chan := 0\<rparr>)] @
     (if lk \<noteq> PtableLock then [release PtableLock, acquire lk] else [])"

definition sleep :: "u32 \<Rightarrow> lockid option \<Rightarrow> unit km" where
  "sleep ch lko = bnd myproc (\<lambda>q. case q of None \<Rightarrow> panic ''sleep''
   | Some p \<Rightarrow> (case lko of None \<Rightarrow> panic ''sleep without lk''
     | Some lk \<Rightarrow> seqs (sleep_body p ch lk)))"

definition wake :: "u32 \<Rightarrow> proc \<Rightarrow> proc" where
  "wake ch p = (if pstate p = SLEEPING \<and> chan p = ch then p\<lparr>pstate := RUNNABLE\<rparr> else p)"

definition wakeup1 :: "u32 \<Rightarrow> unit km" where
  [kdefs]: "wakeup1 ch = modsh (\<lambda>x. x\<lparr>ptable := map (wake ch) (ptable x)\<rparr>)"

definition wakeup :: "u32 \<Rightarrow> unit km" where
  "wakeup ch = seqs [acquire PtableLock, wakeup1 ch, release PtableLock]"

definition kill :: "int \<Rightarrow> int km" where
  "kill pd = sq (acquire PtableLock)
     (bnd (getsh (\<lambda>x. scan (\<lambda>p. pid p = pd) (ptable x))) (\<lambda>r. case r of
        None \<Rightarrow> sq (release PtableLock) (ret (- 1))
      | Some i \<Rightarrow> sq (setp i (\<lambda>p. p\<lparr>killed := True,
                        pstate := if pstate p = SLEEPING then RUNNABLE else pstate p\<rparr>))
                  (sq (release PtableLock) (ret 0))))"

section \<open>park and unpark\<close>

definition park :: "u32 \<Rightarrow> int km" where
  "park ch = bnd myproc (\<lambda>q. case q of None \<Rightarrow> panic ''sleep''
   | Some p \<Rightarrow> sq (acquire PtableLock)
      (bnd (getp p lostwakeup) (\<lambda>lw.
        if lw = ch then
          sq (setp p (\<lambda>r. r\<lparr>lostwakeup := 0\<rparr>)) (sq (release PtableLock) (ret 0))
        else
          sq (seqs [
            setp p (\<lambda>r. r\<lparr>chan := ch, lostwakeup := 0, pstate := SLEEPING\<rparr>),
            sched,
            setp p (\<lambda>r. r\<lparr>chan := 0\<rparr>),
            release PtableLock])
          (ret 0))))"

definition unpark :: "int \<Rightarrow> u32 \<Rightarrow> int km" where
  "unpark pd ch = sq (acquire PtableLock)
     (bnd (getsh (\<lambda>x. scan (\<lambda>p. pid p = pd) (ptable x))) (\<lambda>r. bnd (getsh past_pid) (\<lambda>pp.
      case r of
        None \<Rightarrow> if pp \<noteq> pd then sq (release PtableLock) (ret (- 1))
                 else fault ''use of ptable.proc[NPROC]''
      | Some i \<Rightarrow> bnd (getp i (\<lambda>p. pstate p = SLEEPING \<and> chan p = ch)) (\<lambda>b.
          if b then sq (setp i (\<lambda>p. p\<lparr>pstate := RUNNABLE, chan := 0\<rparr>))
                    (sq (release PtableLock) (ret 0))
          else sq (setp i (\<lambda>p. p\<lparr>lostwakeup := ch\<rparr>))
               (sq (release PtableLock) (ret 1))))))"

section \<open>The scheduler\<close>

text \<open>One pass of the inner loop: a \<open>RUNNABLE\<close> process is started, runs as the next step
  of the script says, and has switched back when the loop goes on.\<close>

fun scheduler_pass :: "nat list \<Rightarrow> unit km" where
  "scheduler_pass [] = ret ()"
| "scheduler_pass (p # ps) = bnd (getp p pstate) (\<lambda>st.
     sq (whenk (st = RUNNABLE) (seqs [
           scheduler_run p,
           modify interfere,
           switchkvm,
           modify (\<lambda>s. s\<lparr>curp := None\<rparr>)]))
        (scheduler_pass ps))"

definition scheduler_round :: "unit km" where
  "scheduler_round = seqs [acquire PtableLock, scheduler_pass [0..<NPROC], release PtableLock]"

fun scheduler :: "nat \<Rightarrow> unit km" where
  "scheduler 0 = modify (\<lambda>s. s\<lparr>curp := None\<rparr>)"
| "scheduler (Suc rounds) = sq (scheduler rounds) scheduler_round"

section \<open>Sleeping in a loop\<close>

text \<open>\<open>sleep_loop test body\<close>: evaluate \<open>test\<close>; with a result leave the loop, without one run
  \<open>body\<close> (which sleeps) and start again.  Each pass through a sleep uses up a part of the
  script, so the loop ends.\<close>

function sleep_loop :: "'a option km \<Rightarrow> unit km \<Rightarrow> 'a km" where
  "sleep_loop test body s = (case test s of
     Ok (Some r) t \<Rightarrow> Ok r t
   | Ok None t \<Rightarrow> (case body t of
       Ok _ u \<Rightarrow> (if length (others u) < length (others s) then sleep_loop test body u else Asleep u)
     | Asleep u \<Rightarrow> Asleep u | Panic e \<Rightarrow> Panic e | Fault e \<Rightarrow> Fault e)
   | Asleep t \<Rightarrow> Asleep t | Panic e \<Rightarrow> Panic e | Fault e \<Rightarrow> Fault e)"
  by pat_completeness auto
termination
  by (relation "measure (\<lambda>(test, body, s). length (others s))") auto

declare sleep_loop.simps [simp del]

section \<open>Steps of other threads\<close>

text \<open>What the others see happen when the thread \<open>q\<close> (\<open>None\<close> for an interrupt on an idle CPU)
  runs \<open>m\<close> undisturbed: the entries of a script that stand for code of this kernel.\<close>

definition as_step :: "nat option \<Rightarrow> 'a km \<Rightarrow> shared \<Rightarrow> shared" where
  "as_step q m x =
     (case m (fresh_kst x q []) of
        Ok r t \<Rightarrow> sh t | Asleep t \<Rightarrow> sh t | Panic e \<Rightarrow> x | Fault e \<Rightarrow> x)"

text \<open>A step that leaves the entry of slot \<open>p\<close> and all pids as they are.\<close>

definition keeps_entry :: "nat \<Rightarrow> (shared \<Rightarrow> shared) \<Rightarrow> bool" where
  "keeps_entry p f \<longleftrightarrow> (\<forall>x. map pid (ptable (f x)) = map pid (ptable x) \<and>
     ptable (f x) ! p = ptable x ! p)"

definition two_threads :: shared where
  "two_threads = (zeroed sample_layout)\<lparr>ptable :=
     [zeroed_proc\<lparr>pid := 1, tgid := 1, process := Some 0, pstate := RUNNING, kstack := 0x80400000,
        pgdir := 0x80401000\<rparr>,
      zeroed_proc\<lparr>pid := 2, tgid := 1, process := Some 0, pstate := RUNNING, kstack := 0x80402000,
        pgdir := 0x80401000\<rparr>]\<rparr>"

section \<open>The script runs out\<close>

definition consumes :: "'a km \<Rightarrow> bool" where
  "consumes m \<longleftrightarrow> (\<forall>s x t. m s = Ok x t \<longrightarrow> length (others t) < length (others s))"

definition nonincr :: "'a km \<Rightarrow> bool" where
  "nonincr m \<longleftrightarrow> (\<forall>s x t. m s = Ok x t \<longrightarrow> length (others t) \<le> length (others s))"

named_theorems script_intros \<open>rules of \<open>consumes\<close> and \<open>nonincr\<close>\<close>

lemma nonincr_simple [script_intros]:
  "nonincr (ret x)" "nonincr (panic e)" "nonincr (fault e)" "nonincr (gets f)" "nonincr (getsh g)"
  "nonincr (modsh h)" "nonincr (getp i k)" "nonincr (setp i l)" "nonincr (release lk)"
  "nonincr (initlock lk)" "nonincr (deref p)" "nonincr myproc" "nonincr curproc"
  by (auto simp: nonincr_def kdefs split: option.splits)

lemma nonincr_acquire [script_intros]: "nonincr (acquire lk)"
  by (auto simp: nonincr_def)

lemma nonincr_bnd [script_intros]: "nonincr m \<Longrightarrow> (\<And>x. nonincr (f x)) \<Longrightarrow> nonincr (bnd m f)"
  by (fastforce simp: nonincr_def bnd_eq_Ok intro: order_trans)

lemma nonincr_sq [script_intros]: "nonincr m \<Longrightarrow> nonincr k \<Longrightarrow> nonincr (sq m k)"
  by (simp add: sq_def nonincr_bnd)

lemma nonincr_seqs [script_intros]:
  "nonincr (seqs [])" "nonincr m \<Longrightarrow> nonincr (seqs ms) \<Longrightarrow> nonincr (seqs (m # ms))"
  by (simp_all add: script_intros)

lemma nonincr_whenk [script_intros]: "(b \<Longrightarrow> nonincr m) \<Longrightarrow> nonincr (whenk b m)"
  by (simp add: whenk_def script_intros)

lemma nonincr_if [script_intros]:
  "(b \<Longrightarrow> nonincr m) \<Longrightarrow> (\<not> b \<Longrightarrow> nonincr k) \<Longrightarrow> nonincr (if b then m else k)"
  by simp

lemma nonincr_case_option [script_intros]:
  "(x = None \<Longrightarrow> nonincr m) \<Longrightarrow> (\<And>y. x = Some y \<Longrightarrow> nonincr (f y)) \<Longrightarrow>
   nonincr (case x of None \<Rightarrow> m | Some y \<Rightarrow> f y)"
  by (cases x) simp_all

lemma consumes_nonincr: "consumes m \<Longrightarrow> nonincr m"
  by (auto simp: consumes_def nonincr_def less_imp_le)

lemma consumes_bnd_left [script_intros]:
  "consumes m \<Longrightarrow> (\<And>x. nonincr (f x)) \<Longrightarrow> consumes (bnd m f)"
  by (fastforce simp: consumes_def nonincr_def bnd_eq_Ok intro: le_less_trans)

lemma consumes_bnd_right:
  "nonincr m \<Longrightarrow> (\<And>x. consumes (f x)) \<Longrightarrow> consumes (bnd m f)"
  by (fastforce simp: consumes_def nonincr_def bnd_eq_Ok intro: less_le_trans)

lemma scheduler_run_Ok:
  assumes "scheduler_run p s = Ok u t"
  shows "held t = held s" "others t = others s" "curp t = Some p"
    "sh t = upd_proc p (\<lambda>r. r\<lparr>pstate := RUNNING\<rparr>) (sh s)" "cr3 t = V2P (pgdir (ptable (sh s) ! p))"
    "kstack (ptable (sh s) ! p) \<noteq> 0" "pgdir (ptable (sh s) ! p) \<noteq> 0"
  using assms by (auto simp: kdefs split: if_splits)

lemma scheduler_run_not_Asleep [simp]: "scheduler_run p s \<noteq> Asleep t"
  by (simp add: kdefs)

lemma resched_Ok:
  assumes "resched p fs s = Ok u t"
  shows "held t = held s \<and> curp t = Some p \<and> length (others t) \<le> length fs \<and>
    (length (others t) < length fs \<or> pstate (ptable (sh s) ! p) = RUNNABLE)"
  using assms
proof (induction fs arbitrary: s)
  case Nil
  then show ?case by (auto simp: Let_def scheduler_run_Ok split: if_splits)
next
  case (Cons f fs)
  then show ?case by (fastforce simp: Let_def scheduler_run_Ok split: if_splits)
qed

lemma resched_Asleep:
  assumes "resched p fs s = Asleep t"
  shows "held t = held s \<and> curp t = curp s \<and> others t = [] \<and> pstate (ptable (sh t) ! p) \<noteq> RUNNABLE"
  using assms by (induction fs arbitrary: s) (auto simp: Let_def split: if_splits)

lemma nonincr_sched [script_intros]: "nonincr sched"
proof -
  have "nonincr (swtch p)" for p
    unfolding nonincr_def swtch_def using resched_Ok by blast
  then show ?thesis unfolding sched_def by (intro script_intros)
qed

text \<open>A thread that goes to sleep is only resumed by a step of the script.\<close>

lemma sched_consumes:
  assumes "sched s = Ok u t" and "curp s = Some p" and "pstate (ptable (sh s) ! p) \<noteq> RUNNABLE"
  shows "length (others t) < length (others s)"
  using assms resched_Ok[of p "others s" s]
  by (auto simp: sched_def swtch_def kdefs split: if_splits)

lemma keeps_entry_length: "keeps_entry p f \<Longrightarrow> length (ptable (f x)) = length (ptable x)"
  unfolding keeps_entry_def by (metis length_map)

lemma keeps_entry_nth: "keeps_entry p f \<Longrightarrow> ptable (f x) ! p = ptable x ! p"
  by (simp add: keeps_entry_def)

lemma keeps_entry_scan:
  "keeps_entry p f \<Longrightarrow> scan (\<lambda>r. pid r = pd) (ptable (f x)) = scan (\<lambda>r. pid r = pd) (ptable x)"
  unfolding scan_map[of "\<lambda>n. n = pd" pid, symmetric] by (simp add: keeps_entry_def)

lemma keeps_entry_fold:
  "\<forall>f\<in>set fs. keeps_entry p f \<Longrightarrow> keeps_entry p (fold (\<lambda>f. f) fs)"
  by (induction fs) (simp_all add: keeps_entry_def)

lemma resched_skip:
  assumes "\<forall>f\<in>set gs. keeps_entry p f" and "pstate (ptable (sh s) ! p) \<noteq> RUNNABLE"
  shows "resched p (gs @ f # fs) s = resched p (f # fs) (s\<lparr>sh := fold (\<lambda>f. f) gs (sh s)\<rparr>)"
  using assms
proof (induction gs arbitrary: s)
  case (Cons g gs)
  have "resched p ((g # gs) @ f # fs) s = resched p (gs @ f # fs) (s\<lparr>sh := g (sh s), others := gs @ f # fs\<rparr>)"
    using Cons.prems by (simp add: keeps_entry_def Let_def)
  also have "\<dots> = resched p (f # fs) (s\<lparr>sh := fold (\<lambda>f. f) (g # gs) (sh s), others := gs @ f # fs\<rparr>)"
    using Cons.prems by (subst Cons.IH) (simp_all add: keeps_entry_def)
  finally show ?case by (simp add: Let_def)
qed simp

lemma sleep_loop_unfold:
  assumes "consumes body" and "nonincr test"
  shows "sleep_loop test body =
    bnd test (\<lambda>r. case r of Some v \<Rightarrow> ret v | None \<Rightarrow> sq body (sleep_loop test body))"
proof
  fix s
  show "sleep_loop test body s =
    bnd test (\<lambda>r. case r of Some v \<Rightarrow> ret v | None \<Rightarrow> sq body (sleep_loop test body)) s"
  proof (cases "test s")
    case (Ok r t)
    then have "length (others u) < length (others s)" if "body t = Ok v u" for u v
      using that assms by (fastforce simp: consumes_def nonincr_def)
    then show ?thesis using Ok
      by (subst sleep_loop.simps) (auto simp: kdefs split: option.split res.split)
  qed (subst sleep_loop.simps, simp add: kdefs)+
qed

lemma pres_sleep_loop [pres_intros]:
  assumes test: "pres I J test" and body: "pres I J body" and IJ: "\<And>s. I s \<Longrightarrow> J s"
  shows "pres I J (sleep_loop test body)"
proof -
  have "case sleep_loop test body s of Ok x t \<Rightarrow> I t | Asleep t \<Rightarrow> J t | Panic e \<Rightarrow> True | Fault e \<Rightarrow> True"
    if "I s" for s
    using that
  proof (induction "length (others s)" arbitrary: s rule: less_induct)
    case less
    show ?case
    proof (cases "test s")
      case (Ok r t)
      then have t: "I t" using pres_Ok[OF test less.prems] by blast
      show ?thesis
      proof (cases r)
        case None
        then show ?thesis
        proof (cases "body t")
          case (Ok v u)
          then have "I u" using pres_Ok[OF body t] by blast
          then show ?thesis using None \<open>test s = Ok r t\<close> Ok less.hyps[of u] IJ[of u]
            by (subst sleep_loop.simps) auto
        qed (use Ok None pres_Asleep[OF body t] in \<open>simp_all add: sleep_loop.simps[of test body s]\<close>)
      qed (use Ok t in \<open>simp add: sleep_loop.simps[of test body s]\<close>)
    qed (use pres_Asleep[OF test less.prems] in \<open>simp_all add: sleep_loop.simps[of test body s]\<close>)
  qed
  then show ?thesis by (simp add: pres_def)
qed

lemma bnd_setp_setp: "bnd (setp p f) (\<lambda>_. bnd (setp p g) k) = bnd (setp p (\<lambda>r. g (f r))) k"
proof -
  have "upd_proc p g (upd_proc p f x) = upd_proc p (\<lambda>r. g (f r)) x" for x
    by (cases "p < length (ptable x)") (simp_all add: upd_proc_def list_update_beyond)
  then show ?thesis by (intro ext) (simp add: bnd_def setp_def modsh_def modify_def)
qed

lemma sleep_alt:
  "sleep ch lko = bnd myproc (\<lambda>q. case q of None \<Rightarrow> panic ''sleep''
   | Some p \<Rightarrow> (case lko of None \<Rightarrow> panic ''sleep without lk''
     | Some lk \<Rightarrow> seqs [
         whenk (lk \<noteq> PtableLock) (seqs [acquire PtableLock, release lk]),
         setp p (\<lambda>r. r\<lparr>chan := ch, pstate := SLEEPING\<rparr>),
         sched,
         setp p (\<lambda>r. r\<lparr>chan := 0\<rparr>),
         whenk (lk \<noteq> PtableLock) (seqs [release PtableLock, acquire lk])]))"
proof -
  have "seqs (sleep_body p ch lk) = seqs [
         whenk (lk \<noteq> PtableLock) (seqs [acquire PtableLock, release lk]),
         setp p (\<lambda>r. r\<lparr>chan := ch, pstate := SLEEPING\<rparr>),
         sched,
         setp p (\<lambda>r. r\<lparr>chan := 0\<rparr>),
         whenk (lk \<noteq> PtableLock) (seqs [release PtableLock, acquire lk])]" for p lk
    by (simp add: sleep_body_def whenk_def bnd_assoc bnd_setp_setp)
  then show ?thesis unfolding sleep_def by (simp only:)
qed

lemma sched_sleeping_consumes:
  assumes "sched (t\<lparr>sh := upd_proc p (\<lambda>r. r\<lparr>chan := ch, pstate := SLEEPING\<rparr>) (sh t)\<rparr>) = Ok x u"
    and "curp t = Some p"
  shows "length (others u) < length (others t)"
proof -
  have "p < length (ptable (sh t))"
    using assms by (auto simp: sched_def kdefs split: if_splits)
  then show ?thesis using assms by (fastforce dest!: sched_consumes simp: nth_upd_proc)
qed

lemma consumes_sleep [script_intros]: "consumes (sleep ch lk)"
  unfolding consumes_def
proof (intro allI impI)
  fix s x t
  assume a: "sleep ch lk s = Ok x t"
  then obtain p l where pl: "curp s = Some p" "lk = Some l"
    by (auto simp: sleep_alt kdefs split: option.splits)
  let ?pre = "whenk (l \<noteq> PtableLock) (seqs [acquire PtableLock, release l])"
  let ?post = "whenk (l \<noteq> PtableLock) (seqs [release PtableLock, acquire l])"
  obtain u v where u: "?pre s = Ok () u"
    and v: "sched (u\<lparr>sh := upd_proc p (\<lambda>r. r\<lparr>chan := ch, pstate := SLEEPING\<rparr>) (sh u)\<rparr>) = Ok () v"
    and t: "sq (setp p (\<lambda>r. r\<lparr>chan := 0\<rparr>)) ?post v = Ok () t"
    using a pl by (auto simp: sleep_alt myproc_def gets_def setp_def modsh_def bnd_eq_Ok sq_def ret_def)
  have "curp u = curp s" "length (others u) \<le> length (others s)"
    using u by (auto simp: whenk_def bnd_eq_Ok ret_def split: if_splits)
  moreover have "length (others v) < length (others u)"
    using sched_sleeping_consumes[OF v] \<open>curp u = curp s\<close> pl by simp
  moreover have "nonincr (sq (setp p (\<lambda>r. r\<lparr>chan := 0\<rparr>)) ?post)"
    by (intro script_intros)
  ultimately show "length (others t) < length (others s)"
    using t unfolding nonincr_def by fastforce
qed

lemma sched_Ok:
  assumes "sched s = Ok u t"
  shows "held s = [PtableLock]" "held t = held s" "curp t = curp s" "curp s \<noteq> None"
  using assms resched_Ok[of _ "others s" s]
  by (auto simp: sched_def swtch_def kdefs length_Suc_conv split: if_splits option.splits)

text \<open>Only a thread that holds \<open>lk\<close> and nothing else may sleep; it comes back that way.\<close>

lemma sleep_Ok:
  assumes "sleep ch (Some lk) s = Ok u t" and "lk \<noteq> PtableLock"
  shows "held s = [lk]" "held t = [lk]" "curp t = curp s"
proof -
  obtain p a b where s: "curp s = Some p" "lk \<in> set (held s)" "PtableLock \<notin> set (held s)"
    and a: "sched ((interfere s)\<lparr>held := remove1 lk (PtableLock # held s),
       sh := upd_proc p (\<lambda>r. r\<lparr>chan := ch, pstate := SLEEPING\<rparr>) (sh (interfere s))\<rparr>) = Ok () a"
    and b: "seqs [setp p (\<lambda>r. r\<lparr>chan := 0\<rparr>), release PtableLock, acquire lk] a = Ok () t"
    using assms by (auto simp: sleep_alt kdefs bnd_eq_Ok split: option.splits if_splits res.splits)
  note a' = sched_Ok[OF a]
  have r: "remove1 lk (held s) = []" using a'(1) assms(2) by auto
  then show "held s = [lk]" using s(2) by (cases "held s") (auto split: if_splits)
  then show "held t = [lk]" "curp t = curp s" using a' b assms(2) s(1)
    by (auto simp: kdefs split: if_splits)
qed

section \<open>Invariants across a switch\<close>

text \<open>The changes scheduling makes to a process: its channel, its flags, and its state between
  \<open>SLEEPING\<close>, \<open>RUNNABLE\<close> and \<open>RUNNING\<close>.\<close>

definition live :: "procstate \<Rightarrow> bool" where
  "live st \<longleftrightarrow> st = SLEEPING \<or> st = RUNNABLE \<or> st = RUNNING"

definition core :: "proc \<Rightarrow> proc" where
  "core r = r\<lparr>pstate := UNUSED, chan := 0, killed := False, lostwakeup := 0\<rparr>"

definition sched_eq :: "proc \<Rightarrow> proc \<Rightarrow> bool" where
  "sched_eq r r' \<longleftrightarrow> core r = core r' \<and> (pstate r = pstate r' \<or> live (pstate r) \<and> live (pstate r'))"

lemma sched_eq_refl [simp]: "sched_eq r r"
  by (simp add: sched_eq_def)

lemma sched_eq_update [simp]:
  "sched_eq r (r\<lparr>chan := c\<rparr>)" "sched_eq r (r\<lparr>killed := k\<rparr>)" "sched_eq r (r\<lparr>lostwakeup := w\<rparr>)"
  "live (pstate r) \<Longrightarrow> live st \<Longrightarrow> sched_eq r (r\<lparr>pstate := st\<rparr>)"
  "live (pstate r) \<Longrightarrow> live st \<Longrightarrow> sched_eq r (r\<lparr>pstate := st, chan := c\<rparr>)"
  "live (pstate r) \<Longrightarrow> live st \<Longrightarrow> sched_eq r (r\<lparr>pstate := st, chan := c, lostwakeup := w\<rparr>)"
  "sched_eq r (wake ch r)"
  "sched_eq r (r\<lparr>killed := k, pstate := if pstate r = SLEEPING then RUNNABLE else pstate r\<rparr>)"
  by (simp_all add: sched_eq_def core_def live_def wake_def)

locale sched_stable =
  fixes W :: "shared \<Rightarrow> bool"
  assumes stable: "W x \<Longrightarrow> list_all2 sched_eq (ptable x) ps \<Longrightarrow> W (x\<lparr>ptable := ps\<rparr>)"
begin

lemma W_upd:
  assumes "W x" and "p < length (ptable x) \<Longrightarrow> sched_eq (ptable x ! p) (f (ptable x ! p))"
  shows "W (upd_proc p f x)"
proof -
  have "list_all2 sched_eq (ptable x) ((ptable x)[p := f (ptable x ! p)])"
    using assms(2) by (cases "p < length (ptable x)")
      (auto simp: list_all2_conv_all_nth nth_list_update list_update_beyond)
  then show ?thesis using assms(1) by (simp add: upd_proc_def stable)
qed

lemma thr_at_upd:
  assumes "thr_at W R p s" and "sched_eq (ptable (sh s) ! i) (f (ptable (sh s) ! i))"
  shows "thr_at W R p (s\<lparr>sh := upd_proc i f (sh s)\<rparr>)"
  using assms by (auto simp: thr_at_def intro: W_upd)

lemma scheduler_run_thr:
  assumes "scheduler_run p s = Ok u t" and "pstate (ptable (sh s) ! p) = RUNNABLE"
    and "W (sh s)" "p < length (ptable (sh s))" "\<forall>f\<in>set (others s). R f \<and> env_ok W p f"
  shows "thr W R p t"
  using assms scheduler_run_Ok[OF assms(1)]
  by (auto simp: thr_def thr_at_def nth_upd_proc live_def intro!: W_upd)

lemma resched_thr:
  assumes "W (sh s)" "p < length (ptable (sh s))" "\<forall>f\<in>set fs. R f \<and> env_ok W p f"
  shows "(resched p fs s = Ok u t \<longrightarrow> thr W R p t) \<and> (resched p fs s = Asleep t \<longrightarrow> rest W t)"
  using assms
proof (induction fs arbitrary: s)
  case Nil
  then show ?case by (auto simp: Let_def rest_def intro: scheduler_run_thr)
next
  case (Cons f fs)
  let ?s = "s\<lparr>sh := f (sh s), others := fs\<rparr>"
  have "W (sh ?s)" "p < length (ptable (sh ?s))" using Cons.prems by (auto simp: env_ok_def)
  then show ?case using Cons.prems Cons.IH[of ?s] scheduler_run_thr[of p ?s u t] by (auto simp: Let_def)
qed

lemma trip_sched: "trip (thr_at W R p) sched (\<lambda>_. thr W R p) (rest W)"
proof (rule tripI)
  fix s x t assume "thr_at W R p s" "sched s = Ok x t"
  then show "thr W R p t" using resched_thr[of s p "others s" R x t]
    by (auto simp: sched_def swtch_def kdefs thr_at_def split: if_splits)
next
  fix s t assume "thr_at W R p s" "sched s = Asleep t"
  then show "rest W t" using resched_thr[of s p "others s" R _ t]
    by (auto simp: sched_def swtch_def kdefs thr_at_def split: if_splits)
qed

lemma pres_setp_sched:
  assumes "\<And>r. sched_eq r (f r)" and "\<And>r. pstate r = RUNNING \<Longrightarrow> pstate (f r) = RUNNING"
  shows "pres (thr W R p) J (setp i f)"
  unfolding setp_def using assms by (intro pres_modsh W_upd) (auto simp: nth_upd_proc)

text \<open>The current thread changes its own state, switches away, and comes back.\<close>

lemma pres_switch:
  assumes "\<And>r. pstate r = RUNNING \<Longrightarrow> sched_eq r (f r)" and "pres (thr W R p) (rest W) m"
  shows "pres (thr W R p) (rest W) (bnd (setp p f) (\<lambda>_. bnd sched (\<lambda>_. m)))"
proof -
  have "trip (thr W R p) (setp p f) (\<lambda>_. thr_at W R p) (rest W)"
    using assms(1) by (auto simp: trip_def thr_def kdefs thr_at_def intro!: W_upd)
  then show ?thesis
    unfolding pres_trip by (rule trip_bnd) (rule trip_bnd[OF trip_sched assms(2)[unfolded pres_trip]])
qed

lemma pres_yield [pres_intros]: "pres (thr W R p) (rest W) yield"
  unfolding yield_def seqs.simps bnd_assoc
  by (intro pres_bnd[OF pres_acquire] pres_bnd_curproc pres_switch pres_intros) (simp add: live_def)

lemma pres_sleep [pres_intros]: "pres (thr W R p) (rest W) (sleep ch lk)"
proof (cases lk)
  case None
  then show ?thesis by (simp add: sleep_alt pres_bnd_myproc pres_intros)
next
  case (Some l)
  have "pres (thr W R p) (rest W) (setp p (\<lambda>r. r\<lparr>chan := 0\<rparr>))"
    by (rule pres_setp_sched) simp_all
  then have "pres (thr W R p) (rest W) (seqs [setp p (\<lambda>r. r\<lparr>chan := 0\<rparr>),
      whenk (l \<noteq> PtableLock) (seqs [release PtableLock, acquire l])])"
    by (intro pres_intros)
  then have "pres (thr W R p) (rest W) (bnd (setp p (\<lambda>r. r\<lparr>chan := ch, pstate := SLEEPING\<rparr>)) (\<lambda>_.
      bnd sched (\<lambda>_. seqs [setp p (\<lambda>r. r\<lparr>chan := 0\<rparr>),
        whenk (l \<noteq> PtableLock) (seqs [release PtableLock, acquire l])])))"
    by (intro pres_switch) (simp add: live_def sched_eq_def core_def)
  moreover have "pres (thr W R p) (rest W) (whenk (l \<noteq> PtableLock) (seqs [acquire PtableLock, release l]))"
    by (intro pres_intros)
  ultimately show ?thesis
    by (simp add: Some sleep_alt pres_bnd_myproc pres_bnd)
qed

lemma pres_park [pres_intros]: "pres (thr W R p) (rest W) (park ch)"
proof -
  have s: "pres (thr W R p) (rest W) (setp p (\<lambda>r. r\<lparr>chan := 0\<rparr>))"
     "pres (thr W R p) (rest W) (setp p (\<lambda>r. r\<lparr>lostwakeup := 0\<rparr>))"
    by (rule pres_setp_sched; simp)+
  have "pres (thr W R p) (rest W) (seqs [setp p (\<lambda>r. r\<lparr>chan := 0\<rparr>), release PtableLock])"
    by (intro pres_intros s)
  then have b: "pres (thr W R p) (rest W) (seqs [setp p (\<lambda>r. r\<lparr>chan := ch, lostwakeup := 0, pstate := SLEEPING\<rparr>),
      sched, setp p (\<lambda>r. r\<lparr>chan := 0\<rparr>), release PtableLock])"
    unfolding seqs.simps by (intro pres_switch) (simp add: live_def sched_eq_def core_def)
  show ?thesis unfolding park_def
    by (rule pres_bnd_myproc, unfold option.case) (intro b s pres_intros)
qed

lemma pres_wakeup1 [pres_intros]: "pres (thr W R p) J (wakeup1 ch)"
  unfolding wakeup1_def
proof (rule pres_modsh)
  fix x assume "W x"
  then show "W (x\<lparr>ptable := map (wake ch) (ptable x)\<rparr>)"
    by (rule stable) (simp add: list_all2_conv_all_nth)
qed (simp_all add: wake_def)

lemma pres_wakeup [pres_intros]: "pres (thr W R p) J (wakeup ch)"
  unfolding wakeup_def by (intro pres_intros)

lemma pres_kill [pres_intros]: "pres (thr W R p) J (kill pd)"
  unfolding kill_def by (intro pres_intros pres_setp_sched) simp_all

lemma pres_unpark [pres_intros]: "pres (thr W R p) J (unpark pd ch)"
proof -
  have b: "pres (thr W R p) J (bnd (getp i (\<lambda>p. pstate p = SLEEPING \<and> chan p = ch)) (\<lambda>b.
          if b then sq (setp i (\<lambda>p. p\<lparr>pstate := RUNNABLE, chan := 0\<rparr>)) (sq (release PtableLock) (ret 0))
          else sq (setp i (\<lambda>p. p\<lparr>lostwakeup := ch\<rparr>)) (sq (release PtableLock) (ret 1))))" for i
    by (rule presI)
      (auto simp: thr_def thr_at_def kdefs live_def nth_upd_proc intro!: W_upd split: if_splits)
  show ?thesis unfolding unpark_def by (intro b pres_intros)
qed

end

text \<open>Invariants of the process table alone, which code that does not touch it keeps.\<close>

locale ptable_inv = sched_stable +
  assumes frame: "W x \<Longrightarrow> ptable y = ptable x \<Longrightarrow> nextpid y = nextpid x \<Longrightarrow> initproc y = initproc x \<Longrightarrow> W y"
begin

lemma pres_never [pres_intros]: "pres (thr W R p) (rest W) Asleep"
  by (simp add: pres_def thr_def thr_at_def rest_def)

lemma pres_modsh_frame:
  assumes "\<And>x. ptable (f x) = ptable x" "\<And>x. nextpid (f x) = nextpid x" "\<And>x. initproc (f x) = initproc x"
  shows "pres (thr W R p) J (modsh f)"
  using assms by (intro pres_modsh) (auto intro: frame)

end

section \<open>Properties\<close>

lemma as_step_wakeup: "as_step q (wakeup ch) x = x\<lparr>ptable := map (wake ch) (ptable x)\<rparr>"
  by (simp add: as_step_def wakeup_def kdefs)

lemma as_step_kill:
  "scan (\<lambda>r. pid r = pd) (ptable x) = Some i \<Longrightarrow> as_step q (kill pd) x =
     upd_proc i (\<lambda>p. p\<lparr>killed := True, pstate := if pstate p = SLEEPING then RUNNABLE else pstate p\<rparr>) x"
  by (simp add: as_step_def kill_def kdefs)

lemma as_step_unpark:
  "scan (\<lambda>r. pid r = pd) (ptable x) = Some i \<Longrightarrow> as_step q (unpark pd ch) x =
     upd_proc i (\<lambda>p. if pstate p = SLEEPING \<and> chan p = ch then p\<lparr>pstate := RUNNABLE, chan := 0\<rparr>
       else p\<lparr>lostwakeup := ch\<rparr>) x"
  by (simp add: as_step_def unpark_def kdefs upd_proc_def)

lemma wake_entry [simp]:
  "pid (wake ch p) = pid p" "kstack (wake ch p) = kstack p" "pgdir (wake ch p) = pgdir p"
  "lostwakeup (wake ch p) = lostwakeup p" "chan (wake ch p) = chan p"
  by (simp_all add: wake_def)

lemma scheduler_run_go:
  assumes "kstack (ptable (sh s) ! p) \<noteq> 0" and "pgdir (ptable (sh s) ! p) \<noteq> 0"
  shows "scheduler_run p s = Ok () (s\<lparr>curp := Some p, esp0 := kstack (ptable (sh s) ! p) + KSTACKSIZE,
     cr3 := V2P (pgdir (ptable (sh s) ! p)), sh := upd_proc p (\<lambda>r. r\<lparr>pstate := RUNNING\<rparr>) (sh s)\<rparr>)"
  using assms by (simp add: kdefs)

text \<open>A sleeping thread resumes with the first step that makes it \<open>RUNNABLE\<close>.\<close>

lemma resched_resume:
  assumes "\<forall>f\<in>set gs. keeps_entry p f" and "pstate (ptable (sh s) ! p) \<noteq> RUNNABLE"
    and "x = f (fold (\<lambda>f. f) gs (sh s))"
    and "pstate (ptable x ! p) = RUNNABLE" "kstack (ptable x ! p) \<noteq> 0" "pgdir (ptable x ! p) \<noteq> 0"
  shows "resched p (gs @ f # fs) s = Ok () (s\<lparr>others := fs, curp := Some p,
     esp0 := kstack (ptable x ! p) + KSTACKSIZE, cr3 := V2P (pgdir (ptable x ! p)),
     sh := upd_proc p (\<lambda>r. r\<lparr>pstate := RUNNING\<rparr>) x\<rparr>)"
  using assms by (simp add: resched_skip Let_def scheduler_run_go)

lemma sleep_resume:
  assumes "curp s = Some p" and "held s = [lk]" and "lk \<noteq> PtableLock"
    and "others s = g # gs @ f # h # fs"
    and "p < length (ptable (g (sh s)))" and "\<forall>f\<in>set gs. keeps_entry p f"
    and x: "x = f (fold (\<lambda>f. f) gs (upd_proc p (\<lambda>r. r\<lparr>chan := ch, pstate := SLEEPING\<rparr>) (g (sh s))))"
    and "pstate (ptable x ! p) = RUNNABLE" "kstack (ptable x ! p) \<noteq> 0" "pgdir (ptable x ! p) \<noteq> 0"
  shows "\<exists>t. sleep ch (Some lk) s = Ok () t \<and> held t = [lk] \<and> curp t = Some p \<and> others t = fs \<and>
     sh t = h (upd_proc p (\<lambda>r. r\<lparr>chan := 0\<rparr>) (upd_proc p (\<lambda>r. r\<lparr>pstate := RUNNING\<rparr>) x))"
proof -
  have "resched p (gs @ f # h # fs) u = Ok () (u\<lparr>others := h # fs, curp := Some p,
      esp0 := kstack (ptable x ! p) + KSTACKSIZE, cr3 := V2P (pgdir (ptable x ! p)),
      sh := upd_proc p (\<lambda>r. r\<lparr>pstate := RUNNING\<rparr>) x\<rparr>)"
    if "sh u = upd_proc p (\<lambda>r. r\<lparr>chan := ch, pstate := SLEEPING\<rparr>) (g (sh s))" for u
    using that assms by (intro resched_resume) (simp_all add: nth_upd_proc)
  then show ?thesis
    using assms(1-6) by (simp add: sleep_alt sched_def swtch_def kdefs interfere_def nth_upd_proc)
qed

lemma sleeping_entry:
  assumes "\<forall>f\<in>set gs. keeps_entry p f" and "p < length (ptable y)"
  shows "ptable (fold (\<lambda>f. f) gs (upd_proc p f y)) ! p = f (ptable y ! p)"
    and "length (ptable (fold (\<lambda>f. f) gs (upd_proc p f y))) = length (ptable y)"
    and "map pid (ptable (fold (\<lambda>f. f) gs (upd_proc p f y))) = (map pid (ptable y))[p := pid (f (ptable y ! p))]"
  using assms keeps_entry_fold[OF assms(1)] keeps_entry_length[OF keeps_entry_fold[OF assms(1)]]
  by (simp_all add: keeps_entry_def nth_upd_proc) (simp add: upd_proc_def map_update)

lemma sleeping_scan:
  assumes "\<forall>f\<in>set gs. keeps_entry p f" and "p < length (ptable y)" and "pid (f (ptable y ! p)) = pid (ptable y ! p)"
  shows "scan (\<lambda>r. pid r = pd) (ptable (fold (\<lambda>f. f) gs (upd_proc p f y))) = scan (\<lambda>r. pid r = pd) (ptable y)"
  using sleeping_entry(3)[OF assms(1,2), of f] assms(2,3) unfolding scan_map[of "\<lambda>n. n = pd" pid, symmetric]
  by (simp add: map_update[symmetric])

text \<open>A \<open>wakeup\<close> among the steps of the others ends the sleep: the call returns with \<open>lk\<close> held, the
  thread \<open>RUNNING\<close> and its channel cleared.\<close>

lemma wakeup_ends_sleep:
  assumes "curp s = Some p" and "held s = [lk]" and "lk \<noteq> PtableLock"
    and "others s = g # gs @ as_step q (wakeup ch) # h # fs"
    and "p < length (ptable (g (sh s)))" and "\<forall>f\<in>set gs. keeps_entry p f"
    and "kstack (ptable (g (sh s)) ! p) \<noteq> 0" and "pgdir (ptable (g (sh s)) ! p) \<noteq> 0"
  shows "\<exists>t y. sleep ch (Some lk) s = Ok () t \<and> held t = [lk] \<and> curp t = Some p \<and> others t = fs \<and>
     sh t = h y \<and> ptable y ! p = (ptable (g (sh s)) ! p)\<lparr>chan := 0, pstate := RUNNING\<rparr> \<and>
     (\<forall>i < length (ptable y). \<not> (pstate (ptable y ! i) = SLEEPING \<and> chan (ptable y ! i) = ch))"
proof -
  let ?w = "fold (\<lambda>f. f) gs (upd_proc p (\<lambda>r. r\<lparr>chan := ch, pstate := SLEEPING\<rparr>) (g (sh s)))"
  note e = sleeping_entry[OF assms(6,5)]
  have "\<exists>t. sleep ch (Some lk) s = Ok () t \<and> held t = [lk] \<and> curp t = Some p \<and> others t = fs \<and>
     sh t = h (upd_proc p (\<lambda>r. r\<lparr>chan := 0\<rparr>) (upd_proc p (\<lambda>r. r\<lparr>pstate := RUNNING\<rparr>)
       (as_step q (wakeup ch) ?w)))" (is "\<exists>t. _ \<and> _ \<and> _ \<and> _ \<and> sh t = h ?y")
    using assms(5,7,8) by (intro sleep_resume[OF assms(1-6) refl]) (simp_all add: as_step_wakeup e wake_def)
  moreover have "ptable ?y ! p = (ptable (g (sh s)) ! p)\<lparr>chan := 0, pstate := RUNNING\<rparr>"
    using assms(5) by (simp add: nth_upd_proc as_step_wakeup wake_def e)
  moreover have "\<forall>i < length (ptable ?y). \<not> (pstate (ptable ?y ! i) = SLEEPING \<and> chan (ptable ?y ! i) = ch)"
    by (simp add: nth_upd_proc as_step_wakeup wake_def)
  ultimately show ?thesis by blast
qed

lemma keeps_entry_id [simp]: "keeps_entry p (\<lambda>x. x)"
  by (simp add: keeps_entry_def)

text \<open>C12: \<open>kill(pid)\<close> interrupts a sleep: the sleeping thread with that pid returns from \<open>sleep\<close>
  with its \<open>killed\<close> flag set, \<open>RUNNING\<close> and off the channel, the lock held again, whatever it
  was sleeping on.\<close>

theorem kill_wakes_sleeper:
  assumes "curp s = Some p" and "held s = [lk]" and "lk \<noteq> PtableLock"
    and "others s = g # gs @ as_step q (kill pd) # h # fs"
    and "scan (\<lambda>r. pid r = pd) (ptable (g (sh s))) = Some p" and "\<forall>f\<in>set gs. keeps_entry p f"
    and "kstack (ptable (g (sh s)) ! p) \<noteq> 0" and "pgdir (ptable (g (sh s)) ! p) \<noteq> 0"
  shows "\<exists>t y. sleep ch (Some lk) s = Ok () t \<and> held t = [lk] \<and> curp t = Some p \<and> others t = fs \<and>
     sh t = h y \<and> ptable y ! p = (ptable (g (sh s)) ! p)\<lparr>chan := 0, pstate := RUNNING, killed := True\<rparr>"
proof -
  let ?w = "fold (\<lambda>f. f) gs (upd_proc p (\<lambda>r. r\<lparr>chan := ch, pstate := SLEEPING\<rparr>) (g (sh s)))"
  have l: "p < length (ptable (g (sh s)))" using assms(5) by (rule scan_SomeD)
  note e = sleeping_entry[OF assms(6) l]
  have "scan (\<lambda>r. pid r = pd) (ptable ?w) = Some p"
    using assms(5) by (subst sleeping_scan[OF assms(6) l]) simp_all
  then have k: "as_step q (kill pd) ?w = upd_proc p (\<lambda>p. p\<lparr>killed := True,
      pstate := if pstate p = SLEEPING then RUNNABLE else pstate p\<rparr>) ?w"
    by (rule as_step_kill)
  have "\<exists>t. sleep ch (Some lk) s = Ok () t \<and> held t = [lk] \<and> curp t = Some p \<and> others t = fs \<and>
     sh t = h (upd_proc p (\<lambda>r. r\<lparr>chan := 0\<rparr>) (upd_proc p (\<lambda>r. r\<lparr>pstate := RUNNING\<rparr>)
       (as_step q (kill pd) ?w)))" (is "\<exists>t. _ \<and> _ \<and> _ \<and> _ \<and> sh t = h ?y")
    using assms(7,8) l by (intro sleep_resume[OF assms(1-4) l assms(6) refl]) (simp_all add: k e nth_upd_proc)
  moreover have "ptable ?y ! p = (ptable (g (sh s)) ! p)\<lparr>chan := 0, pstate := RUNNING, killed := True\<rparr>"
    using l by (simp add: k e nth_upd_proc)
  ultimately show ?thesis by blast
qed

text \<open>C11: \<open>park\<close> and \<open>unpark\<close> lose no wakeup in either order.  The \<open>unpark(pid, chan)\<close> of
  another thread may come before the \<open>park(chan)\<close> of the target has taken \<open>ptable.lock\<close> (then
  \<open>lostwakeup\<close> remembers it) or any number of unrelated steps later (then the target sleeps on
  \<open>chan\<close> and is woken): the \<open>park\<close> returns 0 with the lock released and nothing remembered.\<close>

theorem park_unpark_no_lost_wakeup:
  assumes "curp s = Some p" and "held s = []"
    and "others s = gs @ as_step q (unpark pd ch) # fs"
    and "scan (\<lambda>r. pid r = pd) (ptable (sh s)) = Some p" and "\<forall>f\<in>set gs. keeps_entry p f"
    and "pstate (ptable (sh s) ! p) = RUNNING" "lostwakeup (ptable (sh s) ! p) \<noteq> ch"
    and "kstack (ptable (sh s) ! p) \<noteq> 0" and "pgdir (ptable (sh s) ! p) \<noteq> 0"
  shows "\<exists>t. park ch s = Ok 0 t \<and> held t = [] \<and> curp t = Some p \<and> others t = fs \<and>
     pstate (ptable (sh t) ! p) = RUNNING \<and> lostwakeup (ptable (sh t) ! p) = 0"
proof -
  have l: "p < length (ptable (sh s))" using assms(4) by (rule scan_SomeD)
  show ?thesis
  proof (cases gs)
    case Nil
    then show ?thesis using assms l
      by (auto simp: park_def kdefs interfere_def as_step_unpark nth_upd_proc)
  next
    case (Cons g gs')
    let ?x = "upd_proc p (\<lambda>r. r\<lparr>chan := ch, lostwakeup := 0, pstate := SLEEPING\<rparr>) (g (sh s))"
    let ?w = "fold (\<lambda>f. f) gs' ?x"
    have g: "ptable (g (sh s)) ! p = ptable (sh s) ! p" "p < length (ptable (g (sh s)))"
       "scan (\<lambda>r. pid r = pd) (ptable (g (sh s))) = Some p"
      using assms(4,5) Cons l by (simp_all add: keeps_entry_scan[of p] keeps_entry_length[of p] keeps_entry_nth)
    have gs': "\<forall>f\<in>set gs'. keeps_entry p f" using assms(5) Cons by simp
    note e = sleeping_entry[OF gs' g(2)]
    have "scan (\<lambda>r. pid r = pd) (ptable ?w) = Some p"
      using g by (subst sleeping_scan[OF gs']) simp_all
    then have k: "as_step q (unpark pd ch) ?w = upd_proc p (\<lambda>p. if pstate p = SLEEPING \<and> chan p = ch
        then p\<lparr>pstate := RUNNABLE, chan := 0\<rparr> else p\<lparr>lostwakeup := ch\<rparr>) ?w"
      by (rule as_step_unpark)
    have "resched p (gs' @ as_step q (unpark pd ch) # fs) u = Ok () (u\<lparr>others := fs, curp := Some p,
      esp0 := kstack (ptable (sh s) ! p) + KSTACKSIZE, cr3 := V2P (pgdir (ptable (sh s) ! p)),
      sh := upd_proc p (\<lambda>r. r\<lparr>pstate := RUNNING\<rparr>) (as_step q (unpark pd ch) ?w)\<rparr>)"
      if "sh u = ?x" for u
      using that assms g by (subst resched_resume[OF gs' _ refl]) (simp_all add: k e nth_upd_proc)
    then show ?thesis using assms Cons g
      by (simp add: park_def sched_def swtch_def kdefs interfere_def nth_upd_proc k e)
  qed
qed

theorem kill_wakes_sleeper_witness:
  "\<exists>t. sleep 7 (Some TicksLock) (fresh_kst two_threads (Some 0)
       [\<lambda>x. x, as_step (Some 1) (kill 1), \<lambda>x. x]\<lparr>held := [TicksLock]\<rparr>) = Ok () t \<and>
     held t = [TicksLock] \<and> killed (ptable (sh t) ! 0)"
  using kill_wakes_sleeper[of "fresh_kst two_threads (Some 0)
      [\<lambda>x. x, as_step (Some 1) (kill 1), \<lambda>x. x]\<lparr>held := [TicksLock]\<rparr>" 0 TicksLock
      "\<lambda>x. x" "[]" "Some 1" 1 "\<lambda>x. x" "[]" 7]
  by (auto simp: two_threads_def)

theorem park_unpark_no_lost_wakeup_witness:
  "\<exists>t. park 7 (fresh_kst two_threads (Some 0) [\<lambda>x. x, as_step (Some 1) (unpark 1 7)]) = Ok 0 t \<and>
     held t = [] \<and> lostwakeup (ptable (sh t) ! 0) = 0"
  using park_unpark_no_lost_wakeup[of "fresh_kst two_threads (Some 0) [\<lambda>x. x, as_step (Some 1) (unpark 1 7)]"
      0 "[\<lambda>x. x]" "Some 1" 1 7 "[]"]
  by (auto simp: two_threads_def zeroed_proc_def)

end
