(* ===== verification/Sleeplock.thy ===== *)
theory Sleeplock
  imports Sched
begin

text \<open>
  Sleep locks (\<open>sleeplock.c\<close>): a flag and the owner's pid, protected by a spinlock; a thread
  that finds the flag set sleeps on the lock's address.
\<close>

definition set_slock :: "slid \<Rightarrow> sleeplock \<Rightarrow> unit km" where
  [kdefs]: "set_slock l v = modsh (\<lambda>x. x\<lparr>slocks := (slocks x)(l := v)\<rparr>)"

definition initsleeplock :: "slid \<Rightarrow> unit km" where
  "initsleeplock l = seqs [
     initlock (SlLock l),
     set_slock l \<lparr>slocked = False, slpid = 0\<rparr>]"

definition slock_free :: "slid \<Rightarrow> unit option km" where
  "slock_free l = getsh (\<lambda>x. if slocked (slocks x l) then None else Some ())"

definition slock_wait :: "slid \<Rightarrow> unit km" where
  "slock_wait l = bnd (getsh (\<lambda>x. slock_addr (lay x) l)) (\<lambda>c. sleep c (Some (SlLock l)))"

definition acquiresleep :: "slid \<Rightarrow> unit km" where
  "acquiresleep l = seqs [
     acquire (SlLock l),
     sleep_loop (slock_free l) (slock_wait l),
     bnd curproc (\<lambda>p. bnd (getp p pid) (\<lambda>i. set_slock l \<lparr>slocked = True, slpid = i\<rparr>)),
     release (SlLock l)]"

definition releasesleep :: "slid \<Rightarrow> unit km" where
  "releasesleep l = seqs [
     acquire (SlLock l),
     set_slock l \<lparr>slocked = False, slpid = 0\<rparr>,
     bnd (getsh (\<lambda>x. slock_addr (lay x) l)) wakeup,
     release (SlLock l)]"

definition holdingsleep :: "slid \<Rightarrow> bool km" where
  "holdingsleep l = sq (acquire (SlLock l))
     (bnd (getsh (\<lambda>x. slocks x l)) (\<lambda>k. bnd curproc (\<lambda>p. bnd (getp p pid) (\<lambda>i.
       sq (release (SlLock l)) (ret (slocked k \<and> slpid k = i))))))"

section \<open>Waiting\<close>

lemma nonincr_slock_free [script_intros]: "nonincr (slock_free l)"
  unfolding slock_free_def by (intro script_intros)



text \<open>A step keeps a held sleep lock held unless it runs a step of another thread that frees it.\<close>

definition frees :: "slid \<Rightarrow> (shared \<Rightarrow> shared) \<Rightarrow> bool" where
  "frees l f \<longleftrightarrow> (\<exists>x. slocked (slocks x l) \<and> \<not> slocked (slocks (f x) l))"

definition stays :: "slid \<Rightarrow> 'a km \<Rightarrow> bool" where
  "stays l m \<longleftrightarrow> (\<forall>s u t. m s = Ok u t \<longrightarrow> (\<exists>fs. others s = fs @ others t \<and>
     (slocked (slocks (sh s) l) \<longrightarrow> slocked (slocks (sh t) l) \<or> (\<exists>f\<in>set fs. frees l f))))"

named_theorems stays_intros \<open>rules of \<open>stays\<close>\<close>

lemma staysI:
  assumes "\<And>s u t. m s = Ok u t \<Longrightarrow> \<exists>fs. others s = fs @ others t \<and>
     (slocked (slocks (sh s) l) \<longrightarrow> slocked (slocks (sh t) l) \<or> (\<exists>f\<in>set fs. frees l f))"
  shows "stays l m"
  using assms by (simp add: stays_def)

lemma staysD:
  assumes "stays l m" and "m s = Ok u t"
  obtains fs where "others s = fs @ others t"
    "slocked (slocks (sh s) l) \<Longrightarrow> slocked (slocks (sh t) l) \<or> (\<exists>f\<in>set fs. frees l f)"
  using assms unfolding stays_def by blast

lemma stays_same: "(\<And>s u t. m s = Ok u t \<Longrightarrow> others t = others s \<and> slocks (sh t) l = slocks (sh s) l) \<Longrightarrow> stays l m"
  by (rule staysI) (auto intro: exI[of _ "[]"])

lemma stays_simple [stays_intros]:
  "stays l (ret x)" "stays l (panic e)" "stays l (setp i f)" "stays l (release lk)" "stays l myproc" "stays l (getsh g)"
  by (rule stays_same; auto simp: kdefs upd_proc_def split: if_splits)+

lemma stays_acquire [stays_intros]: "stays l (acquire lk)"
proof (rule staysI)
  fix s u t assume a: "acquire lk s = Ok u t"
  show "\<exists>fs. others s = fs @ others t \<and> (slocked (slocks (sh s) l) \<longrightarrow> slocked (slocks (sh t) l) \<or> (\<exists>f\<in>set fs. frees l f))"
  proof (cases "others s")
    case Nil
    then show ?thesis using a by (intro exI[of _ "[]"]) (auto simp: kdefs interfere_def split: if_splits)
  next
    case (Cons f fs)
    have "sh t = f (sh s)" "others t = fs" using a Cons by (auto simp: interfere_def)
    moreover have "slocked (slocks (f (sh s)) l) \<or> frees l f" if "slocked (slocks (sh s) l)"
      using that unfolding frees_def by blast
    ultimately show ?thesis using Cons by (intro exI[of _ "[f]"]) simp
  qed
qed

lemma stays_bnd [stays_intros]:
  assumes "stays l m" and "\<And>x. stays l (f x)"
  shows "stays l (bnd m f)"
proof (rule staysI)
  fix s u t assume "bnd m f s = Ok u t"
  then obtain x v where v: "m s = Ok x v" "f x v = Ok u t" by (auto simp: bnd_eq_Ok)
  obtain fs where fs: "others s = fs @ others v"
      "slocked (slocks (sh s) l) \<Longrightarrow> slocked (slocks (sh v) l) \<or> (\<exists>f\<in>set fs. frees l f)"
    using staysD[OF assms(1) v(1)] by blast
  obtain gs where "others v = gs @ others t"
      "slocked (slocks (sh v) l) \<Longrightarrow> slocked (slocks (sh t) l) \<or> (\<exists>f\<in>set gs. frees l f)"
    using staysD[OF assms(2) v(2)] by blast
  with fs show "\<exists>fs. others s = fs @ others t \<and> (slocked (slocks (sh s) l) \<longrightarrow> slocked (slocks (sh t) l) \<or> (\<exists>f\<in>set fs. frees l f))"
    by (intro exI[of _ "fs @ gs"]) auto
qed

lemma stays_more [stays_intros]:
  "stays l (seqs [])" "stays l m \<Longrightarrow> stays l (seqs ms) \<Longrightarrow> stays l (seqs (m # ms))"
  "stays l m \<Longrightarrow> stays l (whenk b m)"
  by (simp_all add: stays_intros whenk_def)

lemma stays_case_option [stays_intros]:
  "(x = None \<Longrightarrow> stays l m) \<Longrightarrow> (\<And>y. x = Some y \<Longrightarrow> stays l (f y)) \<Longrightarrow> stays l (case x of None \<Rightarrow> m | Some y \<Rightarrow> f y)"
  by (cases x) simp_all

lemma stays_resched:
  assumes "resched p gs s = Ok u t"
  shows "\<exists>fs. gs = fs @ others t \<and> (slocked (slocks (sh s) l) \<longrightarrow> slocked (slocks (sh t) l) \<or> (\<exists>f\<in>set fs. frees l f))"
  using assms
proof (induction gs arbitrary: s)
  case Nil
  then show ?case by (auto simp: Let_def kdefs upd_proc_def split: if_splits)
next
  case (Cons g gs)
  let ?s = "s\<lparr>sh := g (sh s), others := gs\<rparr>"
  have g: "slocked (slocks (g (sh s)) l) \<or> frees l g" if "slocked (slocks (sh s) l)" using that by (auto simp: frees_def)
  show ?case
  proof (cases "pstate (ptable (sh ?s) ! p) = RUNNABLE")
    case True
    then have "scheduler_run p ?s = Ok u t" using Cons.prems by (simp add: Let_def)
    then have "others t = gs" "slocks (sh t) = slocks (g (sh s))"
      using scheduler_run_Ok[of p ?s u t] by (simp_all add: upd_proc_def)
    then show ?thesis using g by (intro exI[of _ "[g]"]) auto
  next
    case False
    then obtain fs where "gs = fs @ others t"
        "slocked (slocks (sh ?s) l) \<longrightarrow> slocked (slocks (sh t) l) \<or> (\<exists>f\<in>set fs. frees l f)"
      using Cons.IH[of ?s] Cons.prems by (auto simp: Let_def)
    then show ?thesis using g by (intro exI[of _ "g # fs"]) auto
  qed
qed

lemma stays_sched [stays_intros]: "stays l sched"
proof (rule staysI)
  fix s u t assume a: "sched s = Ok u t"
  then obtain p where "resched p (others s) s = Ok u t"
    by (auto simp: sched_def swtch_def kdefs split: if_splits option.splits)
  then show "\<exists>fs. others s = fs @ others t \<and> (slocked (slocks (sh s) l) \<longrightarrow> slocked (slocks (sh t) l) \<or> (\<exists>f\<in>set fs. frees l f))"
    by (rule stays_resched)
qed



context ptable_inv
begin

lemma pres_set_slock [pres_intros]: "pres (thr W R p) (rest W) (set_slock l v)"
  unfolding set_slock_def by (intro pres_modsh_frame) simp_all

lemma pres_acquiresleep [pres_intros]: "pres (thr W R p) (rest W) (acquiresleep l)"
  unfolding acquiresleep_def slock_free_def slock_wait_def
  by (intro pres_intros) (simp add: thr_def thr_at_def rest_def)

lemma pres_releasesleep [pres_intros]: "pres (thr W R p) (rest W) (releasesleep l)"
  unfolding releasesleep_def by (intro pres_intros)

lemma pres_holdingsleep [pres_intros]: "pres (thr W R p) (rest W) (holdingsleep l)"
  unfolding holdingsleep_def by (intro pres_intros)

end

section \<open>Properties\<close>





end
