(* ===== verification/Bio.thy ===== *)
theory Bio
  imports Sleeplock
begin

text \<open>
  The buffer cache (\<open>bio.c\<close>, \<open>buf.h\<close>) over the memory disk (\<open>memide.c\<close>, the \<open>kernelmemfs\<close>
  build).  A buffer is an index below \<open>NBUF\<close>; the list in order of use is threaded through
  \<open>bc_next\<close> and \<open>bc_prev\<close>, with \<open>NBUF\<close> the index of the list head \<open>bcache.head\<close>.
\<close>

section \<open>Buffers\<close>

definition BSIZE :: nat where [simp]: "BSIZE = 512"

definition getb :: "nat \<Rightarrow> (buf \<Rightarrow> 'a) \<Rightarrow> 'a km" where
  [kdefs]: "getb b f = getsh (\<lambda>x. f (bcache x ! b))"

definition upd_buf :: "nat \<Rightarrow> (buf \<Rightarrow> buf) \<Rightarrow> shared \<Rightarrow> shared" where
  "upd_buf b f x = x\<lparr>bcache := (bcache x)[b := f (bcache x ! b)]\<rparr>"

definition setb :: "nat \<Rightarrow> (buf \<Rightarrow> buf) \<Rightarrow> unit km" where
  [kdefs]: "setb b f = modsh (upd_buf b f)"

section \<open>The memory disk\<close>

definition disk_write :: "nat \<Rightarrow> u8 list \<Rightarrow> shared \<Rightarrow> shared" where
  "disk_write n d x = x\<lparr>disk := (disk x)(n := d), dwrites := dwrites x @ [(n, d)]\<rparr>"

text \<open>\<open>memide.c\<close>, the disk in memory that the image \<open>kernelmemfs\<close> links; the default kernel links
  \<open>ide.c\<close>, with the same interface.\<close>

definition iderw :: "nat \<Rightarrow> unit km" where
  "iderw b = bnd (holdingsleep (BufLock b)) (\<lambda>h. bnd (getb b id) (\<lambda>r. bnd (getsh disksize) (\<lambda>n.
     if \<not> h then panic ''iderw: buf not locked''
     else if b_valid r \<and> \<not> b_dirty r then panic ''iderw: nothing to do''
     else if bdev r \<noteq> 1 then panic ''iderw: request not for disk 1''
     else if unat (blockno r) \<ge> n then panic ''iderw: block out of range''
     else if b_dirty r then seqs [
       setb b (\<lambda>r. r\<lparr>b_dirty := False\<rparr>),
       modsh (\<lambda>x. disk_write (unat (blockno r)) (bdata r) x),
       setb b (\<lambda>r. r\<lparr>b_valid := True\<rparr>)]
     else seqs [
       bnd (getsh (\<lambda>x. disk x (unat (blockno r)))) (\<lambda>d. setb b (\<lambda>r. r\<lparr>bdata := d\<rparr>)),
       setb b (\<lambda>r. r\<lparr>b_valid := True\<rparr>)])))"

text \<open>The image the loader puts in memory, and its size in bytes, are arguments.\<close>

definition ideinit :: "(nat \<Rightarrow> u8 list) \<Rightarrow> nat \<Rightarrow> unit km" where
  "ideinit img n = modsh (\<lambda>x. x\<lparr>disk := img, disksize := n div BSIZE\<rparr>)"

section \<open>The cache\<close>

definition link_front :: "nat \<Rightarrow> shared \<Rightarrow> shared" where
  "link_front b x =
     (let x1 = x\<lparr>bc_next := (bc_next x)(b := bc_next x NBUF)\<rparr>;
          x2 = x1\<lparr>bc_prev := (bc_prev x1)(b := NBUF)\<rparr>;
          x3 = x2\<lparr>bc_prev := (bc_prev x2)(bc_next x2 NBUF := b)\<rparr>
      in x3\<lparr>bc_next := (bc_next x3)(NBUF := b)\<rparr>)"

definition unlink :: "nat \<Rightarrow> shared \<Rightarrow> shared" where
  "unlink b x =
     (let x1 = x\<lparr>bc_prev := (bc_prev x)(bc_next x b := bc_prev x b)\<rparr>
      in x1\<lparr>bc_next := (bc_next x1)(bc_prev x1 b := bc_next x1 b)\<rparr>)"

definition binit :: "unit km" where
  "binit = seqs [
     initlock BcacheLock,
     modsh (\<lambda>x. x\<lparr>bc_prev := (bc_prev x)(NBUF := NBUF), bc_next := (bc_next x)(NBUF := NBUF)\<rparr>),
     seqs (map (\<lambda>b. sq (initsleeplock (BufLock b)) (modsh (link_front b))) [0..<NBUF])]"

text \<open>Following the links until \<open>P\<close> holds or the list head is reached; \<open>None\<close> when the list has
  more than the given number of entries, which a list of \<open>NBUF\<close> buffers has not.\<close>

fun find_buf :: "nat \<Rightarrow> (nat \<Rightarrow> nat) \<Rightarrow> (nat \<Rightarrow> bool) \<Rightarrow> nat \<Rightarrow> nat option option" where
  "find_buf 0 link P b = None"
| "find_buf (Suc n) link P b =
     (if b = NBUF then Some None else if P b then Some (Some b) else find_buf n link P (link b))"

declare find_buf.simps [simp del]

definition find_cached :: "u32 \<Rightarrow> u32 \<Rightarrow> shared \<Rightarrow> nat option option" where
  "find_cached dev n x = find_buf (Suc NBUF) (bc_next x)
     (\<lambda>b. bdev (bcache x ! b) = dev \<and> blockno (bcache x ! b) = n) (bc_next x NBUF)"

definition find_unused :: "shared \<Rightarrow> nat option option" where
  "find_unused x = find_buf (Suc NBUF) (bc_prev x)
     (\<lambda>b. refcnt (bcache x ! b) = 0 \<and> \<not> b_dirty (bcache x ! b)) (bc_prev x NBUF)"

definition bget :: "u32 \<Rightarrow> u32 \<Rightarrow> nat km" where
  "bget dev n = sq (acquire BcacheLock) (bnd (getsh (find_cached dev n)) (\<lambda>c. case c of
     None \<Rightarrow> Asleep
   | Some (Some b) \<Rightarrow>
       sq (seqs [setb b (\<lambda>r. r\<lparr>refcnt := refcnt r + 1\<rparr>),
                 release BcacheLock,
                 acquiresleep (BufLock b)]) (ret b)
   | Some None \<Rightarrow> bnd (getsh find_unused) (\<lambda>u. case u of
       None \<Rightarrow> Asleep
     | Some None \<Rightarrow> panic ''bget: no buffers''
     | Some (Some b) \<Rightarrow>
         sq (seqs [setb b (\<lambda>r. r\<lparr>bdev := dev, blockno := n, b_valid := False, b_dirty := False, refcnt := 1\<rparr>),
                   release BcacheLock,
                   acquiresleep (BufLock b)]) (ret b))))"

definition bread :: "u32 \<Rightarrow> u32 \<Rightarrow> nat km" where
  "bread dev n = bnd (bget dev n) (\<lambda>b. bnd (getb b b_valid) (\<lambda>v.
     sq (whenk (\<not> v) (iderw b)) (ret b)))"

definition bwrite :: "nat \<Rightarrow> unit km" where
  "bwrite b = bnd (holdingsleep (BufLock b)) (\<lambda>h.
     if \<not> h then panic ''bwrite''
     else seqs [setb b (\<lambda>r. r\<lparr>b_dirty := True\<rparr>), iderw b])"

definition brelse :: "nat \<Rightarrow> unit km" where
  "brelse b = bnd (holdingsleep (BufLock b)) (\<lambda>h.
     if \<not> h then panic ''brelse''
     else seqs [
       releasesleep (BufLock b),
       acquire BcacheLock,
       setb b (\<lambda>r. r\<lparr>refcnt := refcnt r - 1\<rparr>),
       bnd (getb b refcnt) (\<lambda>n. whenk (n = 0) (modsh (\<lambda>x. link_front b (unlink b x)))),
       release BcacheLock])"

section \<open>The list of buffers in order of use\<close>

fun chain :: "(nat \<Rightarrow> nat) \<Rightarrow> nat \<Rightarrow> nat list \<Rightarrow> nat \<Rightarrow> bool" where
  "chain nx a [] c = (nx a = c)"
| "chain nx a (b # bs) c = (nx a = b \<and> chain nx b bs c)"

definition blist :: "shared \<Rightarrow> nat list \<Rightarrow> bool" where
  "blist x bs \<longleftrightarrow> chain (bc_next x) NBUF bs NBUF \<and> chain (bc_prev x) NBUF (rev bs) NBUF \<and> distinct (NBUF # bs)"

lemma chain_append: "chain nx a (xs @ y # ys) c \<longleftrightarrow> chain nx a xs y \<and> chain nx y ys c"
  by (induction xs arbitrary: a) auto

lemma chain_upd: "l \<notin> set (a # xs) \<Longrightarrow> chain (nx(l := v)) a xs c = chain nx a xs c"
  by (induction xs arbitrary: a) auto

lemma chain_skip:
  assumes "chain nx a (ps @ b # qs) c" and "distinct (a # ps @ b # qs)" and "l = last (a # ps)"
  shows "chain (nx(l := nx b)) a (ps @ qs) c"
  using assms
proof (induction ps arbitrary: a)
  case Nil
  then show ?case by (cases qs) (simp_all add: chain_upd fun_upd_same fun_upd_other del: fun_upd_apply)
next
  case (Cons p ps)
  then have l: "l = last (p # ps)" by simp
  have "chain (nx(l := nx b)) p (ps @ qs) c" using Cons.prems(1,2) by (intro Cons.IH l) auto
  moreover have "l \<noteq> a" using Cons.prems(2) last_in_set[of "p # ps"] l by auto
  ultimately show ?case using Cons.prems(1) by (simp del: fun_upd_apply) (simp add: fun_upd_def)
qed

lemma chain_front:
  assumes "chain nx a xs c" and "distinct (a # b # xs)"
  shows "chain (nx(b := nx a, a := b)) a (b # xs) c"
  using assms by (cases xs) (simp_all add: chain_upd fun_upd_same fun_upd_other del: fun_upd_apply)

lemma chain_snoc:
  assumes "chain nx a xs c" and "distinct (b # a # xs)" and "l = last (a # xs)"
  shows "chain (nx(b := c, l := b)) a (xs @ [b]) c"
  using assms
proof (induction xs arbitrary: a)
  case (Cons x xs)
  then have l: "l = last (x # xs)" by simp
  have "chain (nx(b := c, l := b)) x (xs @ [b]) c" using Cons.prems(1,2) by (intro Cons.IH l) auto
  moreover have "l \<noteq> a" using Cons.prems(2) last_in_set[of "x # xs"] l by auto
  ultimately show ?case using Cons.prems(1,2) by (simp add: fun_upd_def)
qed auto

lemma chain_prev: "chain nx a (xs @ b # ys) c \<Longrightarrow> nx b = hd (ys @ [c])"
  by (cases ys) (auto simp: chain_append)

lemma blist_next:
  assumes "blist x (ps @ b # qs)"
  shows "bc_next x b = hd (qs @ [NBUF])" "bc_prev x b = hd (rev ps @ [NBUF])" "bc_next x b \<noteq> b"
proof -
  show n: "bc_next x b = hd (qs @ [NBUF])" "bc_prev x b = hd (rev ps @ [NBUF])"
    using assms chain_prev[of "bc_next x" NBUF ps b qs NBUF] chain_prev[of "bc_prev x" NBUF "rev qs" b "rev ps" NBUF]
    by (simp_all add: blist_def)
  show "bc_next x b \<noteq> b" using assms n(1) by (cases qs) (auto simp: blist_def)
qed

lemma last_rev_hd: "last (a # rev xs) = hd (xs @ [a])" "last (a # xs) = hd (rev xs @ [a])"
  by (cases xs) (simp_all add: hd_append hd_rev)

lemma blist_unlink:
  assumes "blist x (ps @ b # qs)"
  shows "blist (unlink b x) (ps @ qs)"
proof -
  note n = blist_next[OF assms]
  have e: "bc_next (unlink b x) = (bc_next x)(bc_prev x b := bc_next x b)"
    "bc_prev (unlink b x) = (bc_prev x)(bc_next x b := bc_prev x b)"
    using n(3) by (simp_all add: unlink_def Let_def)
  have "chain ((bc_next x)(bc_prev x b := bc_next x b)) NBUF (ps @ qs) NBUF"
    using assms by (intro chain_skip) (simp_all only: blist_def n(2) last_rev_hd)
  moreover have "chain ((bc_prev x)(bc_next x b := bc_prev x b)) NBUF (rev qs @ rev ps) NBUF"
    using assms by (intro chain_skip) (auto simp: blist_def n(1) last_rev_hd simp del: last.simps)
  moreover have "distinct (NBUF # ps @ qs)" using assms by (simp add: blist_def)
  ultimately show ?thesis unfolding blist_def e rev_append by blast
qed

lemma blist_front:
  assumes "blist x bs" and "b \<noteq> NBUF" and "b \<notin> set bs"
  shows "blist (link_front b x) (b # bs)"
proof -
  have h: "bc_next x NBUF = last (NBUF # rev bs)" "bc_next x NBUF \<noteq> b"
    using assms by (cases bs; auto simp: blist_def)+
  have e: "bc_next (link_front b x) = (bc_next x)(b := bc_next x NBUF, NBUF := b)"
    "bc_prev (link_front b x) = (bc_prev x)(b := NBUF, bc_next x NBUF := b)"
    using assms(2) by (simp_all add: link_front_def Let_def)
  have "chain ((bc_next x)(b := bc_next x NBUF, NBUF := b)) NBUF (b # bs) NBUF"
    using assms by (intro chain_front) (auto simp: blist_def)
  moreover have "chain ((bc_prev x)(b := NBUF, bc_next x NBUF := b)) NBUF (rev bs @ [b]) NBUF"
    using assms by (intro chain_snoc h(1)) (auto simp: blist_def)
  moreover have "distinct (NBUF # b # bs)" using assms by (auto simp: blist_def)
  ultimately show ?thesis unfolding blist_def e rev.simps by blast
qed

lemma find_buf_path:
  assumes "chain nx a bs NBUF" and "NBUF \<notin> set bs" and "length bs < n"
  shows "find_buf n nx P (nx a) = Some (List.find P bs)"
  using assms
proof (induction bs arbitrary: a n)
  case Nil
  then show ?case by (cases n) (auto simp: find_buf.simps)
next
  case (Cons b bs)
  then show ?case by (cases n) (auto simp: find_buf.simps)
qed

lemma find_cached_blist:
  assumes "blist x bs" "length bs \<le> NBUF"
  shows "find_cached dev n x = Some (List.find (\<lambda>b. bdev (bcache x ! b) = dev \<and> blockno (bcache x ! b) = n) bs)"
  unfolding find_cached_def using assms by (intro find_buf_path) (simp_all only: blist_def distinct.simps less_Suc_eq_le not_False_eq_True)

lemma find_unused_blist:
  assumes "blist x bs" "length bs \<le> NBUF"
  shows "find_unused x = Some (List.find (\<lambda>b. refcnt (bcache x ! b) = 0 \<and> \<not> b_dirty (bcache x ! b)) (rev bs))"
  unfolding find_unused_def using assms
  by (intro find_buf_path) (simp_all only: blist_def distinct.simps less_Suc_eq_le not_False_eq_True set_rev length_rev)

section \<open>The cache does not touch the process table\<close>

lemma table_same [simp]:
  "ptable (upd_buf b f x) = ptable x" "nextpid (upd_buf b f x) = nextpid x" "initproc (upd_buf b f x) = initproc x"
  "ptable (disk_write n d x) = ptable x" "nextpid (disk_write n d x) = nextpid x" "initproc (disk_write n d x) = initproc x"
  "ptable (link_front b x) = ptable x" "nextpid (link_front b x) = nextpid x" "initproc (link_front b x) = initproc x"
  "ptable (unlink b x) = ptable x" "nextpid (unlink b x) = nextpid x" "initproc (unlink b x) = initproc x"
  by (simp_all add: upd_buf_def disk_write_def link_front_def unlink_def Let_def)

context ptable_inv
begin

lemma pres_getb [pres_intros]: "pres (thr W R p) (rest W) (getb b f)"
  unfolding getb_def by (intro pres_intros)

lemma pres_setb [pres_intros]: "pres (thr W R p) (rest W) (setb b f)"
  unfolding setb_def by (intro pres_modsh_frame) simp_all

lemma pres_iderw [pres_intros]: "pres (thr W R p) (rest W) (iderw b)"
  unfolding iderw_def by (intro pres_intros pres_modsh_frame) simp_all

lemma pres_bget [pres_intros]: "pres (thr W R p) (rest W) (bget dev n)"
  unfolding bget_def by (intro pres_intros)

lemma pres_bread [pres_intros]: "pres (thr W R p) (rest W) (bread dev n)"
  unfolding bread_def by (intro pres_intros)

lemma pres_bwrite [pres_intros]: "pres (thr W R p) (rest W) (bwrite b)"
  unfolding bwrite_def by (intro pres_intros)

lemma pres_brelse [pres_intros]: "pres (thr W R p) (rest W) (brelse b)"
  unfolding brelse_def by (intro pres_intros pres_modsh_frame) simp_all

end

end
