(* ===== verification/Log.thy ===== *)
theory Log
  imports Bio
begin

text \<open>
  The write-ahead log (\<open>log.c\<close>) and \<open>readsb\<close> of \<open>fs.c\<close>, which it needs.  The header block on
  disk is the byte image of \<open>struct logheader\<close>: the count, then the block numbers.
\<close>

section \<open>Words in a block\<close>

definition get32 :: "u8 list \<Rightarrow> nat \<Rightarrow> u32" where
  "get32 d off = join32 (take 4 (drop off d))"

definition put32 :: "u8 list \<Rightarrow> nat \<Rightarrow> u32 \<Rightarrow> u8 list" where
  "put32 d off w = take off d @ split32 w @ drop (off + 4) d"

section \<open>The superblock\<close>

definition sb_of :: "u8 list \<Rightarrow> superblock" where
  "sb_of d = \<lparr>sb_size = get32 d 0, sb_nblocks = get32 d 4, sb_ninodes = get32 d 8, sb_nlog = get32 d 12,
     sb_logstart = get32 d 16, sb_inodestart = get32 d 20, sb_bmapstart = get32 d 24\<rparr>"

definition readsb :: "u32 \<Rightarrow> superblock km" where
  "readsb dev = bnd (bread dev 1) (\<lambda>bp. bnd (getb bp bdata) (\<lambda>d.
     sq (brelse bp) (ret (sb_of d))))"

section \<open>Moving blocks between the log and their home\<close>

definition getlog :: "(klog \<Rightarrow> 'a) \<Rightarrow> 'a km" where
  [kdefs]: "getlog f = getsh (\<lambda>x. f (klog x))"

definition setlog :: "(klog \<Rightarrow> klog) \<Rightarrow> unit km" where
  [kdefs]: "setlog f = modsh (\<lambda>x. x\<lparr>klog := f (klog x)\<rparr>)"

definition install_block :: "nat \<Rightarrow> unit km" where
  "install_block tail = bnd (getlog id) (\<lambda>l.
     bnd (bread (log_dev l) (log_start l + of_nat tail + 1)) (\<lambda>lbuf.
     bnd (bread (log_dev l) (lh_block l ! tail)) (\<lambda>dbuf. seqs [
       bnd (getb lbuf bdata) (\<lambda>d. setb dbuf (\<lambda>r. r\<lparr>bdata := d\<rparr>)),
       bwrite dbuf,
       brelse lbuf,
       brelse dbuf])))"

definition copy_to_log :: "nat \<Rightarrow> unit km" where
  "copy_to_log tail = bnd (getlog id) (\<lambda>l.
     bnd (bread (log_dev l) (log_start l + of_nat tail + 1)) (\<lambda>to.
     bnd (bread (log_dev l) (lh_block l ! tail)) (\<lambda>from. seqs [
       bnd (getb from bdata) (\<lambda>d. setb to (\<lambda>r. r\<lparr>bdata := d\<rparr>)),
       bwrite to,
       brelse from,
       brelse to])))"

text \<open>\<open>for(tail = 0; tail < log.lh.n; tail++)\<close>; an entry past the array has no defined value.\<close>

function log_loop :: "(nat \<Rightarrow> unit km) \<Rightarrow> nat \<Rightarrow> unit km" where
  "log_loop body tail = bnd (getlog lh_n) (\<lambda>n.
     if int tail < n then
       (if tail < LOGSIZE then sq (body tail) (log_loop body (tail + 1)) else fault ''array index'')
     else ret ())"
  by pat_completeness auto
termination
  by (relation "measure (\<lambda>(body, tail). LOGSIZE - tail)") auto

declare log_loop.simps [simp del]

definition install_trans :: "unit km" where
  "install_trans = log_loop install_block 0"

definition write_log :: "unit km" where
  "write_log = log_loop copy_to_log 0"

section \<open>The header\<close>

definition read_head :: "unit km" where
  "read_head = bnd (getlog id) (\<lambda>l. bnd (bread (log_dev l) (log_start l)) (\<lambda>b. bnd (getb b bdata) (\<lambda>d. seqs [
     setlog (\<lambda>l. l\<lparr>lh_n := sint (get32 d 0)\<rparr>),
     log_loop (\<lambda>i. setlog (\<lambda>l. l\<lparr>lh_block := (lh_block l)[i := get32 d (4 + 4 * i)]\<rparr>)) 0,
     brelse b])))"

definition write_head :: "unit km" where
  "write_head = bnd (getlog id) (\<lambda>l. bnd (bread (log_dev l) (log_start l)) (\<lambda>b. seqs [
     bnd (getlog lh_n) (\<lambda>n. setb b (\<lambda>r. r\<lparr>bdata := put32 (bdata r) 0 (of_int n)\<rparr>)),
     log_loop (\<lambda>i. bnd (getlog (\<lambda>l. lh_block l ! i)) (\<lambda>w.
       setb b (\<lambda>r. r\<lparr>bdata := put32 (bdata r) (4 + 4 * i) w\<rparr>))) 0,
     bwrite b,
     brelse b]))"

definition recover_from_log :: "unit km" where
  "recover_from_log = seqs [
     read_head,
     install_trans,
     setlog (\<lambda>l. l\<lparr>lh_n := 0\<rparr>),
     write_head]"

text \<open>A \<open>struct logheader\<close> has \<open>4 + 4 * LOGSIZE\<close> bytes.\<close>

definition initlog :: "u32 \<Rightarrow> unit km" where
  "initlog dev =
     (if 4 + 4 * LOGSIZE \<ge> BSIZE then panic ''initlog: too big logheader''
      else seqs [
        initlock LogLock,
        bnd (readsb dev) (\<lambda>s. setlog (\<lambda>l. l\<lparr>log_start := sb_logstart s, log_size := sb_nlog s, log_dev := dev\<rparr>)),
        recover_from_log])"

section \<open>Transactions\<close>

definition log_room :: "unit option km" where
  "log_room = getlog (\<lambda>l.
     if committing l then None
     else if lh_n l + (outstanding l + 1) * int MAXOPBLOCKS > int LOGSIZE then None
     else Some ())"

definition log_wait :: "unit km" where
  "log_wait = bnd (getsh (\<lambda>x. log_addr (lay x))) (\<lambda>c. sleep c (Some LogLock))"

definition begin_op :: "unit km" where
  "begin_op = seqs [
     acquire LogLock,
     sleep_loop log_room log_wait,
     setlog (\<lambda>l. l\<lparr>outstanding := outstanding l + 1\<rparr>),
     release LogLock]"

definition wakeup_log :: "unit km" where
  "wakeup_log = bnd (getsh (\<lambda>x. log_addr (lay x))) wakeup"

definition commit :: "unit km" where
  "commit = bnd (getlog lh_n) (\<lambda>n. whenk (n > 0) (seqs [
     write_log,
     write_head,
     install_trans,
     setlog (\<lambda>l. l\<lparr>lh_n := 0\<rparr>),
     write_head]))"

definition end_op :: "unit km" where
  "end_op = seqs [
     acquire LogLock,
     setlog (\<lambda>l. l\<lparr>outstanding := outstanding l - 1\<rparr>),
     bnd (getlog committing) (\<lambda>c. if c then panic ''log.committing'' else ret ()),
     bnd (getlog outstanding) (\<lambda>n.
       if n = 0 then seqs [
         setlog (\<lambda>l. l\<lparr>committing := True\<rparr>),
         release LogLock,
         commit,
         acquire LogLock,
         setlog (\<lambda>l. l\<lparr>committing := False\<rparr>),
         wakeup_log,
         release LogLock]
       else seqs [wakeup_log, release LogLock])]"

definition log_record :: "u32 \<Rightarrow> klog \<Rightarrow> klog" where
  "log_record n l = (case scan (\<lambda>w. w = n) (take (nat (lh_n l)) (lh_block l)) of
     Some i \<Rightarrow> l\<lparr>lh_block := (lh_block l)[i := n]\<rparr>
   | None \<Rightarrow> l\<lparr>lh_block := (lh_block l)[nat (lh_n l) := n], lh_n := lh_n l + 1\<rparr>)"

definition log_write :: "nat \<Rightarrow> unit km" where
  "log_write b = bnd (getlog id) (\<lambda>l.
     if lh_n l \<ge> int LOGSIZE \<or> lh_n l \<ge> sint (log_size l) - 1 then panic ''too big a transaction''
     else if outstanding l < 1 then panic ''log_write outside of trans''
     else seqs [
       acquire LogLock,
       bnd (getb b blockno) (\<lambda>n. bnd (getlog lh_n) (\<lambda>k.
         if k < 0 \<or> k \<ge> int LOGSIZE then fault ''array index'' else setlog (log_record n))),
       setb b (\<lambda>r. r\<lparr>b_dirty := True\<rparr>),
       release LogLock])"

section \<open>Bookkeeping\<close>

lemma nonincr_log_room [script_intros]: "nonincr log_room"
  unfolding log_room_def getlog_def by (intro script_intros)

lemma consumes_log_wait [script_intros]: "consumes log_wait"
  unfolding log_wait_def by (intro consumes_bnd_right script_intros)

context ptable_inv
begin

lemma pres_getlog [pres_intros]: "pres (thr W R p) (rest W) (getlog f)"
  unfolding getlog_def by (intro pres_intros)

lemma pres_setlog [pres_intros]: "pres (thr W R p) (rest W) (setlog f)"
  unfolding setlog_def by (intro pres_modsh_frame) simp_all

lemma pres_readsb [pres_intros]: "pres (thr W R p) (rest W) (readsb dev)"
  unfolding readsb_def by (intro pres_intros)

lemma pres_log_loop [pres_intros]:
  assumes "\<And>i. pres (thr W R p) (rest W) (body i)"
  shows "pres (thr W R p) (rest W) (log_loop body tail)"
proof (induction "LOGSIZE - tail" arbitrary: tail rule: less_induct)
  case less
  have "tail < LOGSIZE \<Longrightarrow> pres (thr W R p) (rest W) (log_loop body (tail + 1))"
    by (rule less) auto
  then show ?case by (subst log_loop.simps) (intro pres_intros assms)
qed

lemma pres_install_trans [pres_intros]: "pres (thr W R p) (rest W) install_trans"
  unfolding install_trans_def install_block_def by (intro pres_intros)

lemma pres_write_log [pres_intros]: "pres (thr W R p) (rest W) write_log"
  unfolding write_log_def copy_to_log_def by (intro pres_intros)

lemma pres_head [pres_intros]: "pres (thr W R p) (rest W) read_head" "pres (thr W R p) (rest W) write_head"
  unfolding read_head_def write_head_def by (intro pres_intros)+

lemma pres_recover_from_log [pres_intros]: "pres (thr W R p) (rest W) recover_from_log"
  unfolding recover_from_log_def by (intro pres_intros)

lemma pres_initlog [pres_intros]: "pres (thr W R p) (rest W) (initlog dev)"
  unfolding initlog_def by (intro pres_intros)

lemma pres_wakeup_log [pres_intros]: "pres (thr W R p) (rest W) wakeup_log"
  unfolding wakeup_log_def by (intro pres_intros)

lemma pres_begin_op [pres_intros]: "pres (thr W R p) (rest W) begin_op"
  unfolding begin_op_def log_room_def log_wait_def
  by (intro pres_intros) (simp add: thr_def thr_at_def rest_def)

lemma pres_end_op [pres_intros]: "pres (thr W R p) (rest W) end_op"
  unfolding end_op_def commit_def by (intro pres_intros)

lemma pres_log_write [pres_intros]: "pres (thr W R p) (rest W) (log_write b)"
  unfolding log_write_def by (intro pres_intros)

end

end
