(* ===== verification/Cprintf.thy ===== *)
theory Cprintf
  imports Sched
begin

text \<open>
  Console output: \<open>cgaputc\<close>, \<open>consputc\<close>, \<open>printint\<close> and \<open>cprintf\<close> of \<open>console.c\<close>.  The serial
  line is the list \<open>uart_out\<close> of the bytes sent, the screen is the CGA memory \<open>crt\<close> with the
  cursor position the controller keeps.  A format string is a list of bytes without its NUL,
  the variable arguments are a list of numbers and strings.
\<close>

section \<open>Characters\<close>

definition ascii :: "char \<Rightarrow> u8" where
  "ascii c = of_char c"

definition str :: "string \<Rightarrow> u8 list" where
  "str s = map ascii s"

definition BACKSPACE :: nat where [simp]: "BACKSPACE = 0x100"

section \<open>The screen\<close>

record screen =
  cells :: "nat \<Rightarrow> u16"
  cursor :: nat

text \<open>\<open>None\<close>: the position is out of range, \<open>cgaputc\<close> panics.\<close>

definition cga_advance :: "nat \<Rightarrow> screen \<Rightarrow> screen" where
  "cga_advance c w =
     (let pos = cursor w in
      if c = 10 then w\<lparr>cursor := pos + (80 - pos mod 80)\<rparr>
      else if c = BACKSPACE then (if pos > 0 then w\<lparr>cursor := pos - 1\<rparr> else w)
      else w\<lparr>cells := (cells w)(pos := (of_nat c AND 0xff) OR 0x0700), cursor := pos + 1\<rparr>)"

definition cga_scroll :: "screen \<Rightarrow> screen" where
  "cga_scroll w =
     (if cursor w div 80 \<ge> 24 then
        let pos = cursor w - 80;
            moved = (\<lambda>i. if i < 23 * 80 then cells w (i + 80) else cells w i)
        in \<lparr>cells = (\<lambda>i. if pos \<le> i \<and> i < 24 * 80 then 0 else moved i), cursor = pos\<rparr>
      else w)"

definition cgaputc :: "nat \<Rightarrow> screen \<Rightarrow> screen option" where
  "cgaputc c w =
     (let w1 = cga_advance c w in
      if cursor w1 > 25 * 80 then None
      else let w2 = cga_scroll w1 in
        Some (w2\<lparr>cells := (cells w2)(cursor w2 := ucast (ascii CHR '' '') OR 0x0700)\<rparr>))"

section \<open>consputc\<close>

definition uart_bytes :: "nat \<Rightarrow> u8 list" where
  "uart_bytes c = (if c = BACKSPACE then [8, 32, 8] else [of_nat c])"

text \<open>Once another CPU has panicked, a CPU that prints spins for ever.\<close>

definition consputc :: "nat \<Rightarrow> unit km" where
  "consputc c = bnd (getsh cons) (\<lambda>k.
     if panicked k then Asleep
     else (case cgaputc c \<lparr>cells = crt k, cursor = crt_pos k\<rparr> of
         None \<Rightarrow> panic ''pos under/overflow''
       | Some w \<Rightarrow> modsh (\<lambda>x. x\<lparr>cons := (cons x)\<lparr>uart_out := uart_out k @ uart_bytes c,
                      crt := cells w, crt_pos := cursor w\<rparr>\<rparr>)))"

fun consputs :: "u8 list \<Rightarrow> unit km" where
  "consputs [] = ret ()"
| "consputs (b # bs) = sq (consputc (unat b)) (consputs bs)"

section \<open>printint\<close>

definition digit :: "u32 \<Rightarrow> u8" where
  "digit d = str ''0123456789abcdef'' ! unat d"

text \<open>The digits of \<open>x\<close>, last digit first, in a buffer with room for \<open>n\<close> more; \<open>None\<close> when it
  would overflow.\<close>

fun digits_loop :: "nat \<Rightarrow> u32 \<Rightarrow> u32 \<Rightarrow> u32 list option" where
  "digits_loop 0 x base = None"
| "digits_loop (Suc n) x base =
     (if x div base \<noteq> 0 then map_option (\<lambda>ds. x mod base # ds) (digits_loop n (x div base) base)
      else Some [x mod base])"

text \<open>The negation \<open>-xx\<close> of the least \<open>int\<close> wraps, as it does on the machine.\<close>

definition printint_bytes :: "u32 \<Rightarrow> u32 \<Rightarrow> bool \<Rightarrow> u8 list option" where
  "printint_bytes xx base sign =
     (let neg = sign \<and> xx <s 0; x = (if neg then - xx else xx)
      in map_option (\<lambda>ds. (if neg then [ascii CHR ''-''] else []) @ rev (map digit ds))
           (digits_loop (if neg then 15 else 16) x base))"

definition printint :: "u32 \<Rightarrow> u32 \<Rightarrow> bool \<Rightarrow> unit km" where
  "printint xx base sign = (case printint_bytes xx base sign of
     None \<Rightarrow> fault ''buffer overflow'' | Some bs \<Rightarrow> consputs bs)"

section \<open>cprintf\<close>

datatype karg = Num u32 | Str "u8 list option"

fun cprintf_loop :: "u8 list \<Rightarrow> karg list \<Rightarrow> unit km" where
  "cprintf_loop [] args = ret ()"
| "cprintf_loop [c] args = (if c = ascii CHR ''%'' then ret () else consputc (unat c))"
| "cprintf_loop (c # d # fmt) args =
     (if c \<noteq> ascii CHR ''%'' then sq (consputc (unat c)) (cprintf_loop (d # fmt) args)
      else if d = ascii CHR ''d'' then (case args of
          Num n # argv \<Rightarrow> sq (printint n 10 True) (cprintf_loop fmt argv) | _ \<Rightarrow> fault ''bad argument'')
      else if d = ascii CHR ''x'' \<or> d = ascii CHR ''p'' then (case args of
          Num n # argv \<Rightarrow> sq (printint n 16 False) (cprintf_loop fmt argv) | _ \<Rightarrow> fault ''bad argument'')
      else if d = ascii CHR ''s'' then (case args of
          Str (Some s) # argv \<Rightarrow> sq (consputs s) (cprintf_loop fmt argv)
        | Str None # argv \<Rightarrow> sq (consputs (str ''(null)'')) (cprintf_loop fmt argv)
        | _ \<Rightarrow> fault ''bad argument'')
      else if d = ascii CHR ''%'' then sq (consputc (unat d)) (cprintf_loop fmt args)
      else seqs [consputc (unat (ascii CHR ''%'')), consputc (unat d), cprintf_loop fmt args])"

definition cprintf :: "u8 list option \<Rightarrow> karg list \<Rightarrow> unit km" where
  "cprintf fmt args = bnd (getsh (\<lambda>x. cons_locking (cons x))) (\<lambda>locking. seqs [
     whenk locking (acquire ConsLock),
     (case fmt of None \<Rightarrow> panic ''null fmt'' | Some f \<Rightarrow> cprintf_loop f args),
     whenk locking (release ConsLock)])"

section \<open>Printing does not touch the process table\<close>

lemma pres_case_args:
  "pres I J m \<Longrightarrow> (\<And>y ys. xs = y # ys \<Longrightarrow> pres I J (f y ys)) \<Longrightarrow> pres I J (case xs of [] \<Rightarrow> m | y # ys \<Rightarrow> f y ys)"
  "(\<And>n. a = Num n \<Longrightarrow> pres I J (g n)) \<Longrightarrow> (\<And>o'. a = Str o' \<Longrightarrow> pres I J (h o')) \<Longrightarrow>
    pres I J (case a of Num n \<Rightarrow> g n | Str o' \<Rightarrow> h o')"
  by (cases xs, simp_all) (cases a, simp_all)

context ptable_inv
begin

lemma pres_consputc [pres_intros]: "pres (thr W R p) (rest W) (consputc c)"
  unfolding consputc_def by (intro pres_intros pres_modsh_frame) simp_all

lemma pres_consputs [pres_intros]: "pres (thr W R p) (rest W) (consputs bs)"
  by (induction bs) (simp_all add: pres_intros)

lemma pres_printint [pres_intros]: "pres (thr W R p) (rest W) (printint n b g)"
  unfolding printint_def by (intro pres_intros)

lemma pres_cprintf_loop [pres_intros]: "pres (thr W R p) (rest W) (cprintf_loop fmt args)"
proof (induction fmt arbitrary: args rule: length_induct)
  case (1 fmt)
  then have ih: "pres (thr W R p) (rest W) (cprintf_loop ys as)" if "length ys < length fmt" for ys as using that by blast
  show ?case
  proof (cases "(fmt, args)" rule: cprintf_loop.cases)
    case (3 c d ys as)
    have "pres (thr W R p) (rest W) (cprintf_loop ys zs)" "pres (thr W R p) (rest W) (cprintf_loop (d # ys) zs)" for zs
      using 3 ih by simp_all
    then show ?thesis using 3 by (simp only: prod.inject cprintf_loop.simps) (intro pres_intros pres_case_args)
  qed (simp_all add: pres_intros)
qed

lemma pres_cprintf [pres_intros]: "pres (thr W R p) (rest W) (cprintf fmt args)"
  unfolding cprintf_def by (intro pres_intros)

end

section \<open>Numbers and the screen\<close>

lemma digits_loop_value:
  assumes "2 \<le> unat base" and "0 < n" and "unat x < unat base ^ n"
  shows "\<exists>ds. digits_loop n x base = Some ds \<and> foldr (\<lambda>d a. unat d + unat base * a) ds 0 = unat x \<and>
     (\<forall>d\<in>set ds. d < base) \<and> ds \<noteq> [] \<and> (x \<noteq> 0 \<longrightarrow> last ds \<noteq> 0) \<and> length ds \<le> n"
  using assms
proof (induction n arbitrary: x)
  case (Suc n)
  have b: "x mod base < base" using assms(1) by (simp add: word_less_nat_alt unat_mod)
  show ?case
  proof (cases "x div base = 0")
    case True
    then have "unat x div unat base = 0" by (simp add: unat_div[symmetric])
    then have "unat x < unat base" using assms(1) by (simp add: div_eq_0_iff)
    then have "x mod base = x" by (simp add: word_unat_eq_iff unat_mod)
    then show ?thesis using True b by (auto simp: unat_mod)
  next
    case False
    then have "unat (x div base) \<noteq> 0" by (metis unat_eq_zero)
    moreover have "unat (x div base) < unat base ^ n"
      using Suc.prems by (simp add: unat_div less_mult_imp_div_less mult.commute)
    ultimately have q: "unat (x div base) \<noteq> 0" "unat (x div base) < unat base ^ n" by simp_all
    then have "0 < n" by (cases n) auto
    then obtain ds where ds: "digits_loop n (x div base) base = Some ds"
        "foldr (\<lambda>d a. unat d + unat base * a) ds 0 = unat (x div base)" "\<forall>d\<in>set ds. d < base" "ds \<noteq> []"
        "last ds \<noteq> 0" "length ds \<le> n"
      using Suc.IH[of "x div base"] Suc.prems(1) q False by blast
    then show ?thesis using False b by (simp add: unat_div unat_mod)
  qed
qed simp

text \<open>C36: \<open>printint\<close> prints the number it is given: for base 10 and 16 the buffer of 16 characters
  never overflows, and the text is an optional minus sign followed by the digits, most
  significant first and without a leading zero, of the absolute value of the signed number (or
  of the unsigned number when \<open>sign\<close> is 0).\<close>

theorem printint_correct:
  assumes "base = 10 \<or> base = 16"
  shows "\<exists>ds. printint_bytes xx base sign =
      Some ((if sign \<and> sint xx < 0 then [ascii CHR ''-''] else []) @ map digit ds) \<and>
    foldl (\<lambda>a d. unat base * a + unat d) 0 ds = nat (if sign then \<bar>sint xx\<bar> else uint xx) \<and>
    (\<forall>d\<in>set ds. d < base) \<and> ds \<noteq> [] \<and> (xx \<noteq> 0 \<longrightarrow> hd ds \<noteq> 0)"
proof -
  define neg where "neg \<longleftrightarrow> sign \<and> sint xx < 0"
  define x where "x = (if neg then - xx else xx)"
  have v: "unat x = nat (if sign then \<bar>sint xx\<bar> else uint xx)"
  proof (cases neg)
    case True
    then have "xx \<noteq> 0" "uint xx = sint xx + 2 ^ 32"
      by (auto simp: neg_def sint32 split: if_splits)
    moreover have "uint (- xx) = 2 ^ 32 - uint xx" if "xx \<noteq> 0"
      using that uint_lt2p[of xx] by (simp add: uint_word_ariths(4) zmod_zminus1_eq_if uint_0_iff)
    ultimately show ?thesis using True
      by (simp add: x_def neg_def unat_eq_nat_uint)
  next
    case False
    then have "sign \<Longrightarrow> sint xx = uint xx"
      using uint_lt2p[of xx] unfolding neg_def sint32[of xx] by (simp split: if_splits)
    then have "(if sign then \<bar>sint xx\<bar> else uint xx) = uint xx" by simp
    moreover have "x = xx" using False by (simp add: x_def)
    ultimately show ?thesis unfolding unat_eq_nat_uint by (simp only:)
  qed
  have b: "2 \<le> unat base" using assms by auto
  have pos: "0 < (if neg then 15 else (16 :: nat))" by simp
  have "(2 :: nat) ^ 32 \<le> unat base ^ (if neg then 15 else 16)" using assms by (elim disjE) (simp_all split: if_split)
  then have h: "unat x < unat base ^ (if neg then 15 else 16)" using unat_lt32(1)[of x] by (rule less_le_trans[rotated])
  obtain ds where ds: "digits_loop (if neg then 15 else 16) x base = Some ds"
      "foldr (\<lambda>d a. unat d + unat base * a) ds 0 = unat x" "\<forall>d\<in>set ds. d < base" "ds \<noteq> []" "x \<noteq> 0 \<longrightarrow> last ds \<noteq> 0"
    using digits_loop_value[OF b pos h] by blast
  have "printint_bytes xx base sign = Some ((if neg then [ascii CHR ''-''] else []) @ map digit (rev ds))"
  proof -
    have "sign \<and> xx <s 0 \<longleftrightarrow> neg" by (simp add: neg_def word_sless_alt)
    then show ?thesis unfolding printint_bytes_def Let_def using ds(1) x_def by (simp add: rev_map)
  qed
  moreover have "foldl (\<lambda>a d. unat base * a + unat d) 0 (rev ds) = unat x"
    using ds(2) by (simp add: foldr_conv_foldl add.commute)
  moreover have "xx \<noteq> 0 \<longrightarrow> hd (rev ds) \<noteq> 0" using ds(4,5) by (simp add: hd_rev x_def)
  ultimately show ?thesis using ds(3,4) v
    by (intro exI[of _ "rev ds"]) (simp add: neg_def)
qed

theorem printint_correct_witness:
  "\<exists>ds. printint_bytes 0xFFFFFFD6 10 True = Some (ascii CHR ''-'' # map digit ds) \<and>
     foldl (\<lambda>a d. 10 * a + unat d) 0 ds = 42"
  using printint_correct[of 10 "0xFFFFFFD6" True] by (simp add: sint32) blast

lemma cgaputc_in_range:
  assumes "cursor w < 24 * 80"
  shows "\<exists>w'. cgaputc c w = Some w' \<and> cursor w' < 24 * 80"
proof -
  have "cursor w + (80 - cursor w mod 80) \<le> 24 * 80"
  proof -
    have "cursor w = 80 * (cursor w div 80) + cursor w mod 80" by simp
    moreover have "cursor w div 80 \<le> 23" using assms by auto
    ultimately show ?thesis by linarith
  qed
  then have "cursor (cga_advance c w) \<le> 24 * 80"
    using assms by (auto simp: cga_advance_def Let_def)
  then show ?thesis by (auto simp: cgaputc_def cga_scroll_def Let_def)
qed

end
