(* ===== verification/Inode.thy ===== *)
theory Inode
  imports Log Cprintf
begin

text \<open>
  Blocks and inodes (\<open>fs.c\<close> up to \<open>stati\<close>, \<open>fs.h\<close>): the block allocator over the bitmap, the
  inode cache, and the map from file blocks to disk blocks.  On disk an inode is the byte image
  of \<open>struct dinode\<close>; an inode pointer is an index into \<open>icache.inode\<close>.
\<close>

section \<open>Disk formats\<close>

definition NDIRECT :: nat where [simp]: "NDIRECT = 12"
definition NINDIRECT :: nat where [simp]: "NINDIRECT = BSIZE div 4"
definition MAXFILE :: nat where [simp]: "MAXFILE = NDIRECT + NINDIRECT"
definition ROOTINO :: u32 where [simp]: "ROOTINO = 1"
definition IPB :: nat where [simp]: "IPB = BSIZE div 64"
definition BPB :: nat where [simp]: "BPB = BSIZE * 8"
definition T_DIR :: u16 where [simp]: "T_DIR = 1"
definition T_FILE :: u16 where [simp]: "T_FILE = 2"
definition T_DEV :: u16 where [simp]: "T_DEV = 3"

definition IBLOCK :: "u32 \<Rightarrow> superblock \<Rightarrow> u32" where
  "IBLOCK i s = i div of_nat IPB + sb_inodestart s"

definition BBLOCK :: "u32 \<Rightarrow> superblock \<Rightarrow> u32" where
  "BBLOCK b s = b div of_nat BPB + sb_bmapstart s"

definition split16 :: "u16 \<Rightarrow> u8 list" where
  "split16 w = [ucast w, ucast (drop_bit 8 w)]"

definition join16 :: "u8 list \<Rightarrow> u16" where
  "join16 bs = (case bs of [a, b] \<Rightarrow> ucast a OR push_bit 8 (ucast b) | _ \<Rightarrow> 0)"

definition get16 :: "u8 list \<Rightarrow> nat \<Rightarrow> u16" where
  "get16 d off = join16 (take 2 (drop off d))"

record dinode =
  d_type :: u16
  d_major :: u16
  d_minor :: u16
  d_nlink :: u16
  d_size :: u32
  d_addrs :: "u32 list"

definition dinode_of :: "u8 list \<Rightarrow> nat \<Rightarrow> dinode" where
  "dinode_of d off = \<lparr>d_type = get16 d off, d_major = get16 d (off + 2), d_minor = get16 d (off + 4),
     d_nlink = get16 d (off + 6), d_size = get32 d (off + 8),
     d_addrs = map (\<lambda>k. get32 d (off + 12 + 4 * k)) [0..<NDIRECT + 1]\<rparr>"

definition dinode_bytes :: "dinode \<Rightarrow> u8 list" where
  "dinode_bytes i = split16 (d_type i) @ split16 (d_major i) @ split16 (d_minor i) @ split16 (d_nlink i) @
     split32 (d_size i) @ concat (map split32 (d_addrs i))"

definition put_bytes :: "u8 list \<Rightarrow> nat \<Rightarrow> u8 list \<Rightarrow> u8 list" where
  "put_bytes d off bs = take off d @ bs @ drop (off + length bs) d"

definition dinode_off :: "u32 \<Rightarrow> nat" where
  "dinode_off i = 64 * (unat i mod IPB)"

section \<open>The block allocator\<close>

definition getsb :: "superblock km" where
  [kdefs]: "getsb = getsh sb"

definition bzero :: "u32 \<Rightarrow> u32 \<Rightarrow> unit km" where
  "bzero dev bno = bnd (bread dev bno) (\<lambda>bp. seqs [
     setb bp (\<lambda>r. r\<lparr>bdata := replicate BSIZE 0\<rparr>),
     log_write bp,
     brelse bp])"

definition bit_mask :: "nat \<Rightarrow> u8" where
  "bit_mask bi = push_bit (bi mod 8) 1"

definition bit_used :: "u8 list \<Rightarrow> nat \<Rightarrow> bool" where
  "bit_used d bi \<longleftrightarrow> d ! (bi div 8) AND bit_mask bi \<noteq> 0"

definition set_used :: "nat \<Rightarrow> u8 list \<Rightarrow> u8 list" where
  "set_used bi d = d[bi div 8 := d ! (bi div 8) OR bit_mask bi]"

definition clear_used :: "nat \<Rightarrow> u8 list \<Rightarrow> u8 list" where
  "clear_used bi d = d[bi div 8 := d ! (bi div 8) AND NOT (bit_mask bi)]"

text \<open>The inner loop of \<open>balloc\<close>: the first free bit of this bitmap block.\<close>

definition free_bit :: "u8 list \<Rightarrow> nat \<Rightarrow> nat option" where
  "free_bit d n = scan (\<lambda>bi. \<not> bit_used d bi) [0..<n]"

function balloc_loop :: "u32 \<Rightarrow> nat \<Rightarrow> u32 km" where
  "balloc_loop dev b = bnd getsb (\<lambda>s.
     if b < unat (sb_size s) then
       bnd (bread dev (BBLOCK (of_nat b) s)) (\<lambda>bp. bnd (getb bp bdata) (\<lambda>d.
         case free_bit d (min BPB (unat (sb_size s) - b)) of
           Some bi \<Rightarrow> sq (seqs [
             setb bp (\<lambda>r. r\<lparr>bdata := set_used bi (bdata r)\<rparr>),
             log_write bp,
             brelse bp,
             bzero dev (of_nat (b + bi))]) (ret (of_nat (b + bi)))
         | None \<Rightarrow> sq (brelse bp)
             (if b + BPB \<ge> 2 ^ 31 then fault ''integer overflow'' else balloc_loop dev (b + BPB))))
     else panic ''balloc: out of blocks'')"
  by pat_completeness auto
termination
  by (relation "measure (\<lambda>(dev, b). 2 ^ 31 - b)") auto

declare balloc_loop.simps [simp del]

definition balloc :: "u32 \<Rightarrow> u32 km" where
  "balloc dev = balloc_loop dev 0"

definition bfree :: "u32 \<Rightarrow> u32 \<Rightarrow> unit km" where
  "bfree dev b = bnd getsb (\<lambda>s. bnd (bread dev (BBLOCK b s)) (\<lambda>bp. bnd (getb bp bdata) (\<lambda>d.
     let bi = unat b mod BPB in
     if \<not> bit_used d bi then panic ''freeing free block''
     else seqs [
       setb bp (\<lambda>r. r\<lparr>bdata := clear_used bi (bdata r)\<rparr>),
       log_write bp,
       brelse bp])))"

section \<open>The inode cache\<close>

definition geti :: "nat \<Rightarrow> (inode \<Rightarrow> 'a) \<Rightarrow> 'a km" where
  [kdefs]: "geti i f = getsh (\<lambda>x. f (icache x ! i))"

definition seti :: "nat \<Rightarrow> (inode \<Rightarrow> inode) \<Rightarrow> unit km" where
  [kdefs]: "seti i f = modsh (\<lambda>x. x\<lparr>icache := (icache x)[i := f (icache x ! i)]\<rparr>)"

definition iinit :: "u32 \<Rightarrow> unit km" where
  "iinit dev = seqs [
     initlock IcacheLock,
     seqs (map (\<lambda>i. initsleeplock (InodeLock i)) [0..<NINODE]),
     bnd (readsb dev) (\<lambda>s. modsh (\<lambda>x. x\<lparr>sb := s\<rparr>)),
     bnd getsb (\<lambda>s. cprintf (Some (str ''sb: size %d nblocks %d ninodes %d nlog %d logstart %d''
         @ str '' inodestart %d bmap start %d'' @ [10]))
       [Num (sb_size s), Num (sb_nblocks s), Num (sb_ninodes s), Num (sb_nlog s), Num (sb_logstart s),
        Num (sb_inodestart s), Num (sb_bmapstart s)])]"

definition iget :: "u32 \<Rightarrow> u32 \<Rightarrow> nat km" where
  "iget dev ino = sq (acquire IcacheLock)
     (bnd (getsh (\<lambda>x. scan (\<lambda>i. iref i > 0 \<and> idev i = dev \<and> inum i = ino) (icache x))) (\<lambda>c. case c of
       Some i \<Rightarrow> sq (seqs [seti i (\<lambda>r. r\<lparr>iref := iref r + 1\<rparr>), release IcacheLock]) (ret i)
     | None \<Rightarrow> bnd (getsh (\<lambda>x. scan (\<lambda>i. iref i = 0) (icache x))) (\<lambda>e. case e of
         None \<Rightarrow> panic ''iget: no inodes''
       | Some i \<Rightarrow> sq (seqs [
             seti i (\<lambda>r. r\<lparr>idev := dev, inum := ino, iref := 1, ivalid := False\<rparr>),
             release IcacheLock]) (ret i))))"

definition idup :: "nat \<Rightarrow> nat km" where
  "idup i = sq (seqs [acquire IcacheLock, seti i (\<lambda>r. r\<lparr>iref := iref r + 1\<rparr>), release IcacheLock]) (ret i)"

definition to_dinode :: "inode \<Rightarrow> dinode" where
  "to_dinode r = \<lparr>d_type = itype r, d_major = major r, d_minor = minor r, d_nlink = nlink r, d_size = isz r,
     d_addrs = addrs r\<rparr>"

definition iupdate :: "nat \<Rightarrow> unit km" where
  "iupdate i = bnd (geti i id) (\<lambda>ip. bnd getsb (\<lambda>s. bnd (bread (idev ip) (IBLOCK (inum ip) s)) (\<lambda>bp. seqs [
     bnd (geti i id) (\<lambda>r.
       setb bp (\<lambda>b. b\<lparr>bdata := put_bytes (bdata b) (dinode_off (inum r)) (dinode_bytes (to_dinode r))\<rparr>)),
     log_write bp,
     brelse bp])))"

function ialloc_loop :: "u32 \<Rightarrow> u16 \<Rightarrow> nat \<Rightarrow> nat km" where
  "ialloc_loop dev ty ino = bnd getsb (\<lambda>s.
     if ino < unat (sb_ninodes s) then
       bnd (bread dev (IBLOCK (of_nat ino) s)) (\<lambda>bp. bnd (getb bp bdata) (\<lambda>d.
         if d_type (dinode_of d (dinode_off (of_nat ino))) = 0 then
           sq (seqs [
             setb bp (\<lambda>b. b\<lparr>bdata := put_bytes (bdata b) (dinode_off (of_nat ino))
               (split16 ty @ replicate 62 0)\<rparr>),
             log_write bp,
             brelse bp]) (iget dev (of_nat ino))
         else sq (brelse bp)
           (if ino + 1 \<ge> 2 ^ 31 then fault ''integer overflow'' else ialloc_loop dev ty (ino + 1))))
     else panic ''ialloc: no inodes'')"
  by pat_completeness auto
termination
  by (relation "measure (\<lambda>(dev, ty, ino). 2 ^ 31 - ino)") auto

declare ialloc_loop.simps [simp del]

definition ialloc :: "u32 \<Rightarrow> u16 \<Rightarrow> nat km" where
  "ialloc dev ty = ialloc_loop dev ty 1"

definition ilock :: "nat option \<Rightarrow> unit km" where
  "ilock ip = (case ip of None \<Rightarrow> panic ''ilock'' | Some i \<Rightarrow> bnd (geti i iref) (\<lambda>n.
     if n < 1 then panic ''ilock''
     else sq (acquiresleep (InodeLock i)) (bnd (geti i ivalid) (\<lambda>v. whenk (\<not> v)
       (bnd (geti i id) (\<lambda>r. bnd getsb (\<lambda>s. bnd (bread (idev r) (IBLOCK (inum r) s)) (\<lambda>bp. seqs [
         bnd (getb bp bdata) (\<lambda>d. let di = dinode_of d (dinode_off (inum r)) in
           seti i (\<lambda>r. r\<lparr>itype := d_type di, major := d_major di, minor := d_minor di, nlink := d_nlink di,
             isz := d_size di, addrs := d_addrs di\<rparr>)),
         brelse bp,
         seti i (\<lambda>r. r\<lparr>ivalid := True\<rparr>),
         bnd (geti i itype) (\<lambda>t. if t = 0 then panic ''ilock: no type'' else ret ())]))))))))"

definition iunlock :: "nat option \<Rightarrow> unit km" where
  "iunlock ip = (case ip of None \<Rightarrow> panic ''iunlock'' | Some i \<Rightarrow>
     bnd (holdingsleep (InodeLock i)) (\<lambda>h. bnd (geti i iref) (\<lambda>n.
       if \<not> h \<or> n < 1 then panic ''iunlock'' else releasesleep (InodeLock i))))"

definition itrunc_direct :: "nat \<Rightarrow> nat \<Rightarrow> unit km" where
  "itrunc_direct i k = bnd (geti i (\<lambda>r. addrs r ! k)) (\<lambda>a. whenk (a \<noteq> 0) (bnd (geti i idev) (\<lambda>dev.
     seqs [bfree dev a, seti i (\<lambda>r. r\<lparr>addrs := (addrs r)[k := 0]\<rparr>)])))"

definition itrunc_indirect :: "nat \<Rightarrow> nat \<Rightarrow> nat \<Rightarrow> unit km" where
  "itrunc_indirect i bp j = bnd (getb bp (\<lambda>b. get32 (bdata b) (4 * j))) (\<lambda>a.
     whenk (a \<noteq> 0) (bnd (geti i idev) (\<lambda>dev. bfree dev a)))"

definition itrunc :: "nat \<Rightarrow> unit km" where
  "itrunc i = seqs [
     seqs (map (itrunc_direct i) [0..<NDIRECT]),
     bnd (geti i (\<lambda>r. addrs r ! NDIRECT)) (\<lambda>a. whenk (a \<noteq> 0) (bnd (geti i idev) (\<lambda>dev.
       bnd (bread dev a) (\<lambda>bp. seqs [
         seqs (map (itrunc_indirect i bp) [0..<NINDIRECT]),
         brelse bp,
         bnd (geti i (\<lambda>r. addrs r ! NDIRECT)) (\<lambda>a. bfree dev a),
         seti i (\<lambda>r. r\<lparr>addrs := (addrs r)[NDIRECT := 0]\<rparr>)])))),
     seti i (\<lambda>r. r\<lparr>isz := 0\<rparr>),
     iupdate i]"

definition iput :: "nat \<Rightarrow> unit km" where
  "iput i = seqs [
     acquiresleep (InodeLock i),
     bnd (geti i (\<lambda>r. ivalid r \<and> nlink r = 0)) (\<lambda>c. whenk c
       (sq (acquire IcacheLock) (bnd (geti i iref) (\<lambda>n. sq (release IcacheLock)
         (whenk (n = 1) (seqs [
            itrunc i,
            seti i (\<lambda>r. r\<lparr>itype := 0\<rparr>),
            iupdate i,
            seti i (\<lambda>r. r\<lparr>ivalid := False\<rparr>)])))))),
     releasesleep (InodeLock i),
     acquire IcacheLock,
     seti i (\<lambda>r. r\<lparr>iref := iref r - 1\<rparr>),
     release IcacheLock]"

definition iunlockput :: "nat \<Rightarrow> unit km" where
  "iunlockput i = seqs [iunlock (Some i), iput i]"

section \<open>Blocks of a file\<close>

definition bmap :: "nat \<Rightarrow> u32 \<Rightarrow> u32 km" where
  "bmap i bn =
     (if unat bn < NDIRECT then
        bnd (geti i (\<lambda>r. addrs r ! unat bn)) (\<lambda>a.
          if a = 0 then bnd (geti i idev) (\<lambda>dev. bnd (balloc dev) (\<lambda>a.
            sq (seti i (\<lambda>r. r\<lparr>addrs := (addrs r)[unat bn := a]\<rparr>)) (ret a)))
          else ret a)
      else let k = unat bn - NDIRECT in
      if k < NINDIRECT then
        bnd (geti i (\<lambda>r. addrs r ! NDIRECT)) (\<lambda>a0.
        bnd (if a0 = 0 then bnd (geti i idev) (\<lambda>dev. bnd (balloc dev) (\<lambda>a.
               sq (seti i (\<lambda>r. r\<lparr>addrs := (addrs r)[NDIRECT := a]\<rparr>)) (ret a)))
             else ret a0) (\<lambda>a.
        bnd (geti i idev) (\<lambda>dev. bnd (bread dev a) (\<lambda>bp.
        bnd (getb bp (\<lambda>b. get32 (bdata b) (4 * k))) (\<lambda>e.
        bnd (if e = 0 then bnd (balloc dev) (\<lambda>n.
               sq (seqs [setb bp (\<lambda>b. b\<lparr>bdata := put32 (bdata b) (4 * k) n\<rparr>), log_write bp]) (ret n))
             else ret e) (\<lambda>n.
        sq (brelse bp) (ret n)))))))
      else panic ''bmap: out of range'')"

record stat =
  st_type :: u16
  st_dev :: u32
  st_ino :: u32
  st_nlink :: u16
  st_size :: u32

definition stati :: "nat \<Rightarrow> stat km" where
  "stati i = geti i (\<lambda>r. \<lparr>st_type = itype r, st_dev = idev r, st_ino = inum r, st_nlink = nlink r, st_size = isz r\<rparr>)"

section \<open>Inodes and the process table\<close>

context ptable_inv
begin

lemma pres_getsb [pres_intros]: "pres (thr W R p) (rest W) getsb"
  unfolding getsb_def by (intro pres_intros)

lemma pres_geti [pres_intros]: "pres (thr W R p) (rest W) (geti i f)"
  unfolding geti_def by (intro pres_intros)

lemma pres_seti [pres_intros]: "pres (thr W R p) (rest W) (seti i f)"
  unfolding seti_def by (intro pres_modsh_frame) simp_all

lemma pres_initsleeplock [pres_intros]: "pres (thr W R p) (rest W) (initsleeplock l)"
  unfolding initsleeplock_def by (intro pres_intros)

lemma pres_bzero [pres_intros]: "pres (thr W R p) (rest W) (bzero dev bno)"
  unfolding bzero_def by (intro pres_intros)

lemma pres_balloc_loop [pres_intros]: "pres (thr W R p) (rest W) (balloc_loop dev b)"
proof (induction dev b rule: balloc_loop.induct)
  case 1
  show ?case by (subst balloc_loop.simps) (intro pres_intros 1; assumption)
qed

lemma pres_balloc [pres_intros]: "pres (thr W R p) (rest W) (balloc dev)"
  unfolding balloc_def by (intro pres_intros)

lemma pres_bfree [pres_intros]: "pres (thr W R p) (rest W) (bfree dev b)"
  unfolding bfree_def Let_def by (intro pres_intros)

lemma pres_iinit [pres_intros]: "pres (thr W R p) (rest W) (iinit dev)"
  unfolding iinit_def by (intro pres_intros pres_modsh_frame) simp_all

lemma pres_iget [pres_intros]: "pres (thr W R p) (rest W) (iget dev ino)"
  unfolding iget_def by (intro pres_intros)

lemma pres_idup [pres_intros]: "pres (thr W R p) (rest W) (idup i)"
  unfolding idup_def by (intro pres_intros)

lemma pres_iupdate [pres_intros]: "pres (thr W R p) (rest W) (iupdate i)"
  unfolding iupdate_def by (intro pres_intros)

lemma pres_ialloc_loop [pres_intros]: "pres (thr W R p) (rest W) (ialloc_loop dev ty ino)"
proof (induction dev ty ino rule: ialloc_loop.induct)
  case 1
  show ?case by (subst ialloc_loop.simps) (intro pres_intros 1; assumption)
qed

lemma pres_ialloc [pres_intros]: "pres (thr W R p) (rest W) (ialloc dev ty)"
  unfolding ialloc_def by (intro pres_intros)

lemma pres_ilock [pres_intros]: "pres (thr W R p) (rest W) (ilock ip)"
  unfolding ilock_def Let_def by (intro pres_intros)

lemma pres_iunlock [pres_intros]: "pres (thr W R p) (rest W) (iunlock ip)"
  unfolding iunlock_def by (intro pres_intros)

lemma pres_itrunc [pres_intros]: "pres (thr W R p) (rest W) (itrunc i)"
  unfolding itrunc_def itrunc_direct_def itrunc_indirect_def by (intro pres_intros)

lemma pres_iput [pres_intros]: "pres (thr W R p) (rest W) (iput i)"
  unfolding iput_def by (intro pres_intros)

lemma pres_iunlockput [pres_intros]: "pres (thr W R p) (rest W) (iunlockput i)"
  unfolding iunlockput_def by (intro pres_intros)

lemma pres_bmap [pres_intros]: "pres (thr W R p) (rest W) (bmap i bn)"
  unfolding bmap_def Let_def by (intro pres_intros)

lemma pres_stati [pres_intros]: "pres (thr W R p) (rest W) (stati i)"
  unfolding stati_def by (intro pres_intros)

end

end
