(* ===== verification/Kalloc.thy ===== *)
theory Kalloc
  imports Sched
begin

text \<open>
  The physical page allocator of \<open>kalloc.c\<close>.  The free list is threaded through the free
  pages themselves: the first word of a free page is the address of the next one.  \<open>flist\<close>
  reads the list out of memory, \<open>free_ok\<close> is the allocator's invariant, and the interface
  \<open>page_allocator\<close> is what the rest of the kernel may rely on.
\<close>

section \<open>Operations\<close>

definition page_ok :: "shared \<Rightarrow> u32 \<Rightarrow> bool" where
  "page_ok x v \<longleftrightarrow> v mod PGSIZE = 0 \<and> \<not> v < end_addr (lay x) \<and> \<not> V2P v \<ge> PHYSTOP"

definition lock_kmem :: "unit km" where
  [kdefs]: "lock_kmem = bnd (getsh (\<lambda>x. use_lock (kmem x))) (\<lambda>l. whenk l (acquire KmemLock))"

definition unlock_kmem :: "unit km" where
  [kdefs]: "unlock_kmem = bnd (getsh (\<lambda>x. use_lock (kmem x))) (\<lambda>l. whenk l (release KmemLock))"

definition kfree :: "u32 \<Rightarrow> unit km" where
  "kfree v = bnd (getsh (\<lambda>x. page_ok x v)) (\<lambda>ok.
     if \<not> ok then panic ''kfree''
     else seqs [
       modsh (\<lambda>x. x\<lparr>mem := memset (mem x) v 1 PGSIZE\<rparr>),
       lock_kmem,
       modsh (\<lambda>x. x\<lparr>mem := wr32 (mem x) v (freelist (kmem x)), kmem := (kmem x)\<lparr>freelist := v\<rparr>\<rparr>),
       unlock_kmem])"

definition kalloc :: "u32 km" where
  "kalloc = sq lock_kmem (bnd (getsh (\<lambda>x. freelist (kmem x))) (\<lambda>r.
     sq (whenk (r \<noteq> 0) (modsh (\<lambda>x. x\<lparr>kmem := (kmem x)\<lparr>freelist := rd32 (mem x) r\<rparr>\<rparr>)))
     (sq unlock_kmem (ret r))))"

text \<open>A pointer that runs past the end of the address space has no defined meaning.\<close>

function freerange_loop :: "u32 \<Rightarrow> u32 \<Rightarrow> unit km" where
  "freerange_loop p vend =
     (if p + PGSIZE \<le> p then fault ''pointer overflow''
      else if p + PGSIZE \<le> vend then sq (kfree p) (freerange_loop (p + PGSIZE) vend)
      else ret ())"
  by pat_completeness auto
termination
  by (relation "measure (\<lambda>(p, vend). 2 ^ 32 - unat p)") (auto simp: word_le_nat_alt unat_lt32 intro!: diff_less_mono2)

declare freerange_loop.simps [simp del]

definition freerange :: "u32 \<Rightarrow> u32 \<Rightarrow> unit km" where
  "freerange vstart vend = freerange_loop (PGROUNDUP vstart) vend"

definition kinit1 :: "u32 \<Rightarrow> u32 \<Rightarrow> unit km" where
  "kinit1 vstart vend = seqs [
     initlock KmemLock,
     modsh (\<lambda>x. x\<lparr>kmem := (kmem x)\<lparr>use_lock := False\<rparr>\<rparr>),
     freerange vstart vend]"

definition kinit2 :: "u32 \<Rightarrow> u32 \<Rightarrow> unit km" where
  "kinit2 vstart vend = seqs [
     freerange vstart vend,
     modsh (\<lambda>x. x\<lparr>kmem := (kmem x)\<lparr>use_lock := True\<rparr>\<rparr>)]"

section \<open>The free list\<close>

fun flist :: "mem \<Rightarrow> u32 \<Rightarrow> u32 list \<Rightarrow> bool" where
  "flist m a [] = (a = 0)"
| "flist m a (p # ps) = (a = p \<and> p \<noteq> 0 \<and> flist m (rd32 m p) ps)"

definition free_ok :: "shared \<Rightarrow> u32 list \<Rightarrow> bool" where
  "free_ok x ps \<longleftrightarrow> flist (mem x) (freelist (kmem x)) ps \<and> distinct ps \<and> list_all (page_ok x) ps"

definition pages :: "u32 \<Rightarrow> u32 \<Rightarrow> u32 list" where
  "pages p vend = map (\<lambda>i. p + 4096 * of_nat i) [0..<(unat vend - unat p) div 4096]"

text \<open>What kalloc and kfree work on: the shared state once the lock is held.\<close>

definition at_lock :: "kst \<Rightarrow> shared" where
  "at_lock s = (if use_lock (kmem (sh s)) then sh (interfere s) else sh s)"

lemma kalloc_run:
  assumes "KmemLock \<notin> set (held s)" and "use_lock (kmem (at_lock s)) = use_lock (kmem (sh s))"
  shows "\<exists>t. kalloc s = Ok (freelist (kmem (at_lock s))) t \<and> held t = held s \<and> curp t = curp s \<and>
    (others s = [] \<longrightarrow> others t = []) \<and>
    sh t = (let x = at_lock s in if freelist (kmem x) = 0 then x
            else x\<lparr>kmem := (kmem x)\<lparr>freelist := rd32 (mem x) (freelist (kmem x))\<rparr>\<rparr>)"
  using assms
  by (cases "use_lock (kmem (sh s))") (simp_all add: kalloc_def kdefs at_lock_def Let_def)

lemma kfree_run:
  assumes "KmemLock \<notin> set (held s)" and "page_ok (sh s) v"
    and "u = s\<lparr>sh := (sh s)\<lparr>mem := memset (mem (sh s)) v 1 PGSIZE\<rparr>\<rparr>"
    and "use_lock (kmem (at_lock u)) = use_lock (kmem (sh s))"
  shows "\<exists>t. kfree v s = Ok () t \<and> held t = held s \<and> curp t = curp s \<and> (others s = [] \<longrightarrow> others t = []) \<and>
    sh t = (let x = at_lock u in x\<lparr>mem := wr32 (mem x) v (freelist (kmem x)), kmem := (kmem x)\<lparr>freelist := v\<rparr>\<rparr>)"
  using assms
  by (cases "use_lock (kmem (sh s))") (simp_all add: kfree_def kdefs at_lock_def Let_def)

lemma flist_outside:
  assumes "flist m a ps" and "\<And>p i. p \<in> set ps \<Longrightarrow> i < 4 \<Longrightarrow> m' (p + of_nat i) = m (p + of_nat i)"
  shows "flist m' a ps"
  using assms
proof (induction ps arbitrary: a)
  case (Cons p ps)
  have "rd32 m' p = rd32 m p"
    unfolding rd32_def using Cons.prems(2)[of p] by (intro arg_cong[of _ _ join32] bytes_cong) simp
  then show ?case using Cons by simp
qed simp

lemma free_ok_zero: "free_ok x ps \<Longrightarrow> freelist (kmem x) = 0 \<longleftrightarrow> ps = []"
  by (cases ps) (auto simp: free_ok_def)

lemma page_ok_kmem [simp]: "page_ok (x\<lparr>kmem := k\<rparr>) v = page_ok x v" "page_ok (x\<lparr>mem := m\<rparr>) v = page_ok x v"
  by (simp_all add: page_ok_def)

lemma free_ok_alloc:
  assumes "free_ok x (v # ps)"
  shows "freelist (kmem x) = v"
    and "free_ok (x\<lparr>kmem := (kmem x)\<lparr>freelist := rd32 (mem x) v\<rparr>\<rparr>) ps"
  using assms by (auto simp: free_ok_def list_all_iff)

lemma free_ok_free:
  assumes "free_ok x ps" and "page_ok x v" and "v \<notin> set ps" and "v \<noteq> 0"
  shows "free_ok (x\<lparr>mem := wr32 (mem x) v (freelist (kmem x)), kmem := (kmem x)\<lparr>freelist := v\<rparr>\<rparr>) (v # ps)"
proof -
  have "flist (wr32 (mem x) v (freelist (kmem x))) (freelist (kmem x)) ps"
  proof (rule flist_outside)
    fix p i assume p: "p \<in> set ps" and i: "i < (4 :: nat)"
    then have "4096 \<le> unat (p + of_nat i - v)"
      using assms by (intro page_apart) (auto simp: free_ok_def page_ok_def list_all_iff)
    then show "wr32 (mem x) v (freelist (kmem x)) (p + of_nat i) = mem x (p + of_nat i)"
      unfolding wr32_def by (intro blit_outside) simp
  qed (use assms in \<open>simp add: free_ok_def\<close>)
  then show ?thesis using assms by (simp add: free_ok_def list_all_iff)
qed

lemma page_ok_nonzero: "page_ok x v \<Longrightarrow> v \<noteq> 0"
  by (auto simp: page_ok_def V2P_def)

lemma memset_page_free_ok:
  assumes "free_ok x ps" and "page_ok x v" and "v \<notin> set ps"
  shows "free_ok (x\<lparr>mem := memset (mem x) v c PGSIZE\<rparr>) ps"
proof -
  have "flist (memset (mem x) v c PGSIZE) (freelist (kmem x)) ps"
  proof (rule flist_outside)
    fix p i assume p: "p \<in> set ps" and i: "i < (4 :: nat)"
    then have "4096 \<le> unat (p + of_nat i - v)"
      using assms by (intro page_apart) (auto simp: free_ok_def page_ok_def list_all_iff)
    then show "memset (mem x) v c PGSIZE (p + of_nat i) = mem x (p + of_nat i)"
      unfolding memset_blit by (intro blit_outside) simp
  qed (use assms in \<open>simp add: free_ok_def\<close>)
  then show ?thesis using assms by (simp add: free_ok_def list_all_iff)
qed

section \<open>The allocator as an interface\<close>

text \<open>What a client may rely on in an undisturbed run: \<open>inv x ps\<close> says that \<open>ps\<close> are the free
  pages of \<open>x\<close>.\<close>

definition calm :: "kst \<Rightarrow> bool" where
  "calm s \<longleftrightarrow> KmemLock \<notin> set (held s) \<and> others s = []"

definition same_thread :: "kst \<Rightarrow> kst \<Rightarrow> bool" where
  "same_thread s t \<longleftrightarrow> held t = held s \<and> curp t = curp s \<and> others t = others s"

locale page_allocator =
  fixes inv :: "shared \<Rightarrow> u32 list \<Rightarrow> bool"
    and valid :: "shared \<Rightarrow> u32 \<Rightarrow> bool"
    and alloc :: "u32 km"
    and free :: "u32 \<Rightarrow> unit km"
  assumes inv_distinct: "inv x ps \<Longrightarrow> distinct ps"
    and inv_valid: "inv x ps \<Longrightarrow> p \<in> set ps \<Longrightarrow> valid x p \<and> p \<noteq> 0"
    and alloc_some: "calm s \<Longrightarrow> inv (sh s) (v # ps) \<Longrightarrow>
      \<exists>t. alloc s = Ok v t \<and> same_thread s t \<and> inv (sh t) ps \<and> mem (sh t) = mem (sh s) \<and> valid (sh t) = valid (sh s)"
    and alloc_none: "calm s \<Longrightarrow> inv (sh s) [] \<Longrightarrow> \<exists>t. alloc s = Ok 0 t \<and> same_thread s t \<and> sh t = sh s"
    and free_page: "calm s \<Longrightarrow> inv (sh s) ps \<Longrightarrow> valid (sh s) v \<Longrightarrow> v \<notin> set ps \<Longrightarrow>
      \<exists>t. free v s = Ok () t \<and> same_thread s t \<and> inv (sh t) (v # ps) \<and> valid (sh t) = valid (sh s) \<and>
        (\<forall>a. 4096 \<le> unat (a - v) \<longrightarrow> mem (sh t) a = mem (sh s) a)"
begin

lemma calm_same: "calm s \<Longrightarrow> same_thread s t \<Longrightarrow> calm t"
  by (simp add: calm_def same_thread_def)

lemma alloc_free:
  assumes "calm s" and "inv (sh s) (v # ps)"
  shows "\<exists>t. sq alloc (free v) s = Ok () t \<and> inv (sh t) (v # ps)"
proof -
  obtain t where t: "alloc s = Ok v t" "same_thread s t" "inv (sh t) ps" "valid (sh t) = valid (sh s)"
    using alloc_some[OF assms] by blast
  have "v \<notin> set ps" "valid (sh s) v" using inv_distinct[OF assms(2)] inv_valid[OF assms(2)] by auto
  then show ?thesis
    using free_page[OF calm_same[OF assms(1) t(2)] t(3)] t by (auto simp: sq_def bnd_eq_Ok)
qed

text \<open>Pages handed out one after the other are all different, until the pool is empty.\<close>

lemma alloc_list:
  assumes "calm s" and "inv (sh s) (vs @ ps)"
  shows "\<exists>t. foldr (\<lambda>m k. bnd m (\<lambda>v. bnd k (\<lambda>vs. ret (v # vs)))) (replicate (length vs) alloc) (ret []) s
      = Ok vs t \<and> same_thread s t \<and> inv (sh t) ps \<and> mem (sh t) = mem (sh s)"
  using assms
proof (induction vs arbitrary: s)
  case Nil
  then show ?case by (simp add: ret_def same_thread_def)
next
  case (Cons v vs)
  obtain t where t: "alloc s = Ok v t" "same_thread s t" "inv (sh t) (vs @ ps)" "mem (sh t) = mem (sh s)"
    using alloc_some[of s v "vs @ ps"] Cons.prems by auto
  then show ?case using Cons.IH[of t] calm_same[OF Cons.prems(1) t(2)]
    by (auto simp: bnd_def ret_def same_thread_def)
qed

end

lemma at_lock_calm: "calm s \<Longrightarrow> at_lock s = sh s"
  by (simp add: at_lock_def calm_def)

lemma kalloc_calm:
  assumes s: "calm s" "free_ok (sh s) (v # ps)"
  shows "\<exists>t. kalloc s = Ok v t \<and> same_thread s t \<and>
    sh t = (sh s)\<lparr>kmem := (kmem (sh s))\<lparr>freelist := rd32 (mem (sh s)) v\<rparr>\<rparr>"
proof -
  have v: "freelist (kmem (sh s)) = v" "v \<noteq> 0" using s(2) by (auto simp: free_ok_def)
  have k: "KmemLock \<notin> set (held s)" "others s = []" using s(1) by (simp_all add: calm_def)
  show ?thesis
    using kalloc_run[OF k(1)] k(2) v unfolding at_lock_calm[OF s(1)] by (auto simp: same_thread_def Let_def)
qed

interpretation ka: page_allocator free_ok page_ok kalloc kfree
proof unfold_locales
  fix x ps p
  show "free_ok x ps \<Longrightarrow> distinct ps" by (simp add: free_ok_def)
  show "free_ok x ps \<Longrightarrow> p \<in> set ps \<Longrightarrow> page_ok x p \<and> p \<noteq> 0"
    by (auto simp: free_ok_def list_all_iff dest: page_ok_nonzero)
next
  fix s v ps assume s: "calm s" "free_ok (sh s) (v # ps)"
  obtain t where t: "kalloc s = Ok v t" "same_thread s t"
      "sh t = (sh s)\<lparr>kmem := (kmem (sh s))\<lparr>freelist := rd32 (mem (sh s)) v\<rparr>\<rparr>"
    using kalloc_calm[OF s] by blast
  show "\<exists>t. kalloc s = Ok v t \<and> same_thread s t \<and> free_ok (sh t) ps \<and> mem (sh t) = mem (sh s) \<and> page_ok (sh t) = page_ok (sh s)"
    using t free_ok_alloc(2)[OF s(2)] by (intro exI[of _ t]) (simp add: fun_eq_iff)
next
  fix s assume s: "calm s" "free_ok (sh s) []"
  have k: "KmemLock \<notin> set (held s)" "others s = []" using s(1) by (simp_all add: calm_def)
  show "\<exists>t. kalloc s = Ok 0 t \<and> same_thread s t \<and> sh t = sh s"
    using kalloc_run[OF k(1)] k(2) free_ok_zero[OF s(2)] unfolding at_lock_calm[OF s(1)]
    by (auto simp: same_thread_def)
next
  fix s ps v assume s: "calm s" "free_ok (sh s) ps" "page_ok (sh s) v" "v \<notin> set ps"
  let ?x = "(sh s)\<lparr>mem := memset (mem (sh s)) v 1 PGSIZE\<rparr>"
  let ?y = "?x\<lparr>mem := wr32 (mem ?x) v (freelist (kmem ?x)), kmem := (kmem ?x)\<lparr>freelist := v\<rparr>\<rparr>"
  have l: "at_lock (s\<lparr>sh := ?x\<rparr>) = ?x"
    by (rule at_lock_calm[THEN trans]) (use s in \<open>simp_all add: calm_def\<close>)
  obtain t where t: "kfree v s = Ok () t" "same_thread s t" "sh t = ?y"
    using kfree_run[OF _ s(3) refl] s(1) unfolding l by (auto simp: calm_def same_thread_def Let_def)
  moreover have "free_ok ?y (v # ps)"
    using s by (intro free_ok_free memset_page_free_ok) (auto dest: page_ok_nonzero)
  moreover have "mem ?y a = mem (sh s) a" if "4096 \<le> unat (a - v)" for a
    using that by (simp add: wr32_def memset_blit blit_outside)
  ultimately show "\<exists>t. kfree v s = Ok () t \<and> same_thread s t \<and> free_ok (sh t) (v # ps) \<and> page_ok (sh t) = page_ok (sh s) \<and>
        (\<forall>a. 4096 \<le> unat (a - v) \<longrightarrow> mem (sh t) a = mem (sh s) a)"
    by (intro exI[of _ t]) (simp add: fun_eq_iff)
qed

section \<open>Filling the pool\<close>

lemma pages_step:
  assumes "\<not> p + PGSIZE \<le> p" and "p + PGSIZE \<le> vend"
  shows "pages p vend = p # pages (p + PGSIZE) vend"
proof -
  have e: "unat (p + 4096) = unat p + 4096"
    using assms(1) by (auto simp: word_le_nat_alt unat_plus_if' split: if_splits)
  then have "(unat vend - unat p) div 4096 = Suc ((unat vend - unat (p + 4096)) div 4096)"
    using assms(2) by (simp add: word_le_nat_alt le_div_geq diff_diff_eq)
  then show ?thesis
    unfolding pages_def by (simp only: upt_conv_Cons[OF zero_less_Suc] map_Suc_upt[symmetric]) (simp add: algebra_simps)
qed

lemma pages_none: "\<not> p + PGSIZE \<le> p \<Longrightarrow> \<not> p + PGSIZE \<le> vend \<Longrightarrow> pages p vend = []"
  by (auto simp: pages_def word_le_nat_alt unat_plus_if' split: if_splits)

lemma page_ok_range:
  assumes "end_addr (lay x) \<le> p" "KERNBASE \<le> p" "p mod PGSIZE = 0" "p < KERNBASE + PHYSTOP"
  shows "page_ok x p"
  using assms by (simp add: page_ok_def V2P_def word_le_nat_alt word_less_nat_alt unat_sub_if' not_le not_less)

lemma freerange_loop_run:
  assumes "calm s" "free_ok (sh s) ps" "p \<le> vend" "vend \<le> KERNBASE + PHYSTOP"
    "\<forall>q\<in>set (pages p vend). page_ok (sh s) q" "\<forall>q\<in>set ps. q < p"
  shows "\<exists>t. freerange_loop p vend s = Ok () t \<and> same_thread s t \<and> free_ok (sh t) (rev (pages p vend) @ ps) \<and>
    page_ok (sh t) = page_ok (sh s)"
  using assms
proof (induction p vend arbitrary: s ps rule: freerange_loop.induct)
  case (1 p vend)
  have w: "\<not> p + PGSIZE \<le> p"
    using "1.prems"(3,4) by (simp add: word_le_nat_alt unat_plus_if')
  show ?case
  proof (cases "p + PGSIZE \<le> vend")
    case True
    note st = pages_step[OF w True]
    obtain t where t: "kfree p s = Ok () t" "same_thread s t" "free_ok (sh t) (p # ps)" "page_ok (sh t) = page_ok (sh s)"
      using ka.free_page[OF "1.prems"(1,2), of p] "1.prems"(5,6) st by auto
    have "\<exists>u. freerange_loop (p + PGSIZE) vend t = Ok () u \<and> same_thread t u \<and>
        free_ok (sh u) (rev (pages (p + PGSIZE) vend) @ p # ps) \<and> page_ok (sh u) = page_ok (sh t)"
    proof (rule "1.IH"[OF w True])
      show "calm t" using "1.prems"(1) t(2) by (rule ka.calm_same)
      show "\<forall>q\<in>set (pages (p + PGSIZE) vend). page_ok (sh t) q" using "1.prems"(5) st t(4) by simp
      show "\<forall>q\<in>set (p # ps). q < p + PGSIZE" using "1.prems"(6) w by auto
    qed (use True t(3) "1.prems"(4) in simp_all)
    then show ?thesis using t w True st
      by (subst freerange_loop.simps) (auto simp: sq_def bnd_def same_thread_def)
  next
    case False
    then show ?thesis using w pages_none[OF w False] "1.prems"
      by (subst freerange_loop.simps) (simp add: ret_def same_thread_def)
  qed
qed

lemma pages_nth:
  assumes "q \<in> set (pages p vend)"
  obtains i where "unat q = unat p + 4096 * i" "unat q + 4096 \<le> unat vend"
proof -
  obtain i where i: "q = p + 4096 * of_nat i" "i < (unat vend - unat p) div 4096"
    using assms by (auto simp: pages_def)
  have l: "unat p + 4096 * i + 4096 \<le> unat vend" using i(2) by auto
  then have "unat (4096 * of_nat i :: u32) = 4096 * i" using unat_lt32(2)[of vend]
    by (subst unat_mult_lem[THEN iffD1]) simp_all
  then have "unat q = unat p + 4096 * i" using l i(1) unat_lt32(2)[of vend] by (simp add: unat_plus_if')
  then show ?thesis using that l by simp
qed

lemma pages_below: "q \<in> set (pages p vend) \<Longrightarrow> q < vend"
  by (erule pages_nth) (simp add: word_less_nat_alt)

lemma pages_ok:
  assumes "q \<in> set (pages p vend)" "p mod PGSIZE = 0" "end_addr (lay x) \<le> p" "KERNBASE \<le> p"
    "vend \<le> KERNBASE + PHYSTOP"
  shows "page_ok x q"
proof -
  obtain i where q: "unat q = unat p + 4096 * i" "unat q + 4096 \<le> unat vend"
    using assms(1) by (rule pages_nth)
  have "unat p mod 4096 = 0" using assms(2) unfolding mod_PGSIZE .
  then have "unat q mod 4096 = 0" using q(1) by presburger
  then have "q mod PGSIZE = 0" unfolding mod_PGSIZE .
  then show ?thesis using assms(3-5) q
    by (intro page_ok_range) (simp_all add: word_le_nat_alt word_less_nat_alt)
qed

text \<open>C15: a call of \<open>kalloc\<close> takes the first page off the free list that it finds once it holds
  \<open>kmem.lock\<close>, whatever the other CPUs did before it got the lock, and returns 0 exactly when
  the pool is empty; it writes no memory and keeps the allocator's invariant.\<close>

theorem kalloc_takes_page:
  assumes "KmemLock \<notin> set (held s)" and "use_lock (kmem (at_lock s)) = use_lock (kmem (sh s))"
    and "free_ok (at_lock s) ps"
  shows "\<exists>t. kalloc s = Ok (case ps of [] \<Rightarrow> 0 | v # _ \<Rightarrow> v) t \<and> held t = held s \<and> free_ok (sh t) (tl ps) \<and>
     mem (sh t) = mem (at_lock s)"
  using kalloc_run[OF assms(1,2)] assms(3) free_ok_alloc free_ok_zero[OF assms(3)]
  by (cases ps) (fastforce simp: Let_def)+

text \<open>C16: \<open>kfree\<close> panics on an address that is not page aligned, lies below the kernel's end or
  is not backed by physical memory, in every state.  On any other address it puts the page in
  front of the free list that it finds once it holds \<open>kmem.lock\<close>: if that list was well formed and
  the page was not on it, the new list is well formed; and if the other CPUs left the page
  alone, every byte of it behind the link is 1 afterwards.  No other memory is written.\<close>

theorem kfree_returns_page:
  assumes "u = s\<lparr>sh := (sh s)\<lparr>mem := memset (mem (sh s)) v 1 PGSIZE\<rparr>\<rparr>"
  shows "if v mod PGSIZE \<noteq> 0 \<or> v < end_addr (lay (sh s)) \<or> PHYSTOP \<le> V2P v then kfree v s = Panic ''kfree''
     else KmemLock \<notin> set (held s) \<and> use_lock (kmem (at_lock u)) = use_lock (kmem (sh s)) \<and>
         lay (at_lock u) = lay (sh s) \<longrightarrow>
       (\<exists>t. kfree v s = Ok () t \<and> held t = held s \<and> freelist (kmem (sh t)) = v \<and>
         rd32 (mem (sh t)) v = freelist (kmem (at_lock u)) \<and>
         (\<forall>ps. free_ok (at_lock u) ps \<and> v \<notin> set ps \<longrightarrow> free_ok (sh t) (v # ps)) \<and>
         (\<forall>a. 4 \<le> unat (a - v) \<longrightarrow> mem (sh t) a = mem (at_lock u) a) \<and>
         (\<forall>a. 4 \<le> unat (a - v) \<and> unat (a - v) < 4096 \<and> mem (at_lock u) a = mem (sh u) a \<longrightarrow> mem (sh t) a = 1))"
proof (cases "page_ok (sh s) v")
  case True
  let ?x = "at_lock u"
  let ?y = "?x\<lparr>mem := wr32 (mem ?x) v (freelist (kmem ?x)), kmem := (kmem ?x)\<lparr>freelist := v\<rparr>\<rparr>"
  have fr: "free_ok ?y (v # ps)" if "free_ok ?x ps" "v \<notin> set ps" "lay ?x = lay (sh s)" for ps
    using that True page_ok_nonzero[OF True] by (intro free_ok_free) (simp_all add: page_ok_def)
  have junk: "mem (sh u) a = 1" if "unat (a - v) < 4096" for a
    using that by (simp add: assms memset_blit blit_def)
  have wr: "wr32 m v w a = m a" if "4 \<le> unat (a - v)" for m w a using that by (simp add: wr32_def blit_outside)
  show ?thesis
  proof (cases "KmemLock \<notin> set (held s) \<and> use_lock (kmem ?x) = use_lock (kmem (sh s)) \<and> lay ?x = lay (sh s)")
    case t: True
    then show ?thesis using kfree_run[OF _ True assms] True fr junk wr
      by (auto simp: Let_def page_ok_def)
  qed (use True in \<open>auto simp: page_ok_def\<close>)
next
  case False
  then show ?thesis by (auto simp: kfree_def kdefs page_ok_def)
qed

theorem kalloc_takes_page_witness:
  "\<exists>t. kalloc (fresh_kst ((zeroed sample_layout)\<lparr>kmem := \<lparr>use_lock = True, freelist = 0x80400000\<rparr>\<rparr>) None [\<lambda>x. x])
     = Ok 0x80400000 t"
  using kalloc_takes_page[of "fresh_kst ((zeroed sample_layout)\<lparr>kmem := \<lparr>use_lock = True, freelist = 0x80400000\<rparr>\<rparr>) None [\<lambda>x. x]"
      "[0x80400000]"]
  by (auto simp: at_lock_def interfere_def zeroed_def free_ok_def page_ok_def V2P_def rd32_def join32_def
      bytes_def upt_rec sample_layout_def)

theorem kfree_returns_page_witness:
  "kfree 0x80400800 (fresh_kst (zeroed sample_layout) None []) = Panic ''kfree'' \<and>
   (\<exists>t. kfree 0x80400000 (fresh_kst (zeroed sample_layout) None []) = Ok () t \<and> free_ok (sh t) [0x80400000] \<and>
     mem (sh t) 0x80400FFF = 1)"
proof -
  let ?s = "fresh_kst (zeroed sample_layout) None []"
  have l: "at_lock u = sh u" if "others u = []" for u using that by (simp add: at_lock_def)
  have "kfree 0x80400800 ?s = Panic ''kfree''"
    using kfree_returns_page[of _ ?s "0x80400800", OF refl] by simp
  moreover obtain t where t: "kfree 0x80400000 ?s = Ok () t"
      and o: "\<And>ps. free_ok (sh ?s\<lparr>mem := memset (mem (sh ?s)) 0x80400000 1 PGSIZE\<rparr>) ps \<Longrightarrow> 0x80400000 \<notin> set ps \<Longrightarrow>
         free_ok (sh t) (0x80400000 # ps)"
      and j: "\<And>a. 4 \<le> unat (a - 0x80400000) \<Longrightarrow> unat (a - 0x80400000) < 4096 \<Longrightarrow> mem (sh t) a = 1"
    using kfree_returns_page[of _ ?s "0x80400000", OF refl] by (auto simp: l zeroed_def V2P_def sample_layout_def)
  moreover have "free_ok (sh t) [0x80400000]" by (rule o) (simp_all add: free_ok_def zeroed_def)
  moreover have "mem (sh t) 0x80400FFF = 1" by (rule j) simp_all
  ultimately show ?thesis by blast
qed

text \<open>C17: the two phases of the allocator's initialisation, \<open>kinit1(vstart, vmid)\<close> and
  \<open>kinit2(vmid, vend)\<close>, put every page between the kernel's end and \<open>vend\<close> on the free list
  exactly once, and turn locking on.\<close>

theorem kinit_fills_pool:
  assumes "calm s" and "freelist (kmem (sh s)) = 0" and "end_addr (lay (sh s)) \<le> vstart" "KERNBASE \<le> vstart"
    and "unat vstart + 4095 < 2 ^ 32" "PGROUNDUP vstart \<le> vmid" "vmid mod PGSIZE = 0" "vmid \<le> vend" "vend \<le> KERNBASE + PHYSTOP"
  shows "\<exists>t. sq (kinit1 vstart vmid) (kinit2 vmid vend) s = Ok () t \<and> same_thread s t \<and>
     free_ok (sh t) (rev (pages vmid vend) @ rev (pages (PGROUNDUP vstart) vmid)) \<and> use_lock (kmem (sh t))"
proof -
  let ?p = "PGROUNDUP vstart"
  let ?s = "s\<lparr>sh := (sh s)\<lparr>kmem := (kmem (sh s))\<lparr>use_lock := False\<rparr>\<rparr>\<rparr>"
  have p: "end_addr (lay (sh s)) \<le> ?p" "KERNBASE \<le> ?p" "?p \<le> vmid" "vmid \<le> KERNBASE + PHYSTOP"
    "end_addr (lay (sh s)) \<le> vmid" "KERNBASE \<le> vmid"
    using assms(3-9) PGROUNDUP_ge[OF assms(5)] by auto
  have ok: "page_ok (sh s) q" if "q \<in> set (pages ?p vmid) \<or> q \<in> set (pages vmid vend)" for q
    using that pages_ok[OF _ PGROUNDDOWN_aligned(2) p(1,2,4)] pages_ok[OF _ assms(7) p(5,6) assms(9)] by blast
  have e: "page_ok (sh ?s) = page_ok (sh s)" by (simp add: fun_eq_iff)
  have k: "kinit1 vstart vmid s = freerange_loop ?p vmid ?s"
    using assms(1) by (simp add: kinit1_def kdefs freerange_def calm_def split: res.split)
  have "\<exists>t. freerange_loop ?p vmid ?s = Ok () t \<and> same_thread ?s t \<and> free_ok (sh t) (rev (pages ?p vmid) @ []) \<and>
    page_ok (sh t) = page_ok (sh ?s)"
    using assms(1,2) p ok e by (intro freerange_loop_run) (auto simp: calm_def free_ok_def)
  then obtain t where t: "freerange_loop ?p vmid ?s = Ok () t" "same_thread s t" "free_ok (sh t) (rev (pages ?p vmid))"
      "page_ok (sh t) = page_ok (sh s)" unfolding e by (auto simp: same_thread_def)
  have "\<exists>u. freerange_loop vmid vend t = Ok () u \<and> same_thread t u \<and>
      free_ok (sh u) (rev (pages vmid vend) @ rev (pages ?p vmid)) \<and> page_ok (sh u) = page_ok (sh t)"
  proof (rule freerange_loop_run)
    show "calm t" using assms(1) t(2) by (rule ka.calm_same)
    show "\<forall>q\<in>set (rev (pages ?p vmid)). q < vmid" using pages_below by auto
  qed (use assms(8,9) t ok in auto)
  then obtain u where u: "freerange_loop vmid vend t = Ok () u" "same_thread t u"
      "free_ok (sh u) (rev (pages vmid vend) @ rev (pages ?p vmid))" by blast
  have "sq (kinit1 vstart vmid) (kinit2 vmid vend) s = Ok () (u\<lparr>sh := (sh u)\<lparr>kmem := (kmem (sh u))\<lparr>use_lock := True\<rparr>\<rparr>\<rparr>)"
    using k t(1) u(1) assms(7) by (simp add: kinit2_def freerange_def kdefs)
  then show ?thesis using t(2) u by (auto simp: same_thread_def free_ok_def list_all_iff)
qed

theorem kinit_fills_pool_witness:
  "\<exists>t. sq (kinit1 0x801166A8 0x80400000) (kinit2 0x80400000 0x8E000000) (fresh_kst (zeroed sample_layout) None [])
     = Ok () t \<and> use_lock (kmem (sh t))"
  using kinit_fills_pool[of "fresh_kst (zeroed sample_layout) None []" "0x801166A8" "0x80400000" "0x8E000000"]
  by (auto simp: calm_def zeroed_def sample_layout_def PGROUNDUP_def)

context ptable_inv
begin

lemma pres_kalloc [pres_intros]: "pres (thr W R p) J kalloc"
  unfolding kalloc_def lock_kmem_def unlock_kmem_def
  by (intro pres_intros pres_modsh_frame) simp_all

lemma pres_kfree [pres_intros]: "pres (thr W R p) J (kfree v)"
  unfolding kfree_def lock_kmem_def unlock_kmem_def
  by (intro pres_intros pres_modsh_frame) simp_all

end

end
