(* ===== verification/Vm.thy ===== *)
theory Vm
  imports Kalloc Cprintf "HOL-Library.Sublist"
begin

text \<open>
  Page tables (\<open>vm.c\<close>, \<open>mmu.h\<close>, \<open>memlayout.h\<close>).  Page directories and page tables are words
  in raw memory, addressed by kernel virtual addresses as the C code does; \<open>walkpgdir\<close> returns
  the address of an entry.  A loop over \<open>uint\<close> addresses whose counter wraps past \<open>2 ^ 32\<close>
  starts again at 0 and never ends; that outcome is \<open>Asleep\<close>.  \<open>loaduvm\<close> is with the file
  system, which it reads from.
\<close>

section \<open>Constants and macros\<close>

definition EXTMEM :: u32 where [simp]: "EXTMEM = 0x100000"
definition DEVSPACE :: u32 where [simp]: "DEVSPACE = 0xFE000000"
definition KERNLINK :: u32 where [simp]: "KERNLINK = KERNBASE + EXTMEM"
definition NPDENTRIES :: nat where [simp]: "NPDENTRIES = 1024"
definition PTE_P :: u32 where [simp]: "PTE_P = 1"
definition PTE_W :: u32 where [simp]: "PTE_W = 2"
definition PTE_U :: u32 where [simp]: "PTE_U = 4"

definition PTE_ADDR :: "u32 \<Rightarrow> u32" where
  "PTE_ADDR pte = pte AND NOT 0xFFF"

definition PTE_FLAGS :: "u32 \<Rightarrow> u32" where
  "PTE_FLAGS pte = pte AND 0xFFF"

definition PDX :: "u32 \<Rightarrow> u32" where
  "PDX va = drop_bit 22 va AND 0x3FF"

definition PTX :: "u32 \<Rightarrow> u32" where
  "PTX va = drop_bit 12 va AND 0x3FF"

definition PGADDR :: "u32 \<Rightarrow> u32 \<Rightarrow> u32 \<Rightarrow> u32" where
  "PGADDR d t off = push_bit 22 d OR push_bit 12 t OR off"

definition present :: "u32 \<Rightarrow> bool" where
  "present pte \<longleftrightarrow> pte AND PTE_P \<noteq> 0"

lemma page_offset: "unat (va - PGROUNDDOWN va) = unat va mod 4096"
proof -
  have "unat (PGROUNDDOWN va) \<le> unat va" by (simp add: unat_PGROUNDDOWN)
  then have "unat (va - PGROUNDDOWN va) = unat va - unat va div 4096 * 4096"
    by (simp add: unat_sub_if' unat_PGROUNDDOWN)
  then show ?thesis by (simp add: minus_div_mult_eq_mod)
qed

lemma page_room: "unat (PGSIZE - (va - PGROUNDDOWN va)) = 4096 - unat va mod 4096"
proof -
  have "va - PGROUNDDOWN va \<le> PGSIZE" by (simp add: word_le_nat_alt page_offset less_imp_le)
  then show ?thesis by (simp add: unat_sub page_offset)
qed

section \<open>Words in kernel memory\<close>

definition ld32 :: "u32 \<Rightarrow> u32 km" where
  [kdefs]: "ld32 a = getsh (\<lambda>x. rd32 (mem x) a)"

definition st32 :: "u32 \<Rightarrow> u32 \<Rightarrow> unit km" where
  [kdefs]: "st32 a w = modsh (\<lambda>x. x\<lparr>mem := wr32 (mem x) a w\<rparr>)"

definition memset_k :: "u32 \<Rightarrow> u32 \<Rightarrow> u32 \<Rightarrow> unit km" where
  [kdefs]: "memset_k dst c n = modsh (\<lambda>x. x\<lparr>mem := memset (mem x) dst c n\<rparr>)"

definition memmove_k :: "u32 \<Rightarrow> u32 \<Rightarrow> u32 \<Rightarrow> unit km" where
  [kdefs]: "memmove_k dst src n = modsh (\<lambda>x. x\<lparr>mem := memmove (mem x) dst src n\<rparr>)"

section \<open>Walking and mapping\<close>

definition walkpgdir :: "u32 \<Rightarrow> u32 \<Rightarrow> bool \<Rightarrow> u32 km" where
  "walkpgdir pd va alloc =
     (let pde = pd + 4 * PDX va in
      bnd (ld32 pde) (\<lambda>e.
      if present e then ret (P2V (PTE_ADDR e) + 4 * PTX va)
      else if \<not> alloc then ret 0
      else bnd kalloc (\<lambda>pgtab.
        if pgtab = 0 then ret 0
        else sq (memset_k pgtab 0 PGSIZE)
            (sq (st32 pde (V2P pgtab OR PTE_P OR PTE_W OR PTE_U))
            (ret (pgtab + 4 * PTX va))))))"

text \<open>The loop ends at \<open>final\<close> (\<open>last\<close> in the source), which is a multiple of the page size away.\<close>

function mappages_loop :: "u32 \<Rightarrow> u32 \<Rightarrow> u32 \<Rightarrow> u32 \<Rightarrow> u32 \<Rightarrow> int km" where
  "mappages_loop pd a final pa perm =
     bnd (walkpgdir pd a True) (\<lambda>pte.
      if pte = 0 then ret (- 1)
      else bnd (ld32 pte) (\<lambda>e.
        if present e then panic ''remap''
        else sq (st32 pte (pa OR perm OR PTE_P))
          (if a = final then ret 0
           else if final - a < PGSIZE then Asleep
           else mappages_loop pd (a + PGSIZE) final (pa + PGSIZE) perm)))"
  by pat_completeness auto
termination
proof (relation "measure (\<lambda>(pd, a, final, pa, perm). unat (final - a))")
  fix a final :: u32
  assume "\<not> final - a < PGSIZE"
  then have "unat (final - (a + PGSIZE)) = unat (final - a) - 4096" "4096 \<le> unat (final - a)"
    using unat_sub[of PGSIZE "final - a"] by (simp_all add: word_less_nat_alt word_le_nat_alt diff_diff_eq not_less)
  then have "unat (final - (a + PGSIZE)) < unat (final - a)" by simp
  then show "((pd, a + PGSIZE, final, pa + PGSIZE, perm), pd, a, final, pa, perm)
      \<in> measure (\<lambda>(pd, a, final, pa, perm). unat (final - a))" for pd pa perm by simp
qed simp

declare mappages_loop.simps [simp del]

definition mappages :: "u32 \<Rightarrow> u32 \<Rightarrow> u32 \<Rightarrow> u32 \<Rightarrow> u32 \<Rightarrow> int km" where
  "mappages pd va n pa perm =
     mappages_loop pd (PGROUNDDOWN va) (PGROUNDDOWN (va + n - 1)) pa perm"

section \<open>Freeing\<close>

text \<open>The next address the loop of \<open>deallocuvm\<close> looks at.\<close>

definition dealloc_next :: "u32 \<Rightarrow> u32 \<Rightarrow> u32" where
  "dealloc_next a pte = (if pte = 0 then PGADDR (PDX a + 1) 0 0 - PGSIZE else a) + PGSIZE"

definition dealloc_page :: "u32 \<Rightarrow> unit km" where
  "dealloc_page pte = whenk (pte \<noteq> 0) (bnd (ld32 pte) (\<lambda>e.
     whenk (present e)
       (let pa = PTE_ADDR e in
        if pa = 0 then panic ''kfree'' else sq (kfree (P2V pa)) (st32 pte 0))))"

function deallocuvm_loop :: "u32 \<Rightarrow> u32 \<Rightarrow> u32 \<Rightarrow> unit km" where
  "deallocuvm_loop pd a oldsz =
     (if a < oldsz then bnd (walkpgdir pd a False) (\<lambda>pte.
        sq (dealloc_page pte)
          (if dealloc_next a pte \<le> a then Asleep
           else deallocuvm_loop pd (dealloc_next a pte) oldsz))
      else ret ())"
  by pat_completeness auto
termination
  by (relation "measure (\<lambda>(pd, a, oldsz). 2 ^ 32 - unat a)")
    (auto simp: word_le_nat_alt not_le unat_lt32 intro!: diff_less_mono2)

declare deallocuvm_loop.simps [simp del]

definition deallocuvm :: "u32 \<Rightarrow> u32 \<Rightarrow> u32 \<Rightarrow> u32 km" where
  "deallocuvm pd oldsz newsz =
     (if newsz \<ge> oldsz then ret oldsz
      else sq (deallocuvm_loop pd (PGROUNDUP newsz) oldsz) (ret newsz))"

definition free_table :: "u32 \<Rightarrow> nat \<Rightarrow> unit km" where
  "free_table pd i = bnd (ld32 (pd + 4 * of_nat i)) (\<lambda>e.
     whenk (present e) (kfree (P2V (PTE_ADDR e))))"

definition freevm :: "u32 \<Rightarrow> unit km" where
  "freevm pd =
     (if pd = 0 then panic ''freevm: no pgdir''
      else seqs [
        sq (deallocuvm pd KERNBASE 0) (ret ()),
        seqs (map (free_table pd) [0..<NPDENTRIES]),
        kfree pd])"

section \<open>Kernel page tables\<close>

definition kmap :: "layout \<Rightarrow> (u32 \<times> u32 \<times> u32 \<times> u32) list" where
  "kmap l =
     [(KERNBASE, 0, EXTMEM, PTE_W),
      (KERNLINK, V2P KERNLINK, V2P (data_addr l), 0),
      (data_addr l, V2P (data_addr l), PHYSTOP, PTE_W),
      (DEVSPACE, DEVSPACE, 0, PTE_W)]"

fun setupkvm_loop :: "u32 \<Rightarrow> (u32 \<times> u32 \<times> u32 \<times> u32) list \<Rightarrow> u32 km" where
  "setupkvm_loop pd [] = ret pd"
| "setupkvm_loop pd ((virt, phys_start, phys_end, perm) # ks) =
     bnd (mappages pd virt (phys_end - phys_start) phys_start perm) (\<lambda>r.
       if r < 0 then sq (freevm pd) (ret 0) else setupkvm_loop pd ks)"

definition setupkvm :: "u32 km" where
  "setupkvm = bnd kalloc (\<lambda>pd.
     if pd = 0 then ret 0
     else sq (memset_k pd 0 PGSIZE)
       (if P2V PHYSTOP > DEVSPACE then panic ''PHYSTOP too high''
        else bnd (getsh lay) (\<lambda>l. setupkvm_loop pd (kmap l))))"

definition kvmalloc :: "unit km" where
  "kvmalloc = seqs [bnd setupkvm (\<lambda>pd. modsh (\<lambda>x. x\<lparr>kpgdir := pd\<rparr>)), switchkvm]"

section \<open>User memory\<close>

definition inituvm :: "u32 \<Rightarrow> u32 \<Rightarrow> u32 \<Rightarrow> unit km" where
  "inituvm pd init n =
     (if n \<ge> PGSIZE then panic ''inituvm: more than a page''
      else bnd kalloc (\<lambda>m.
        if m = 0 then fault ''null pointer''
        else seqs [
          memset_k m 0 PGSIZE,
          sq (mappages pd 0 PGSIZE (V2P m) (PTE_W OR PTE_U)) (ret ()),
          memmove_k m init n]))"

function allocuvm_loop :: "u32 \<Rightarrow> u32 \<Rightarrow> u32 \<Rightarrow> u32 \<Rightarrow> u32 km" where
  "allocuvm_loop pd oldsz a newsz =
     (if a < newsz then bnd kalloc (\<lambda>m.
        if m = 0 then sq (cprintf (Some (str ''allocuvm out of memory'' @ [10])) [])
          (sq (deallocuvm pd newsz oldsz) (ret 0))
        else sq (memset_k m 0 PGSIZE)
          (bnd (mappages pd a PGSIZE (V2P m) (PTE_W OR PTE_U)) (\<lambda>r.
            if r < 0 then sq (cprintf (Some (str ''allocuvm out of memory (2)'' @ [10])) [])
              (sq (deallocuvm pd newsz oldsz) (sq (kfree m) (ret 0)))
            else if a + PGSIZE \<le> a then Asleep
            else allocuvm_loop pd oldsz (a + PGSIZE) newsz)))
      else ret newsz)"
  by pat_completeness auto
termination
  by (relation "measure (\<lambda>(pd, oldsz, a, newsz). 2 ^ 32 - unat a)")
    (auto simp: word_le_nat_alt not_le unat_lt32 intro!: diff_less_mono2)

declare allocuvm_loop.simps [simp del]

definition allocuvm :: "u32 \<Rightarrow> u32 \<Rightarrow> u32 \<Rightarrow> u32 km" where
  "allocuvm pd oldsz newsz =
     (if newsz \<ge> KERNBASE then ret 0
      else if newsz < oldsz then ret oldsz
      else allocuvm_loop pd oldsz (PGROUNDUP oldsz) newsz)"

definition clearpteu :: "u32 \<Rightarrow> u32 \<Rightarrow> unit km" where
  "clearpteu pd uva = bnd (walkpgdir pd uva False) (\<lambda>pte.
     if pte = 0 then panic ''clearpteu''
     else bnd (ld32 pte) (\<lambda>e. st32 pte (e AND NOT PTE_U)))"

function copyuvm_loop :: "u32 \<Rightarrow> u32 \<Rightarrow> u32 \<Rightarrow> u32 \<Rightarrow> u32 km" where
  "copyuvm_loop pd d i n =
     (if i < n then bnd (walkpgdir pd i False) (\<lambda>pte.
        if pte = 0 then panic ''copyuvm: pte should exist''
        else bnd (ld32 pte) (\<lambda>e.
          if \<not> present e then panic ''copyuvm: page not present''
          else bnd kalloc (\<lambda>m.
            if m = 0 then sq (freevm d) (ret 0)
            else sq (memmove_k m (P2V (PTE_ADDR e)) PGSIZE)
              (bnd (mappages d i PGSIZE (V2P m) (PTE_FLAGS e)) (\<lambda>r.
                if r < 0 then sq (kfree m) (sq (freevm d) (ret 0))
                else if i + PGSIZE \<le> i then Asleep
                else copyuvm_loop pd d (i + PGSIZE) n)))))
      else ret d)"
  by pat_completeness auto
termination
  by (relation "measure (\<lambda>(pd, d, i, n). 2 ^ 32 - unat i)")
    (auto simp: word_le_nat_alt not_le unat_lt32 intro!: diff_less_mono2)

declare copyuvm_loop.simps [simp del]

definition copyuvm :: "u32 \<Rightarrow> u32 \<Rightarrow> u32 km" where
  "copyuvm pd n = bnd setupkvm (\<lambda>d. if d = 0 then ret 0 else copyuvm_loop pd d 0 n)"

definition uva2ka :: "u32 \<Rightarrow> u32 \<Rightarrow> u32 km" where
  "uva2ka pd uva = bnd (walkpgdir pd uva False) (\<lambda>pte.
     if pte = 0 then fault ''null pointer''
     else bnd (ld32 pte) (\<lambda>e.
       if \<not> present e then ret 0
       else if e AND PTE_U = 0 then ret 0
       else ret (P2V (PTE_ADDR e))))"

text \<open>The buffer copied from is the list of its bytes.\<close>

function copyout :: "u32 \<Rightarrow> u32 \<Rightarrow> u8 list \<Rightarrow> int km" where
  "copyout pd va buf =
     (if buf = [] then ret 0
      else let va0 = PGROUNDDOWN va in bnd (uva2ka pd va0) (\<lambda>pa0.
        if pa0 = 0 then ret (- 1)
        else let n = min (unat (PGSIZE - (va - va0))) (length buf) in
          sq (modsh (\<lambda>x. x\<lparr>mem := blit (mem x) (pa0 + (va - va0)) (take n buf)\<rparr>))
             (copyout pd (va0 + PGSIZE) (drop n buf))))"
  by pat_completeness auto
termination
  by (relation "measure (\<lambda>(pd, va, buf). length buf)") (auto simp: page_room simp del: PGSIZE_def)

declare copyout.simps [simp del]

section \<open>Address translation\<close>

definition vlookup :: "mem \<Rightarrow> u32 \<Rightarrow> u32 \<Rightarrow> u32 option" where
  "vlookup m pd va =
     (let e = rd32 m (pd + 4 * PDX va) in
      if \<not> present e then None
      else let q = rd32 m (P2V (PTE_ADDR e) + 4 * PTX va) in if present q then Some q else None)"

text \<open>The page table pages of \<open>pd\<close>, by directory index.\<close>

definition table_of :: "mem \<Rightarrow> u32 \<Rightarrow> nat \<Rightarrow> u32 option" where
  "table_of m pd i = (let e = rd32 m (pd + 4 * of_nat i) in
     if present e then Some (P2V (PTE_ADDR e)) else None)"

definition pd_ok :: "shared \<Rightarrow> u32 list \<Rightarrow> u32 \<Rightarrow> bool" where
  "pd_ok x ps pd \<longleftrightarrow> free_ok x ps \<and> page_ok x pd \<and> pd \<notin> set ps \<and>
     (\<forall>i<NPDENTRIES. \<forall>t. table_of (mem x) pd i = Some t \<longrightarrow> page_ok x t \<and> t \<noteq> pd \<and> t \<notin> set ps) \<and>
     (\<forall>i<NPDENTRIES. \<forall>j<NPDENTRIES. \<forall>t. table_of (mem x) pd i = Some t \<longrightarrow> table_of (mem x) pd j = Some t \<longrightarrow> i = j)"

lemma index_take_bit: "PDX va = take_bit 10 (drop_bit 22 va)" "PTX va = take_bit 10 (drop_bit 12 va)"
proof -
  have "(0x3FF :: u32) = mask 10" by (simp add: mask_eq_exp_minus_1)
  then show "PDX va = take_bit 10 (drop_bit 22 va)" "PTX va = take_bit 10 (drop_bit 12 va)"
    by (simp_all add: PDX_def PTX_def take_bit_eq_mask)
qed

lemma unat_index: "unat (PDX va) < 1024" "unat (PTX va) < 1024"
  using take_bit_nat_less_exp[of 10] by (simp_all add: index_take_bit unsigned_take_bit_eq)

lemma rd32_blit_outside:
  assumes "\<And>i. i < 4 \<Longrightarrow> length bs \<le> unat (b + of_nat i - a)"
  shows "rd32 (blit m a bs) b = rd32 m b"
  unfolding rd32_def using assms by (intro arg_cong[of _ _ join32] bytes_cong) (simp add: blit_outside)

lemma unat_slot: "i < 1024 \<Longrightarrow> k < 4 \<Longrightarrow> unat p + 4096 \<le> 2 ^ 32 \<Longrightarrow> unat (p + 4 * of_nat i + of_nat k) = unat p + 4 * i + k" for p :: u32
proof -
  assume a: "i < 1024" "k < 4" "unat p + 4096 \<le> 2 ^ 32"
  have "4 * of_nat i + of_nat k = (of_nat (4 * i + k) :: u32)" by simp
  moreover have "unat (of_nat (4 * i + k) :: u32) = 4 * i + k" using a by (intro unat_of_nat32) simp
  ultimately show ?thesis using a by (simp add: unat_plus_if' add.assoc)
qed

lemma page_room32:
  assumes "p mod PGSIZE = 0"
  shows "unat p + 4096 \<le> 2 ^ 32"
proof -
  obtain k where k: "unat p = 4096 * k" using assms unfolding mod_PGSIZE by (metis mod_0_imp_dvd dvdE)
  then have "k < 1048576" using unat_lt32(2)[of p] by simp
  then show ?thesis using k by simp
qed

lemma slot_apart:
  assumes "p mod PGSIZE = 0" "q mod PGSIZE = 0" "i < 1024" "j < 1024" "p \<noteq> q \<or> i \<noteq> j" "k < 4"
  shows "4 \<le> unat (p + 4 * of_nat i + of_nat k - (q + 4 * of_nat j))" (is "4 \<le> unat (?x - ?y)")
proof -
  have r: "unat p + 4096 \<le> 2 ^ 32" "unat q + 4096 \<le> 2 ^ 32" using assms(1,2) by (simp_all only: page_room32)
  obtain a b where ab: "unat p = 4096 * a" "unat q = 4096 * b"
    using assms(1,2) unfolding mod_PGSIZE by (metis mod_0_imp_dvd dvdE)
  define M where "M = 1024 * a + i"
  define N where "N = 1024 * b + j"
  have x: "unat ?x = 4 * M + k" using unat_slot[OF assms(3,6) r(1)] ab by (simp add: M_def)
  have y: "unat ?y = 4 * N" using unat_slot[OF assms(4) _ r(2), of 0] ab by (simp add: N_def)
  have "p = q \<longleftrightarrow> a = b" using ab by (auto simp: word_unat_eq_iff)
  then have n: "M \<noteq> N" using assms(3,4,5) by (auto simp: M_def N_def)
  have l: "4 * N + 4 \<le> 2 ^ 32" using r(2) ab(2) assms(4) by (simp add: N_def)
  show ?thesis
  proof (cases "unat ?y \<le> unat ?x")
    case True
    then have "unat (?x - ?y) = 4 * M + k - 4 * N" by (simp only: unat_sub_if' if_True x y)
    then show ?thesis using True n assms(6) unfolding x y by auto
  next
    case False
    then have "unat (?x - ?y) = 4 * M + k + 2 ^ 32 - 4 * N" by (simp only: unat_sub_if' if_False x y) simp
    then show ?thesis using l by linarith
  qed
qed

lemma rd32_wr32_slot:
  assumes "p mod PGSIZE = 0" "q mod PGSIZE = 0" "i < 1024" "j < 1024"
  shows "rd32 (wr32 m (q + 4 * of_nat j) w) (p + 4 * of_nat i) =
     (if p = q \<and> i = j then w else rd32 m (p + 4 * of_nat i))"
proof (cases "p = q \<and> i = j")
  case False
  then show ?thesis using slot_apart[OF assms] by (auto simp: wr32_def intro!: rd32_blit_outside)
qed simp

lemma replicate_4: "replicate 4 x = [x, x, x, x]"
  by (simp add: numeral_eq_Suc)

lemma rd32_memset_page:
  assumes "p mod PGSIZE = 0" "q mod PGSIZE = 0" "i < 1024"
  shows "rd32 (memset m q 0 PGSIZE) (p + 4 * of_nat i) = (if p = q then 0 else rd32 m (p + 4 * of_nat i))"
proof (cases "p = q")
  case True
  have "memset m q 0 PGSIZE (q + 4 * of_nat i + of_nat k) = 0" if "k < 4" for k
  proof -
    have "4 * of_nat i + of_nat k = (of_nat (4 * i + k) :: u32)" by simp
    moreover have "unat (of_nat (4 * i + k) :: u32) < 4096" using assms(3) that by (subst unat_of_nat32) simp_all
    ultimately show ?thesis by (simp add: memset_blit blit_def add.assoc)
  qed
  then have "bytes (memset m q 0 PGSIZE) (q + 4 * of_nat i) 4 = replicate 4 0"
    by (intro nth_equalityI) (simp_all only: length_bytes length_replicate nth_bytes nth_replicate)
  then show ?thesis using True by (simp add: rd32_def join32_def replicate_4)
next
  case False
  have "4096 \<le> unat (p + 4 * of_nat i + of_nat k - q)" if "k < 4" for k
    using page_apart[OF assms(2,1), of "4 * i + k"] False that assms(3) by (simp add: add.assoc)
  then show ?thesis using False by (simp add: memset_blit rd32_blit_outside)
qed

lemma flags_addr:
  assumes "a mod PGSIZE = 0" and "f < 4096"
  shows "PTE_ADDR (a OR f) = a"
proof -
  have m: "PTE_ADDR x = x AND NOT (mask 12 :: u32)" for x by (simp add: PTE_ADDR_def mask_eq_exp_minus_1)
  have "take_bit 12 a = 0" using assms by (simp add: take_bit_eq_mod)
  then have b: "\<not> bit a n" if "n < 12" for n
    using that bit_take_bit_iff[of 12 a n] by simp
  have "take_bit 12 f = f" using assms(2) by (simp add: take_bit_eq_mod word_unat_eq_iff unat_mod word_less_nat_alt)
  then have f: "\<not> bit f n" if "12 \<le> n" for n
    using that bit_take_bit_iff[of 12 f n] by simp
  show ?thesis unfolding m
    by (rule bit_word_eqI) (use b f in \<open>auto simp: bit_and_iff bit_or_iff bit_not_iff bit_mask_iff not_le\<close>)
qed

lemma present_bit: "present e \<longleftrightarrow> bit e 0"
  by (simp add: present_def and_one_eq mod_2_eq_odd bit_0)

lemma present_or [simp]: "present (a OR b) \<longleftrightarrow> present a \<or> present b" "present PTE_P" "\<not> present 0"
  by (simp only: present_bit bit_or_iff) (simp_all add: present_def)

lemma present_7 [simp]: "present 7" "present 1"
  by (simp_all add: present_def)

lemma V2P_aligned:
  assumes "v mod PGSIZE = 0"
  shows "V2P v mod PGSIZE = 0"
proof -
  obtain k where k: "unat v = 4096 * k" using assms unfolding mod_PGSIZE by (metis mod_0_imp_dvd dvdE)
  have "unat (V2P v) = 4096 * (if 524288 \<le> k then k - 524288 else k + 524288)"
    using k by (auto simp: V2P_def unat_sub_if')
  then show ?thesis unfolding mod_PGSIZE by simp
qed

lemma vlookup_table:
  "vlookup m pd va = (case table_of m pd (unat (PDX va)) of None \<Rightarrow> None
     | Some t \<Rightarrow> let q = rd32 m (t + 4 * PTX va) in if present q then Some q else None)"
  by (simp add: vlookup_def table_of_def Let_def)

lemma pd_okD:
  assumes "pd_ok x ps pd"
  shows "free_ok x ps" "page_ok x pd" "pd \<notin> set ps"
    "i < NPDENTRIES \<Longrightarrow> table_of (mem x) pd i = Some t \<Longrightarrow> page_ok x t"
    "i < NPDENTRIES \<Longrightarrow> table_of (mem x) pd i = Some t \<Longrightarrow> t \<noteq> pd"
    "i < NPDENTRIES \<Longrightarrow> table_of (mem x) pd i = Some t \<Longrightarrow> t \<notin> set ps"
    "i < NPDENTRIES \<Longrightarrow> j < NPDENTRIES \<Longrightarrow> table_of (mem x) pd i = Some t \<Longrightarrow> table_of (mem x) pd j = Some t \<Longrightarrow> i = j"
  using assms unfolding pd_ok_def by blast+

lemma page_okD: "page_ok x v \<Longrightarrow> v mod PGSIZE = 0"
  by (simp only: page_ok_def)

lemma flist_wr32_slot:
  assumes "free_ok x ps" "page_ok x t" "t \<notin> set ps" "j < 1024"
  shows "flist (wr32 (mem x) (t + 4 * of_nat j) w) (freelist (kmem x)) ps"
proof (rule flist_outside)
  fix p k assume "p \<in> set ps" "k < (4 :: nat)"
  moreover from this have "p mod PGSIZE = 0" "p \<noteq> t"
    using assms by (auto simp: free_ok_def list_all_iff page_ok_def)
  ultimately have "4 \<le> unat (p + 4 * of_nat 0 + of_nat k - (t + 4 * of_nat j))"
    using assms(4) page_okD[OF assms(2)] by (intro slot_apart) simp_all
  then show "wr32 (mem x) (t + 4 * of_nat j) w (p + of_nat k) = mem x (p + of_nat k)"
    unfolding wr32_def by (intro blit_outside) simp
qed (use assms in \<open>simp add: free_ok_def\<close>)

text \<open>Writing an entry of a page table.\<close>

lemma pte_write:
  assumes ok: "pd_ok x ps pd" and tb: "table_of (mem x) pd (unat (PDX va)) = Some t"
    and m': "m' = wr32 (mem x) (t + 4 * PTX va) w"
  shows "j < NPDENTRIES \<Longrightarrow> table_of m' pd j = table_of (mem x) pd j"
    and "vlookup m' pd va' = (if PDX va' = PDX va \<and> PTX va' = PTX va then (if present w then Some w else None)
           else vlookup (mem x) pd va')"
    and "pd_ok (x\<lparr>mem := m'\<rparr>) ps pd"
proof -
  note u = unat_index
  have t: "page_ok x t" "t \<noteq> pd" "t \<notin> set ps" using pd_okD(4-6)[OF ok _ tb] u(1)[of va] by simp_all
  have al: "t mod PGSIZE = 0" "pd mod PGSIZE = 0" using t(1) pd_okD(2)[OF ok] by (simp_all only: page_okD)
  have m: "m' = wr32 (mem x) (t + 4 * of_nat (unat (PTX va))) w" by (simp add: m')
  show tt: "table_of m' pd j = table_of (mem x) pd j" if "j < NPDENTRIES" for j
    using that t(2) rd32_wr32_slot[OF al(2,1), of j "unat (PTX va)"] u(2)[of va] by (simp add: table_of_def m)
  show "vlookup m' pd va' = (if PDX va' = PDX va \<and> PTX va' = PTX va then (if present w then Some w else None)
           else vlookup (mem x) pd va')"
  proof (cases "table_of (mem x) pd (unat (PDX va'))")
    case None
    then show ?thesis using tt[of "unat (PDX va')"] u(1)[of va'] tb by (auto simp: vlookup_table)
  next
    case (Some t')
    have t': "t' mod PGSIZE = 0" using pd_okD(4)[OF ok _ Some] u(1)[of va'] page_okD by simp
    have "t' = t \<longleftrightarrow> PDX va' = PDX va"
      using pd_okD(7)[OF ok _ _ Some, of "unat (PDX va)"] tb Some u(1)[of va] u(1)[of va']
      by (auto simp: word_unat_eq_iff)
    moreover have "rd32 m' (t' + 4 * PTX va') = (if t' = t \<and> PTX va' = PTX va then w else rd32 (mem x) (t' + 4 * PTX va'))"
      using rd32_wr32_slot[OF t' al(1) u(2)[of va'] u(2)[of va]] by (simp add: m word_unat_eq_iff[symmetric])
    moreover have "table_of m' pd (unat (PDX va')) = Some t'" using tt[of "unat (PDX va')"] u(1)[of va'] Some by simp
    ultimately show ?thesis using Some by (simp add: vlookup_table)
  qed
  have "flist m' (freelist (kmem x)) ps"
    unfolding m using pd_okD(1)[OF ok] t u(2) by (intro flist_wr32_slot)
  then show "pd_ok (x\<lparr>mem := m'\<rparr>) ps pd"
    using ok tt by (auto simp: pd_ok_def free_ok_def list_all_iff)
qed

text \<open>Adding an empty page table.\<close>

lemma table_write:
  assumes ok: "pd_ok x (v # ps) pd" and i: "i < NPDENTRIES" and none: "table_of (mem x) pd i = None"
    and m': "m' = wr32 (memset (mem x) v 0 PGSIZE) (pd + 4 * of_nat i) (V2P v OR PTE_P OR PTE_W OR PTE_U)"
    and x': "x' = x\<lparr>kmem := (kmem x)\<lparr>freelist := rd32 (mem x) v\<rparr>, mem := m'\<rparr>"
  shows "table_of m' pd i = Some v" and "vlookup m' pd va = vlookup (mem x) pd va" and "pd_ok x' ps pd"
proof -
  have v: "page_ok x v" "v \<noteq> pd" "v \<notin> set ps" "v mod PGSIZE = 0" "V2P v mod PGSIZE = 0"
  proof -
    show "page_ok x v" "v \<noteq> pd" "v \<notin> set ps" using pd_okD(1,3)[OF ok] by (auto simp: free_ok_def)
    from this(1) show "v mod PGSIZE = 0" by (rule page_okD)
    then show "V2P v mod PGSIZE = 0" by (rule V2P_aligned)
  qed
  have pd: "pd mod PGSIZE = 0" using pd_okD(2)[OF ok] by (rule page_okD)
  have i': "i < 1024" using i by simp
  have r: "rd32 m' (q + 4 * of_nat j) = (if q = pd \<and> j = i then V2P v OR PTE_P OR PTE_W OR PTE_U
      else if q = v then 0 else rd32 (mem x) (q + 4 * of_nat j))" if "q mod PGSIZE = 0" "j < 1024" for q j
    using rd32_wr32_slot[OF that(1) pd that(2) i'] rd32_memset_page[OF that(1) v(4) that(2)] by (auto simp: m')
  have "PTE_ADDR (V2P v OR (PTE_P OR PTE_W OR PTE_U)) = V2P v"
    by (rule flags_addr[OF v(5)]) simp
  then have tt: "table_of m' pd j = (if j = i then Some v else table_of (mem x) pd j)" if "j < 1024" for j
    using r[OF pd that] v(2) by (auto simp: table_of_def Let_def or.assoc)
  show "table_of m' pd i = Some v" using tt i' by simp
  have ne: "t \<noteq> v \<and> page_ok x t \<and> t \<noteq> pd" if "table_of (mem x) pd j = Some t" "j < 1024" for j t
    using pd_okD(4-6)[OF ok _ that(1)] that(2) by auto
  show "vlookup m' pd va = vlookup (mem x) pd va"
  proof (cases "unat (PDX va) = i")
    case True
    have "rd32 m' (v + 4 * PTX va) = 0" using r[OF v(4) unat_index(2)[of va]] v(2) by simp
    then show ?thesis using True none tt[OF unat_index(1)[of va]] by (simp add: vlookup_table)
  next
    case False
    have "rd32 m' (t + 4 * PTX va) = rd32 (mem x) (t + 4 * PTX va)"
      if "table_of (mem x) pd (unat (PDX va)) = Some t" for t
      using ne[OF that unat_index(1)] r[OF page_okD unat_index(2)[of va], of x t] by simp
    then show ?thesis using False tt[OF unat_index(1)[of va]] by (simp add: vlookup_table split: option.split)
  qed
  have f: "free_ok x' ps"
  proof -
    let ?y = "x\<lparr>kmem := (kmem x)\<lparr>freelist := rd32 (mem x) v\<rparr>\<rparr>"
    have "free_ok (?y\<lparr>mem := memset (mem ?y) v 0 PGSIZE\<rparr>) ps"
      using free_ok_alloc(2)[OF pd_okD(1)[OF ok]] v by (intro memset_page_free_ok) simp_all
    from flist_wr32_slot[OF this, of pd i] this show ?thesis
      using pd_okD(2,3)[OF ok] i' by (auto simp: x' m' free_ok_def list_all_iff)
  qed
  have pk: "page_ok x' = page_ok x" by (simp add: x' fun_eq_iff)
  show "pd_ok x' ps pd"
    unfolding pd_ok_def pk using f pd_okD(2,3)[OF ok] tt ne v pd_okD(6,7)[OF ok]
    by (auto simp: x' split: if_splits)
qed

section \<open>Walking and mapping are correct\<close>

lemma slot_nonzero: "page_ok x t \<Longrightarrow> t + 4 * PTX va \<noteq> 0"
proof
  assume t: "page_ok x t" and z: "t + 4 * PTX va = 0"
  have "unat (t + 4 * PTX va) = unat t + 4 * unat (PTX va)"
    using unat_slot[OF unat_index(2)[of va] _ page_room32[OF page_okD[OF t]], of 0] by simp
  then have "unat t = 0" using z by simp
  then show False using page_ok_nonzero[OF t] by (simp add: unat_eq_0)
qed

lemma walkpgdir_alloc:
  assumes calm: "calm s" and ok: "pd_ok (sh s) ps pd"
  obtains (slot) t ps' tb where "walkpgdir pd va True s = Ok (tb + 4 * PTX va) t" "same_thread s t"
      "pd_ok (sh t) ps' pd" "table_of (mem (sh t)) pd (unat (PDX va)) = Some tb"
      "\<And>va'. vlookup (mem (sh t)) pd va' = vlookup (mem (sh s)) pd va'" "suffix ps' ps" "length ps \<le> Suc (length ps')"
    | (full) t where "walkpgdir pd va True s = Ok 0 t" "same_thread s t" "sh t = sh s" "ps = []"
proof (cases "table_of (mem (sh s)) pd (unat (PDX va))")
  case (Some tb)
  then have "walkpgdir pd va True s = Ok (tb + 4 * PTX va) s"
    by (auto simp: walkpgdir_def kdefs table_of_def Let_def split: if_splits)
  then show ?thesis using slot[of tb s ps] Some ok by (simp add: same_thread_def)
next
  case None
  then have np: "\<not> present (rd32 (mem (sh s)) (pd + 4 * PDX va))"
    by (auto simp: table_of_def Let_def split: if_splits)
  show ?thesis
  proof (cases ps)
    case Nil
    then obtain t where "kalloc s = Ok 0 t" "same_thread s t" "sh t = sh s"
      using ka.alloc_none[OF calm] pd_okD(1)[OF ok] by auto
    then show ?thesis using full[of t] np Nil by (simp add: walkpgdir_def kdefs Let_def)
  next
    case (Cons v ps')
    let ?k = "(sh s)\<lparr>kmem := (kmem (sh s))\<lparr>freelist := rd32 (mem (sh s)) v\<rparr>\<rparr>"
    let ?m = "wr32 (memset (mem (sh s)) v 0 PGSIZE) (pd + 4 * of_nat (unat (PDX va))) (V2P v OR PTE_P OR PTE_W OR PTE_U)"
    obtain t where t: "kalloc s = Ok v t" "same_thread s t" "sh t = ?k"
      using kalloc_calm[OF calm] pd_okD(1)[OF ok] Cons by blast
    have v: "v \<noteq> 0" using pd_okD(1)[OF ok] Cons by (simp add: free_ok_def)
    let ?t = "t\<lparr>sh := ?k\<lparr>mem := ?m\<rparr>\<rparr>"
    have w: "walkpgdir pd va True s = Ok (v + 4 * PTX va) ?t"
      using np t v by (simp add: walkpgdir_def kdefs Let_def)
    have i: "unat (PDX va) < NPDENTRIES" using unat_index(1)[of va] by simp
    note tw = table_write[OF ok[unfolded Cons] i None refl refl]
    show ?thesis
    proof (rule slot[OF w])
      show "same_thread s ?t" using t(2) by (simp add: same_thread_def)
      show "pd_ok (sh ?t) ps' pd" using tw(3) by simp
      show "table_of (mem (sh ?t)) pd (unat (PDX va)) = Some v" using tw(1) by simp
      show "vlookup (mem (sh ?t)) pd va' = vlookup (mem (sh s)) pd va'" for va' using tw(2) by simp
      show "suffix ps' ps" "length ps \<le> Suc (length ps')" using Cons by (simp_all add: suffix_ConsI)
    qed
  qed
qed

text \<open>One pass of the loop of \<open>mappages\<close>.\<close>

lemma mappages_page:
  assumes calm: "calm s" and ok: "pd_ok (sh s) ps pd" and free: "vlookup (mem (sh s)) pd a = None"
  obtains (mapped) t ps' where "pd_ok (sh t) ps' pd" "same_thread s t" "suffix ps' ps"
      "\<And>va. vlookup (mem (sh t)) pd va = (if PDX va = PDX a \<and> PTX va = PTX a then Some (pa OR perm OR PTE_P)
         else vlookup (mem (sh s)) pd va)"
      "\<And>final. mappages_loop pd a final pa perm s = (if a = final then ret 0
           else if final - a < PGSIZE then Asleep
           else mappages_loop pd (a + PGSIZE) final (pa + PGSIZE) perm) t" "length ps \<le> Suc (length ps')"
    | (full) t where "\<And>final. mappages_loop pd a final pa perm s = Ok (- 1) t" "same_thread s t" "sh t = sh s" "ps = []"
proof (rule walkpgdir_alloc[OF calm ok, of a])
  fix t ps' tb
  assume w: "walkpgdir pd a True s = Ok (tb + 4 * PTX a) t" "same_thread s t"
      "pd_ok (sh t) ps' pd" "table_of (mem (sh t)) pd (unat (PDX a)) = Some tb"
      "\<And>va'. vlookup (mem (sh t)) pd va' = vlookup (mem (sh s)) pd va'" "suffix ps' ps" "length ps \<le> Suc (length ps')"
  let ?t = "t\<lparr>sh := (sh t)\<lparr>mem := wr32 (mem (sh t)) (tb + 4 * PTX a) (pa OR perm OR PTE_P)\<rparr>\<rparr>"
  note pw = pte_write[OF w(3,4) refl, where w = "pa OR perm OR PTE_P"]
  have nz: "tb + 4 * PTX a \<noteq> 0"
    using pd_okD(4)[OF w(3) _ w(4)] unat_index(1)[of a] slot_nonzero by auto
  have np: "\<not> present (rd32 (mem (sh t)) (tb + 4 * PTX a))"
    using free w(4) w(5)[of a] by (simp add: vlookup_table Let_def split: if_splits)
  show thesis
  proof (rule mapped)
    show "pd_ok (sh ?t) ps' pd" using pw(3) by simp
    show "same_thread s ?t" using w(2) by (simp add: same_thread_def)
    show "vlookup (mem (sh ?t)) pd va = (if PDX va = PDX a \<and> PTX va = PTX a then Some (pa OR perm OR PTE_P)
         else vlookup (mem (sh s)) pd va)" for va using pw(2)[of va] w(5) by simp
    show "mappages_loop pd a final pa perm s = (if a = final then ret 0
           else if final - a < PGSIZE then Asleep
           else mappages_loop pd (a + PGSIZE) final (pa + PGSIZE) perm) ?t" for final
      using w(1) nz np by (subst mappages_loop.simps) (simp add: kdefs)
  qed (fact w(6,7))+
next
  fix t assume "walkpgdir pd a True s = Ok 0 t" "same_thread s t" "sh t = sh s" "ps = []"
  then show thesis by (intro full[of t]) (simp_all add: mappages_loop.simps[of pd a] kdefs)
qed

lemma bit_index: "bit (PDX va) k \<longleftrightarrow> k < 10 \<and> bit va (k + 22)" "bit (PTX va) k \<longleftrightarrow> k < 10 \<and> bit va (k + 12)"
  by (simp_all add: index_take_bit bit_take_bit_iff bit_drop_bit_eq add.commute)

lemma bit_PGROUNDDOWN: "bit (PGROUNDDOWN va) n \<longleftrightarrow> 12 \<le> n \<and> bit va n"
proof -
  have "PGROUNDDOWN va = va AND NOT (mask 12)" by (simp add: PGROUNDDOWN_def mask_eq_exp_minus_1)
  then have "bit (PGROUNDDOWN va) n \<longleftrightarrow> n < LENGTH(32) \<and> bit va n \<and> \<not> n < 12"
    by (simp only: bit_and_iff bit_not_iff bit_mask_iff) auto
  then show ?thesis using bit_imp_le_length[of va n] by auto
qed

lemma PGROUNDDOWN_PGADDR: "PGROUNDDOWN va = PGADDR (PDX va) (PTX va) 0"
proof (rule bit_word_eqI)
  fix n assume "n < LENGTH(32)"
  then show "bit (PGROUNDDOWN va) n = bit (PGADDR (PDX va) (PTX va) 0) n"
    by (cases "n < 12"; cases "n < 22")
      (auto simp: PGADDR_def bit_PGROUNDDOWN bit_or_iff bit_push_bit_iff bit_index)
qed

lemma index_PGROUNDDOWN: "PDX (PGROUNDDOWN va) = PDX va" "PTX (PGROUNDDOWN va) = PTX va"
  by (rule bit_word_eqI; simp add: bit_index bit_PGROUNDDOWN)+

lemma pdx_ptx: "PDX va = PDX a \<and> PTX va = PTX a \<longleftrightarrow> PGROUNDDOWN va = PGROUNDDOWN a"
  using index_PGROUNDDOWN[of va] index_PGROUNDDOWN[of a] PGROUNDDOWN_PGADDR[of va] PGROUNDDOWN_PGADDR[of a] by metis

lemma PGROUNDDOWN_id: "a mod PGSIZE = 0 \<Longrightarrow> PGROUNDDOWN a = a"
proof -
  assume "a mod PGSIZE = 0"
  then have "unat (PGROUNDDOWN a) = unat a" unfolding mod_PGSIZE by (auto simp: unat_PGROUNDDOWN)
  then show ?thesis by (simp only: word_unat_eq_iff)
qed

lemma aligned_diff:
  assumes "q mod PGSIZE = 0" "a mod PGSIZE = 0"
  shows "(q - a) mod PGSIZE = 0"
proof -
  obtain j k where jk: "unat q = 4096 * j" "unat a = 4096 * k"
    using assms unfolding mod_PGSIZE by (metis mod_0_imp_dvd dvdE)
  have "unat (q - a) = 4096 * (if k \<le> j then j - k else j + 1048576 - k)"
    using jk by (auto simp: unat_sub_if' diff_mult_distrib2)
  then show ?thesis unfolding mod_PGSIZE by simp
qed

lemma aligned_next: "a mod PGSIZE = 0 \<Longrightarrow> (a + PGSIZE) mod PGSIZE = 0"
proof -
  assume "a mod PGSIZE = 0"
  then obtain k where k: "unat a = 4096 * k" unfolding mod_PGSIZE by (metis mod_0_imp_dvd dvdE)
  then have "unat (a + PGSIZE) = 4096 * (if k + 1 < 1048576 then k + 1 else k + 1 - 1048576)"
    by (auto simp: unat_plus_if')
  then show "(a + PGSIZE) mod PGSIZE = 0" unfolding mod_PGSIZE by simp
qed

lemma same_thread_trans: "same_thread s t \<Longrightarrow> same_thread t u \<Longrightarrow> same_thread s u"
  by (simp add: same_thread_def)

text \<open>The translations after the first \<open>n\<close> bytes from \<open>a\<close> on have been mapped to \<open>pa\<close> and up.\<close>

definition maps_range :: "mem \<Rightarrow> mem \<Rightarrow> u32 \<Rightarrow> u32 \<Rightarrow> u32 \<Rightarrow> u32 \<Rightarrow> nat \<Rightarrow> bool" where
  "maps_range m m' pd a pa perm n \<longleftrightarrow> (\<forall>va. vlookup m' pd va =
     (if unat (PGROUNDDOWN va - a) < n then Some ((pa + (PGROUNDDOWN va - a)) OR perm OR PTE_P) else vlookup m pd va))"

lemma aligned_offset:
  assumes "q mod PGSIZE = 0" "a mod PGSIZE = 0" "q \<noteq> a"
  shows "4096 \<le> unat (q - a)" "unat (q - (a + PGSIZE)) = unat (q - a) - 4096"
proof -
  have "unat (q - a) mod 4096 = 0" using aligned_diff[OF assms(1,2)] unfolding mod_PGSIZE .
  then show *: "4096 \<le> unat (q - a)"
    using assms(3) by (auto simp: unat_eq_0 mod_0_imp_dvd dest!: dvd_imp_le intro: ccontr)
  show "unat (q - (a + PGSIZE)) = unat (q - a) - 4096"
    using * unat_sub[of PGSIZE "q - a"] by (simp add: diff_diff_eq word_le_nat_alt)
qed

lemma maps_range_next:
  assumes "a mod PGSIZE = 0" "n + 4096 \<le> 2 ^ 32"
    and "\<And>va. vlookup m1 pd va = (if PGROUNDDOWN va = a then Some (pa OR perm OR PTE_P) else vlookup m pd va)"
    and "maps_range m1 m2 pd (a + PGSIZE) (pa + PGSIZE) perm n"
  shows "maps_range m m2 pd a pa perm (n + 4096)"
  unfolding maps_range_def
proof
  fix va
  have wrap: "unat (a - (a + PGSIZE)) = 4294963200" by (simp add: unat_sub_if'[of 0])
  have m2: "vlookup m2 pd va = (if unat (PGROUNDDOWN va - (a + PGSIZE)) < n
      then Some ((pa + PGSIZE + (PGROUNDDOWN va - (a + PGSIZE))) OR perm OR PTE_P) else vlookup m1 pd va)"
    using assms(4) by (simp only: maps_range_def)
  show "vlookup m2 pd va = (if unat (PGROUNDDOWN va - a) < n + 4096
      then Some ((pa + (PGROUNDDOWN va - a)) OR perm OR PTE_P) else vlookup m pd va)"
  proof (cases "PGROUNDDOWN va = a")
    case True
    then show ?thesis using m2 assms(2,3) wrap by simp
  next
    case False
    note al = aligned_offset[OF PGROUNDDOWN_aligned(1) assms(1) False]
    have "pa + PGSIZE + (PGROUNDDOWN va - (a + PGSIZE)) = pa + (PGROUNDDOWN va - a)" by simp
    moreover have "unat (PGROUNDDOWN va - (a + PGSIZE)) < n \<longleftrightarrow> unat (PGROUNDDOWN va - a) < n + 4096" using al by linarith
    ultimately show ?thesis using m2 assms(3)[of va] False by (simp only: if_False)
  qed
qed

lemma maps_range_none: "maps_range m m pd a pa perm 0"
  by (simp add: maps_range_def)

lemma mappages_loop_ok:
  assumes "calm s" "pd_ok (sh s) ps pd" "a mod PGSIZE = 0" "final mod PGSIZE = 0"
    and "\<And>va. unat (PGROUNDDOWN va - a) \<le> unat (final - a) \<Longrightarrow> vlookup (mem (sh s)) pd va = None"
  shows "\<exists>r t ps' k. mappages_loop pd a final pa perm s = Ok r t \<and> same_thread s t \<and> pd_ok (sh t) ps' pd \<and> suffix ps' ps \<and>
     maps_range (mem (sh s)) (mem (sh t)) pd a pa perm (k * 4096) \<and>
     (r = 0 \<and> k * 4096 = unat (final - a) + 4096 \<or>
      r = - 1 \<and> k * 4096 \<le> unat (final - a) \<and> ps' = [] \<and> length ps \<le> k)"
  using assms
proof (induction "unat (final - a)" arbitrary: s ps a pa rule: less_induct)
  case less
  note prems = less.prems
  have a: "PGROUNDDOWN a = a" using prems(3) by (rule PGROUNDDOWN_id)
  have free: "vlookup (mem (sh s)) pd a = None" using prems(5)[of a] a by simp
  show ?case
  proof (rule mappages_page[OF prems(1,2) free, of pa perm])
    fix t ps' assume t: "pd_ok (sh t) ps' pd" "same_thread s t" "suffix ps' ps"
      "\<And>va. vlookup (mem (sh t)) pd va = (if PDX va = PDX a \<and> PTX va = PTX a then Some (pa OR perm OR PTE_P)
         else vlookup (mem (sh s)) pd va)"
      "\<And>final. mappages_loop pd a final pa perm s = (if a = final then ret 0
           else if final - a < PGSIZE then Asleep
           else mappages_loop pd (a + PGSIZE) final (pa + PGSIZE) perm) t" "length ps \<le> Suc (length ps')"
    have lt: "vlookup (mem (sh t)) pd va = (if PGROUNDDOWN va = a then Some (pa OR perm OR PTE_P)
         else vlookup (mem (sh s)) pd va)" for va using t(4)[of va] pdx_ptx[of va a] a by simp
    show ?thesis
    proof (cases "a = final")
      case True
      have "maps_range (mem (sh s)) (mem (sh t)) pd a pa perm (0 + 4096)"
        by (rule maps_range_next[OF prems(3) _ lt maps_range_none]) simp
      then show ?thesis using t(1-3) t(5)[of final] True
        by (intro exI[of _ 0] exI[of _ t] exI[of _ ps'] exI[of _ "1::nat"]) (simp add: ret_def)
    next
      case False
      note big = aligned_offset[OF prems(4,3) False[symmetric]]
      have wrap: "unat (a - (a + PGSIZE)) = 4294963200" by (simp add: unat_sub_if'[of 0])
      have lt32: "unat (final - a) < 4294967296" by (rule unat_lt32(2))
      have "\<exists>r u ps'' k. mappages_loop pd (a + PGSIZE) final (pa + PGSIZE) perm t = Ok r u \<and> same_thread t u \<and>
         pd_ok (sh u) ps'' pd \<and> suffix ps'' ps' \<and> maps_range (mem (sh t)) (mem (sh u)) pd (a + PGSIZE) (pa + PGSIZE) perm (k * 4096) \<and>
         (r = 0 \<and> k * 4096 = unat (final - (a + PGSIZE)) + 4096 \<or>
          r = - 1 \<and> k * 4096 \<le> unat (final - (a + PGSIZE)) \<and> ps'' = [] \<and> length ps' \<le> k)"
      proof (rule less.hyps)
        show "unat (final - (a + PGSIZE)) < unat (final - a)" using big by simp
        show "calm t" using prems(1) t(2) by (rule ka.calm_same)
        show "(a + PGSIZE) mod PGSIZE = 0" using prems(3) by (rule aligned_next)
        show "vlookup (mem (sh t)) pd va = None" if "unat (PGROUNDDOWN va - (a + PGSIZE)) \<le> unat (final - (a + PGSIZE))" for va
        proof -
          have ne: "PGROUNDDOWN va \<noteq> a" using that wrap big lt32 by auto
          then show ?thesis using lt[of va] prems(5)[of va] that big
              aligned_offset[OF PGROUNDDOWN_aligned(1) prems(3) ne] by simp
        qed
      qed (use t(1) prems(4) in auto)
      then obtain r u ps'' k where u: "mappages_loop pd (a + PGSIZE) final (pa + PGSIZE) perm t = Ok r u" "same_thread t u"
          "pd_ok (sh u) ps'' pd" "suffix ps'' ps'" "maps_range (mem (sh t)) (mem (sh u)) pd (a + PGSIZE) (pa + PGSIZE) perm (k * 4096)"
        and ru: "r = 0 \<and> k * 4096 = unat (final - (a + PGSIZE)) + 4096 \<or>
          r = - 1 \<and> k * 4096 \<le> unat (final - (a + PGSIZE)) \<and> ps'' = [] \<and> length ps' \<le> k"
        by blast
      have "k * 4096 < 1048576 * 4096" using ru big lt32 by linarith
      then have k: "k * 4096 + 4096 \<le> 2 ^ 32" by simp
      have "mappages_loop pd a final pa perm s = Ok r u"
        using t(5)[of final] False big u(1) by (simp add: word_less_nat_alt)
      moreover have "same_thread s u" using t(2) u(2) by (rule same_thread_trans)
      moreover have "suffix ps'' ps" using u(4) t(3) by (rule suffix_order.trans)
      moreover have "maps_range (mem (sh s)) (mem (sh u)) pd a pa perm (Suc k * 4096)"
        using maps_range_next[OF prems(3) k lt u(5)] by (simp add: add.commute)
      moreover have "r = 0 \<and> Suc k * 4096 = unat (final - a) + 4096 \<or>
          r = - 1 \<and> Suc k * 4096 \<le> unat (final - a) \<and> ps'' = [] \<and> length ps \<le> Suc k"
        using ru big t(6) by auto
      ultimately show ?thesis using u(3) by blast
    qed
  next
    fix t assume "\<And>final. mappages_loop pd a final pa perm s = Ok (- 1) t" "same_thread s t" "sh t = sh s" "ps = []"
    then show ?thesis using prems(2) maps_range_none
      by (intro exI[of _ "- 1"] exI[of _ t] exI[of _ "[]"] exI[of _ "0::nat"]) simp
  qed
qed

text \<open>C13: \<open>mappages(pgdir, va, size, pa, perm)\<close> on unmapped pages maps a prefix of the pages from
  that of \<open>va\<close> to that of \<open>va + size - 1\<close>: the first \<open>k\<close> of them translate to the physical pages
  that follow \<open>pa\<close>, with the given permissions and the present bit, and every other address
  translates as before.  Either it returns 0 and the prefix is the whole range; or it returns -1,
  at least one page of the range is left unmapped, the pool is empty, and at least as many pages
  were mapped as the pool had.  In both cases the page table stays well formed: its table pages
  are allocated, pairwise different, and none of them is on the free list.\<close>

theorem mappages_correct:
  assumes "calm s" and "pd_ok (sh s) ps pd"
    and "\<And>va'. unat (PGROUNDDOWN va' - PGROUNDDOWN va) \<le> unat (PGROUNDDOWN (va + n - 1) - PGROUNDDOWN va) \<Longrightarrow>
      vlookup (mem (sh s)) pd va' = None"
  shows "\<exists>r t ps' k. mappages pd va n pa perm s = Ok r t \<and> same_thread s t \<and> pd_ok (sh t) ps' pd \<and> suffix ps' ps \<and>
     (\<forall>va'. vlookup (mem (sh t)) pd va' =
        (if unat (PGROUNDDOWN va' - PGROUNDDOWN va) < k * 4096
         then Some ((pa + (PGROUNDDOWN va' - PGROUNDDOWN va)) OR perm OR PTE_P)
         else vlookup (mem (sh s)) pd va')) \<and>
     (r = 0 \<and> k * 4096 = unat (PGROUNDDOWN (va + n - 1) - PGROUNDDOWN va) + 4096 \<or>
      r = - 1 \<and> k * 4096 \<le> unat (PGROUNDDOWN (va + n - 1) - PGROUNDDOWN va) \<and> ps' = [] \<and> length ps \<le> k)"
  unfolding mappages_def maps_range_def[symmetric] using assms
  by (intro mappages_loop_ok) (simp_all only: PGROUNDDOWN_aligned)

definition one_dir :: shared where
  "one_dir = (zeroed sample_layout)\<lparr>kmem := \<lparr>use_lock = True, freelist = 0x80401000\<rparr>\<rparr>"

lemma one_dir_ok: "pd_ok one_dir [0x80401000] 0x80400000" "vlookup (mem one_dir) pd va = None"
  by (auto simp: one_dir_def zeroed_def pd_ok_def free_ok_def page_ok_def table_of_def vlookup_def rd32_def
      bytes_def join32_def V2P_def sample_layout_def upt_rec Let_def)

theorem mappages_correct_witness:
  "\<exists>t. mappages 0x80400000 0x1000 PGSIZE 0x500000 PTE_U (fresh_kst one_dir None []) = Ok 0 t \<and>
     vlookup (mem (sh t)) 0x80400000 0x1234 = Some 0x500005 \<and> vlookup (mem (sh t)) 0x80400000 0x2000 = None"
proof -
  have r: "PGROUNDDOWN 0x1000 = 0x1000" "PGROUNDDOWN 0x1FFF = 0x1000" "PGROUNDDOWN 0x1234 = 0x1000" "PGROUNDDOWN 0x2000 = 0x2000"
    by (simp_all add: PGROUNDDOWN_def)
  obtain t k where t: "mappages 0x80400000 0x1000 PGSIZE 0x500000 PTE_U (fresh_kst one_dir None []) = Ok 0 t" "k = 1"
    and l: "\<And>va. vlookup (mem (sh t)) 0x80400000 va = (if unat (PGROUNDDOWN va - 0x1000) < k * 4096
         then Some ((0x500000 + (PGROUNDDOWN va - 0x1000)) OR PTE_U OR PTE_P) else None)"
    using mappages_correct[of "fresh_kst one_dir None []" "[0x80401000]" "0x80400000" "0x1000" PGSIZE "0x500000" PTE_U]
    by (auto simp: calm_def one_dir_ok r)
  have "vlookup (mem (sh t)) 0x80400000 0x1234 = Some 0x500005" "vlookup (mem (sh t)) 0x80400000 0x2000 = None"
    using l[of "0x1234"] l[of "0x2000"] t(2) by (simp_all add: r PTE_U_def PTE_P_def)
  with t(1) show ?thesis by blast
qed

section \<open>Freeing an empty page table\<close>

lemma next_table:
  assumes "a < KERNBASE"
  shows "a < dealloc_next a 0"
proof -
  have u: "unat a < 2147483648" using assms by (simp add: word_less_nat_alt)
  have "unat (PDX a) = unat (drop_bit 22 a) mod 1024"
    using take_bit_eq_mod[of 10 "unat (drop_bit 22 a)"] by (simp add: index_take_bit unsigned_take_bit_eq)
  also have "unat (drop_bit 22 a) = unat a div 4194304" by (simp add: drop_bit_eq_div unat_div)
  finally have "unat (PDX a) = unat a div 4194304" using u by (simp add: div_less_iff_less_mult)
  then have d: "unat (PDX a + 1) = unat a div 4194304 + 1" using u by (simp add: unat_word_ariths)
  have "unat (push_bit 22 w) = unat w * 4194304" if "unat w \<le> 512" for w :: u32
    using that by (simp add: push_bit_eq_mult unat_word_ariths)
  moreover have "unat (PDX a + 1) \<le> 512" using d u by (simp add: less_mult_imp_div_less Suc_le_eq)
  ultimately have "unat (push_bit 22 (PDX a + 1)) = (unat a div 4194304 + 1) * 4194304" using d by simp
  moreover have "dealloc_next a 0 = push_bit 22 (PDX a + 1)" by (simp add: dealloc_next_def PGADDR_def)
  ultimately show ?thesis by (simp add: word_less_nat_alt)
qed

lemma dealloc_empty:
  assumes "\<And>i. i < NPDENTRIES \<Longrightarrow> \<not> present (rd32 (mem (sh s)) (pd + 4 * of_nat i))" and "oldsz \<le> KERNBASE"
  shows "deallocuvm_loop pd a oldsz s = Ok () s"
  using assms
proof (induction pd a oldsz rule: deallocuvm_loop.induct)
  case (1 pd a oldsz)
  show ?case
  proof (cases "a < oldsz")
    case True
    then have n: "\<not> dealloc_next a 0 \<le> a" using next_table[of a] 1(3) by (simp add: word_less_nat_alt word_le_nat_alt)
    have "\<not> present (rd32 (mem (sh s)) (pd + 4 * PDX a))" using 1(2)[of "unat (PDX a)"] unat_index(1)[of a] by simp
    then have w: "walkpgdir pd a False s = Ok 0 s" by (simp add: walkpgdir_def kdefs Let_def)
    have "deallocuvm_loop pd (dealloc_next a 0) oldsz s = Ok () s" using 1(2,3) by (intro 1(1)[OF True n])
    then show ?thesis using w n True by (subst deallocuvm_loop.simps) (simp add: bnd_def sq_def dealloc_page_def whenk_def ret_def)
  next
    case False
    then show ?thesis by (subst deallocuvm_loop.simps) (simp add: ret_def)
  qed
qed

text \<open>Freeing a page table without user pages and tables frees the directory.\<close>

lemma freevm_empty:
  assumes "\<And>i. i < NPDENTRIES \<Longrightarrow> \<not> present (rd32 (mem (sh s)) (pd + 4 * of_nat i))" and "pd \<noteq> 0"
  shows "freevm pd s = kfree pd s"
proof -
  have "deallocuvm pd KERNBASE 0 s = Ok 0 s"
    unfolding deallocuvm_def using dealloc_empty[OF assms(1)] by (simp add: sq_def bnd_def ret_def)
  moreover have "seqs (map (free_table pd) ks) s = Ok () s" if "set ks \<subseteq> {..<NPDENTRIES}" for ks
    using that assms(1) by (induction ks) (simp_all add: free_table_def kdefs)
  ultimately show ?thesis using assms(2)
    by (simp add: freevm_def bnd_def sq_def ret_def lessThan_atLeast0 del: NPDENTRIES_def split: res.split)
qed


section \<open>Page table code does not touch the process table\<close>

context ptable_inv
begin

lemma pres_words [pres_intros]:
  "pres (thr W R p) (rest W) (ld32 a)"
  "pres (thr W R p) (rest W) (st32 a w)"
  "pres (thr W R p) (rest W) (memset_k a c n)"
  "pres (thr W R p) (rest W) (memmove_k a b n)"
  unfolding ld32_def st32_def memset_k_def memmove_k_def by (intro pres_intros pres_modsh_frame; simp)+

lemma pres_walkpgdir [pres_intros]: "pres (thr W R p) (rest W) (walkpgdir pd va alloc)"
  unfolding walkpgdir_def Let_def by (intro pres_intros)

lemma pres_mappages_loop [pres_intros]: "pres (thr W R p) (rest W) (mappages_loop pd a final pa perm)"
proof (induction pd a final pa perm rule: mappages_loop.induct)
  case 1
  show ?case by (subst mappages_loop.simps) (intro pres_intros 1; assumption)
qed

lemma pres_mappages [pres_intros]: "pres (thr W R p) (rest W) (mappages pd va n pa perm)"
  unfolding mappages_def by (intro pres_intros)

lemma pres_dealloc_page [pres_intros]: "pres (thr W R p) (rest W) (dealloc_page pte)"
  unfolding dealloc_page_def Let_def by (intro pres_intros)

lemma pres_deallocuvm_loop [pres_intros]: "pres (thr W R p) (rest W) (deallocuvm_loop pd a oldsz)"
proof (induction pd a oldsz rule: deallocuvm_loop.induct)
  case 1
  show ?case by (subst deallocuvm_loop.simps) (intro pres_intros 1; assumption)
qed

lemma pres_deallocuvm [pres_intros]: "pres (thr W R p) (rest W) (deallocuvm pd oldsz newsz)"
  unfolding deallocuvm_def by (intro pres_intros)

lemma pres_free_table [pres_intros]: "pres (thr W R p) (rest W) (free_table pd i)"
  unfolding free_table_def by (intro pres_intros)

lemma pres_freevm [pres_intros]: "pres (thr W R p) (rest W) (freevm pd)"
  unfolding freevm_def by (intro pres_intros)

lemma pres_setupkvm_loop [pres_intros]: "pres (thr W R p) (rest W) (setupkvm_loop pd ks)"
proof (induction ks)
  case (Cons k ks)
  then show ?case by (cases k) (simp add: pres_intros)
qed (simp add: pres_intros)

lemma pres_setupkvm [pres_intros]: "pres (thr W R p) (rest W) (setupkvm)"
  unfolding setupkvm_def by (intro pres_intros)

lemma pres_inituvm [pres_intros]: "pres (thr W R p) (rest W) (inituvm pd init n)"
  unfolding inituvm_def by (intro pres_intros)

lemma pres_allocuvm_loop [pres_intros]: "pres (thr W R p) (rest W) (allocuvm_loop pd oldsz a newsz)"
proof (induction pd oldsz a newsz rule: allocuvm_loop.induct)
  case 1
  show ?case by (subst allocuvm_loop.simps) (intro pres_intros 1; assumption)
qed

lemma pres_allocuvm [pres_intros]: "pres (thr W R p) (rest W) (allocuvm pd oldsz newsz)"
  unfolding allocuvm_def by (intro pres_intros)

lemma pres_clearpteu [pres_intros]: "pres (thr W R p) (rest W) (clearpteu pd uva)"
  unfolding clearpteu_def by (intro pres_intros)

lemma pres_copyuvm_loop [pres_intros]: "pres (thr W R p) (rest W) (copyuvm_loop pd d i n)"
proof (induction pd d i n rule: copyuvm_loop.induct)
  case 1
  show ?case by (subst copyuvm_loop.simps) (intro pres_intros 1; assumption)
qed

lemma pres_copyuvm [pres_intros]: "pres (thr W R p) (rest W) (copyuvm pd n)"
  unfolding copyuvm_def by (intro pres_intros)

lemma pres_uva2ka [pres_intros]: "pres (thr W R p) (rest W) (uva2ka pd uva)"
  unfolding uva2ka_def by (intro pres_intros)

lemma pres_copyout [pres_intros]: "pres (thr W R p) (rest W) (copyout pd va buf)"
proof (induction pd va buf rule: copyout.induct)
  case (1 pd va buf)
  show ?case by (subst copyout.simps, unfold Let_def) (intro pres_intros pres_modsh_frame 1; simp)
qed

end

end
