(* ===== verification/Usercopy.thy ===== *)
theory Usercopy
  imports Vm
begin

text \<open>
  Access to user memory from the kernel: \<open>copy_from_user\<close>, \<open>copy_to_user\<close> and
  \<open>copy_str_from_user\<close> of \<open>proc.c\<close>.  A user address goes through the page table in \<open>%cr3\<close>,
  as the paging hardware does it for code in ring 0: the page has to be present, and writable
  for a store (\<open>entry.S\<close> sets \<open>CR0_WP\<close>).  A page fault in the kernel ends in \<open>panic("trap")\<close>
  of \<open>trap.c\<close>.  Kernel buffers are lists of bytes.
\<close>

section \<open>User memory\<close>

definition uaddr :: "mem \<Rightarrow> u32 \<Rightarrow> u32 \<Rightarrow> u32 option" where
  "uaddr m pd va = map_option (\<lambda>e. P2V (PTE_ADDR e) + (va AND 0xFFF)) (vlookup m pd va)"

definition ucan_write :: "mem \<Rightarrow> u32 \<Rightarrow> u32 \<Rightarrow> bool" where
  "ucan_write m pd va = (case vlookup m pd va of None \<Rightarrow> False | Some e \<Rightarrow> e AND PTE_W \<noteq> 0)"

definition uload :: "mem \<Rightarrow> u32 \<Rightarrow> u32 \<Rightarrow> u8 option" where
  "uload m pd va = map_option m (uaddr m pd va)"

definition ustore :: "mem \<Rightarrow> u32 \<Rightarrow> u32 \<Rightarrow> u8 \<Rightarrow> mem option" where
  "ustore m pd va b =
     (if ucan_write m pd va then map_option (\<lambda>a. m(a := b)) (uaddr m pd va) else None)"

fun uloads :: "mem \<Rightarrow> u32 \<Rightarrow> u32 \<Rightarrow> nat \<Rightarrow> u8 list option" where
  "uloads m pd va 0 = Some []"
| "uloads m pd va (Suc n) = (case uload m pd va of None \<Rightarrow> None
     | Some b \<Rightarrow> map_option (\<lambda>bs. b # bs) (uloads m pd (va + 1) n))"

fun ustores :: "mem \<Rightarrow> u32 \<Rightarrow> u32 \<Rightarrow> u8 list \<Rightarrow> mem option" where
  "ustores m pd va [] = Some m"
| "ustores m pd va (b # bs) = (case ustore m pd va b of None \<Rightarrow> None
     | Some m' \<Rightarrow> ustores m' pd (va + 1) bs)"

definition page_dir :: "u32 km" where
  [kdefs]: "page_dir = gets (\<lambda>s. P2V (cr3 s))"

definition read_user :: "u32 \<Rightarrow> nat \<Rightarrow> u8 list km" where
  [kdefs]: "read_user va n = bnd page_dir (\<lambda>pd. bnd (getsh mem) (\<lambda>m.
     case uloads m pd va n of None \<Rightarrow> panic ''trap'' | Some bs \<Rightarrow> ret bs))"

definition write_user :: "u32 \<Rightarrow> u8 list \<Rightarrow> unit km" where
  [kdefs]: "write_user va bs = bnd page_dir (\<lambda>pd. bnd (getsh mem) (\<lambda>m.
     case ustores m pd va bs of None \<Rightarrow> panic ''trap'' | Some m' \<Rightarrow> modsh (\<lambda>x. x\<lparr>mem := m'\<rparr>)))"

section \<open>Copies under the lock of the address space\<close>

definition curprocess :: "nat km" where
  [kdefs]: "curprocess = bnd curproc (\<lambda>p. bnd (getp p process) deref)"

text \<open>The check on a user range \<open>[va, va + n)\<close>, in \<open>uint\<close> arithmetic.\<close>

definition range_ok :: "nat \<Rightarrow> u32 \<Rightarrow> u32 \<Rightarrow> bool km" where
  [kdefs]: "range_ok q va n = getp q (\<lambda>r. \<not> (va \<ge> sz r \<or> va + n > sz r))"

text \<open>\<open>None\<close> is the null pointer the function returns on a bad range.\<close>

definition copy_from_user :: "u32 \<Rightarrow> u32 \<Rightarrow> u8 list option km" where
  "copy_from_user src n = bnd curprocess (\<lambda>q. sq (acquire (VLock q)) (bnd (range_ok q src n) (\<lambda>ok.
     if \<not> ok then sq (release (VLock q)) (ret None)
     else bnd (read_user src (unat n)) (\<lambda>bs. sq (release (VLock q)) (ret (Some bs))))))"

definition copy_to_user :: "u32 \<Rightarrow> u8 list \<Rightarrow> bool km" where
  "copy_to_user dst bs = bnd curprocess (\<lambda>q. sq (acquire (VLock q)) (bnd (range_ok q dst (of_nat (length bs))) (\<lambda>ok.
     if \<not> ok then sq (release (VLock q)) (ret False)
     else sq (write_user dst bs) (sq (release (VLock q)) (ret True)))))"

text \<open>The loop of \<open>copy_str_from_user\<close>: the bytes stored and where \<open>src\<close> stops.\<close>

fun copy_str_loop :: "mem \<Rightarrow> u32 \<Rightarrow> u32 \<Rightarrow> nat \<Rightarrow> u32 \<Rightarrow> (u8 list \<times> u32) option" where
  "copy_str_loop m pd n 0 src = Some ([], src)"
| "copy_str_loop m pd n (Suc limit) src =
     (if src < n then case uload m pd src of None \<Rightarrow> None | Some c \<Rightarrow>
        if c = 0 then Some ([0], src + 1)
        else map_option (\<lambda>(bs, e). (c # bs, e)) (copy_str_loop m pd n limit (src + 1))
      else Some ([], src))"

text \<open>The result and the bytes stored at \<open>dst\<close>.  The count \<open>i\<close> is the number of bytes stored
  before the NUL; callers pass limits far below \<open>2 ^ 31\<close>.\<close>

definition copy_str_from_user :: "u32 \<Rightarrow> nat \<Rightarrow> (int \<times> u8 list) km" where
  "copy_str_from_user src limit = bnd curprocess (\<lambda>q. sq (acquire (VLock q)) (bnd (getp q sz) (\<lambda>n.
     bnd page_dir (\<lambda>pd. bnd (getsh mem) (\<lambda>m. case copy_str_loop m pd n limit src of
       None \<Rightarrow> panic ''trap''
     | Some (bs, e) \<Rightarrow> sq (release (VLock q))
         (ret (if e = n then - 1 else int (length (takeWhile (\<lambda>c. c \<noteq> 0) bs)), bs)))))))"

section \<open>User copies and the process table\<close>

context ptable_inv
begin

lemma pres_page_dir [pres_intros]: "pres (thr W R p) (rest W) page_dir"
  unfolding page_dir_def by (intro pres_intros)

lemma pres_read_user [pres_intros]: "pres (thr W R p) (rest W) (read_user va n)"
  unfolding read_user_def by (intro pres_intros)

lemma pres_write_user [pres_intros]: "pres (thr W R p) (rest W) (write_user va bs)"
  unfolding write_user_def by (intro pres_intros pres_modsh_frame) simp_all

lemma pres_curprocess [pres_intros]: "pres (thr W R p) (rest W) curprocess"
  unfolding curprocess_def by (intro pres_intros)

lemma pres_range_ok [pres_intros]: "pres (thr W R p) (rest W) (range_ok q va n)"
  unfolding range_ok_def by (intro pres_intros)

lemma pres_copy_from_user [pres_intros]: "pres (thr W R p) (rest W) (copy_from_user src n)"
  unfolding copy_from_user_def by (intro pres_intros)

lemma pres_copy_to_user [pres_intros]: "pres (thr W R p) (rest W) (copy_to_user dst bs)"
  unfolding copy_to_user_def by (intro pres_intros)

lemma pres_copy_str_from_user [pres_intros]: "pres (thr W R p) (rest W) (copy_str_from_user src limit)"
  unfolding copy_str_from_user_def by (intro pres_intros)

end

end
