(* ===== verification/Console.thy ===== *)
theory Console
  imports Inode Usercopy
begin

text \<open>
  The console device (\<open>console.c\<close>): line editing in the keyboard interrupt, reads of finished
  lines into user memory, writes to the screen; with \<open>procdump\<close> of \<open>proc.c\<close> and
  \<open>getcallerpcs\<close> of \<open>spinlock.c\<close>.  \<open>input.buf\<close> is a ring of \<open>INPUT_BUF\<close> bytes indexed by three
  counters that only grow, modulo \<open>2 ^ 32\<close>.
\<close>

section \<open>procdump\<close>

fun callerpcs_loop :: "nat \<Rightarrow> mem \<Rightarrow> u32 \<Rightarrow> u32 list" where
  "callerpcs_loop 0 m ebp = []"
| "callerpcs_loop (Suc k) m ebp =
     (if ebp = 0 \<or> ebp < KERNBASE \<or> ebp = 0xffffffff then replicate (Suc k) 0
      else rd32 m (ebp + 4) # callerpcs_loop k m (rd32 m ebp))"

definition getcallerpcs :: "mem \<Rightarrow> u32 \<Rightarrow> u32 list" where
  "getcallerpcs m v = callerpcs_loop 10 m (v - 8)"

fun state_name :: "procstate \<Rightarrow> string" where
  "state_name UNUSED = ''unused''"
| "state_name EMBRYO = ''embryo''"
| "state_name SLEEPING = ''sleep ''"
| "state_name RUNNABLE = ''runble''"
| "state_name RUNNING = ''run   ''"
| "state_name ZOMBIE = ''zombie''"

definition procdump_one :: "nat \<Rightarrow> unit km" where
  "procdump_one i = bnd (getp i id) (\<lambda>r. whenk (pstate r \<noteq> UNUSED) (seqs [
     cprintf (Some (str ''%d %s %s''))
       [Num (of_int (pid r)), Str (Some (str (state_name (pstate r)))), Str (Some (takeWhile (\<lambda>c. c \<noteq> 0) (pname r)))],
     bnd (getp i pstate) (\<lambda>st. whenk (st = SLEEPING)
       (bnd (getp i context_p) (\<lambda>c. bnd (getsh (\<lambda>x. getcallerpcs (mem x) (c_ebp (contexts x c) + 8))) (\<lambda>pcs.
         seqs (map (\<lambda>pc. cprintf (Some (str '' %p'')) [Num pc]) (takeWhile (\<lambda>pc. pc \<noteq> 0) pcs)))))),
     cprintf (Some [10]) []]))"

definition procdump :: "unit km" where
  "procdump = seqs (map procdump_one [0..<NPROC])"

section \<open>Input\<close>

definition INPUT_BUF :: nat where [simp]: "INPUT_BUF = 128"
definition CONSOLE :: nat where [simp]: "CONSOLE = 1"

definition upd_cons :: "(console \<Rightarrow> console) \<Rightarrow> unit km" where
  [kdefs]: "upd_cons f = modsh (\<lambda>x. x\<lparr>cons := f (cons x)\<rparr>)"

definition in_at :: "console \<Rightarrow> u32 \<Rightarrow> u8" where
  "in_at k i = in_buf k ! (unat i mod INPUT_BUF)"

definition in_put :: "u8 \<Rightarrow> console \<Rightarrow> console" where
  "in_put c k = k\<lparr>in_buf := (in_buf k)[unat (in_e k) mod INPUT_BUF := c], in_e := in_e k + 1\<rparr>"

text \<open>The number of characters \<open>C('U')\<close> takes back: up to the last newline or the last finished
  line.\<close>

function kill_count :: "console \<Rightarrow> u32 \<Rightarrow> nat" where
  "kill_count k e = (if e \<noteq> in_w k \<and> in_at k (e - 1) \<noteq> 10 then Suc (kill_count k (e - 1)) else 0)"
  by pat_completeness auto
termination
proof (relation "measure (\<lambda>(k, e). unat (e - in_w k))")
  fix k e assume "e \<noteq> in_w k \<and> in_at k (e - 1) \<noteq> 10"
  then have "unat (e - in_w k) = Suc (unat (e - (in_w k + 1)))" by (simp add: unat_minus_1)
  then show "((k, e - 1), k, e) \<in> measure (\<lambda>(k, e). unat (e - in_w k))" by (simp add: algebra_simps)
qed simp

declare kill_count.simps [simp del]

definition erase_one :: "unit km" where
  "erase_one = seqs [upd_cons (\<lambda>k. k\<lparr>in_e := in_e k - 1\<rparr>), consputc BACKSPACE]"

text \<open>One character \<open>c\<close> from the keyboard or the serial line; the result tells whether \<open>procdump\<close>
  is asked for.  A character is a code below 256.\<close>

definition console_key :: "nat \<Rightarrow> bool km" where
  "console_key c = bnd (getsh cons) (\<lambda>k.
     if c = 16 then ret True
     else if c = 21 then sq (seqs (replicate (kill_count k (in_e k)) erase_one)) (ret False)
     else if c = 8 \<or> c = 0x7f then sq (whenk (in_e k \<noteq> in_w k) erase_one) (ret False)
     else if c \<noteq> 0 \<and> in_e k - in_r k < of_nat INPUT_BUF then
       let c = (if c = 13 then 10 else c) in sq (seqs [
         upd_cons (in_put (of_nat c)),
         consputc c,
         bnd (getsh cons) (\<lambda>k. whenk (c = 10 \<or> c = 4 \<or> in_e k = in_r k + of_nat INPUT_BUF) (seqs [
           upd_cons (\<lambda>k. k\<lparr>in_w := in_e k\<rparr>),
           bnd (getsh (\<lambda>x. input_r_addr (lay x))) wakeup]))]) (ret False)
     else ret False)"

text \<open>\<open>cs\<close> is what \<open>getc\<close> returns before it first returns a negative number.\<close>

fun console_keys :: "nat list \<Rightarrow> bool km" where
  "console_keys [] = ret False"
| "console_keys (c # cs) = bnd (console_key c) (\<lambda>d. bnd (console_keys cs) (\<lambda>e. ret (d \<or> e)))"

definition consoleintr :: "nat list \<Rightarrow> unit km" where
  "consoleintr cs = sq (acquire ConsLock) (bnd (console_keys cs) (\<lambda>doprocdump.
     sq (release ConsLock) (whenk doprocdump procdump)))"

section \<open>Reading and writing\<close>

text \<open>The wait of \<open>consoleread\<close> for input: \<open>False\<close> when the reader is killed, or when the user
  buffer is no longer in range after a sleep.  The range is checked after each sleep, not
  before the first.\<close>

definition input_ready :: "bool option km" where
  "input_ready = bnd (getsh cons) (\<lambda>k.
     if in_r k \<noteq> in_w k then ret (Some True)
     else bnd curproc (\<lambda>p. bnd (getp p killed) (\<lambda>kl. ret (if kl then Some False else None))))"

definition input_sleep :: "nat \<Rightarrow> unit km" where
  "input_sleep q = seqs [
     release (VLock q),
     bnd (getsh (\<lambda>x. input_r_addr (lay x))) (\<lambda>c. sleep c (Some ConsLock)),
     acquire (VLock q)]"

definition input_wait :: "nat \<Rightarrow> u32 \<Rightarrow> u32 \<Rightarrow> bool km" where
  "input_wait q dst n = bnd input_ready (\<lambda>r. case r of
     Some v \<Rightarrow> ret v
   | None \<Rightarrow> sq (input_sleep q)
       (sleep_loop (bnd (range_ok q dst n) (\<lambda>ok. if ok then input_ready else ret (Some False))) (input_sleep q)))"

text \<open>The loop with \<open>n\<close> bytes still wanted; the result is \<open>n\<close> at its end, \<open>None\<close> for \<open>return -1\<close>.\<close>

fun consoleread_loop :: "nat \<Rightarrow> u32 \<Rightarrow> u32 \<Rightarrow> nat \<Rightarrow> nat option km" where
  "consoleread_loop q target dst 0 = ret (Some 0)"
| "consoleread_loop q target dst (Suc n) = bnd (input_wait q dst (of_nat (Suc n))) (\<lambda>ok.
     if \<not> ok then ret None
     else bnd (getsh (\<lambda>x. in_at (cons x) (in_r (cons x)))) (\<lambda>c.
       sq (upd_cons (\<lambda>k. k\<lparr>in_r := in_r k + 1\<rparr>))
       (if c = 4 then sq (whenk (of_nat (Suc n) < target) (upd_cons (\<lambda>k. k\<lparr>in_r := in_r k - 1\<rparr>))) (ret (Some (Suc n)))
        else sq (write_user dst [c])
          (if c = 10 then ret (Some n) else consoleread_loop q target (dst + 1) n))))"

definition consoleread :: "nat \<Rightarrow> u32 \<Rightarrow> u32 \<Rightarrow> int km" where
  "consoleread ip dst n = bnd curprocess (\<lambda>q. sq (seqs [
     iunlock (Some ip),
     acquire ConsLock,
     acquire (VLock q)])
     (bnd (range_ok q dst n) (\<lambda>ok.
       bnd (if ok then (if 0 <s n then consoleread_loop q n dst (unat n)
                        else ret (Some 0)) else ret None) (\<lambda>r. sq (seqs [
         release (VLock q),
         release ConsLock,
         ilock (Some ip)])
       (ret (case r of None \<Rightarrow> - 1 | Some k \<Rightarrow> if 0 <s n then sint (n - of_nat k) else 0))))))"

definition consolewrite :: "nat \<Rightarrow> u32 \<Rightarrow> u32 \<Rightarrow> int km" where
  "consolewrite ip buf n = bnd curprocess (\<lambda>q. sq (seqs [
     iunlock (Some ip),
     acquire ConsLock,
     acquire (VLock q)])
     (bnd (range_ok q buf n) (\<lambda>ok.
       sq (whenk (ok \<and> 0 <s n) (seqs (map (\<lambda>i. bnd (read_user (buf + of_nat i) 1) consputs) [0..<unat n])))
       (sq (seqs [
         release (VLock q),
         release ConsLock,
         ilock (Some ip)])
       (ret (if ok then sint n else - 1))))))"

definition consoleinit :: "unit km" where
  "consoleinit = seqs [
     initlock ConsLock,
     modsh (\<lambda>x. x\<lparr>devsw := (devsw x)[CONSOLE := \<lparr>dev_read = Some ConsoleRead, dev_write = Some ConsoleWrite\<rparr>]\<rparr>),
     upd_cons (\<lambda>k. k\<lparr>cons_locking := True\<rparr>)]"

section \<open>The console and the process table\<close>

context ptable_inv
begin

lemma pres_procdump [pres_intros]: "pres (thr W R p) (rest W) procdump"
  unfolding procdump_def procdump_one_def by (intro pres_intros)

lemma pres_upd_cons [pres_intros]: "pres (thr W R p) (rest W) (upd_cons f)"
  unfolding upd_cons_def by (intro pres_modsh_frame) simp_all

lemma pres_erase_one [pres_intros]: "pres (thr W R p) (rest W) erase_one"
  unfolding erase_one_def by (intro pres_intros)

lemma pres_console_key [pres_intros]: "pres (thr W R p) (rest W) (console_key c)"
  unfolding console_key_def Let_def by (intro pres_intros)

lemma pres_console_keys [pres_intros]: "pres (thr W R p) (rest W) (console_keys cs)"
  by (induction cs) (simp_all add: pres_intros)

lemma pres_consoleintr [pres_intros]: "pres (thr W R p) (rest W) (consoleintr cs)"
  unfolding consoleintr_def by (intro pres_intros)

lemma pres_input_wait [pres_intros]: "pres (thr W R p) (rest W) (input_wait q dst n)"
  unfolding input_wait_def input_ready_def input_sleep_def
  by (intro pres_intros) (simp add: thr_def thr_at_def rest_def)

lemma pres_consoleread_loop [pres_intros]: "pres (thr W R p) (rest W) (consoleread_loop q target dst n)"
  by (induction q target dst n rule: consoleread_loop.induct)
    (simp_all only: consoleread_loop.simps, intro pres_intros, (intro pres_intros; assumption))

lemma pres_consoleread [pres_intros]: "pres (thr W R p) (rest W) (consoleread ip dst n)"
  unfolding consoleread_def by (intro pres_intros)

lemma pres_consolewrite [pres_intros]: "pres (thr W R p) (rest W) (consolewrite ip buf n)"
  unfolding consolewrite_def by (intro pres_intros)

lemma pres_consoleinit [pres_intros]: "pres (thr W R p) (rest W) consoleinit"
  unfolding consoleinit_def by (intro pres_intros pres_modsh_frame) simp_all

end

end
