(* ===== verification/Fs.thy ===== *)
theory Fs
  imports Console
begin

text \<open>
  File contents, directories and path names (\<open>fs.c\<close> from \<open>readi\<close> on), with \<open>loaduvm\<close> of \<open>vm.c\<close>.
  A C string is the list of its bytes before the NUL.  A device inode calls the device's
  function through \<open>devsw\<close>.
\<close>

section \<open>Reading and writing\<close>

lemma no_wrap_measure: "\<not> b \<le> a \<Longrightarrow> 4294967296 - unat b < 4294967296 - unat a" for a b :: u32
  using unat_lt32(2)[of b] by (simp add: word_le_nat_alt diff_less_mono2)

text \<open>Where \<open>readi\<close> puts the bytes and \<open>writei\<close> takes them from: user memory, memory the kernel
  addresses directly, or a local variable of the caller.  The bytes for a local variable are
  part of the result.  A local variable lies in the thread's kernel stack, whose base stands
  for its address.\<close>

datatype rdst = ToUser u32 | ToKern u32 | ToLocal
datatype wsrc = FromUser u32 | FromLocal "u8 list"

definition stack_addr :: "u32 km" where
  [kdefs]: "stack_addr = bnd curproc (\<lambda>p. getp p kstack)"

fun dst_addr :: "rdst \<Rightarrow> u32 km" where
  "dst_addr (ToUser a) = ret a"
| "dst_addr (ToKern a) = ret a"
| "dst_addr ToLocal = stack_addr"

fun src_addr :: "wsrc \<Rightarrow> u32 km" where
  "src_addr (FromUser a) = ret a"
| "src_addr (FromLocal bs) = stack_addr"

fun dst_add :: "rdst \<Rightarrow> u32 \<Rightarrow> rdst" where
  "dst_add (ToUser a) m = ToUser (a + m)"
| "dst_add (ToKern a) m = ToKern (a + m)"
| "dst_add ToLocal m = ToLocal"

fun src_add :: "wsrc \<Rightarrow> u32 \<Rightarrow> wsrc" where
  "src_add (FromUser a) m = FromUser (a + m)"
| "src_add (FromLocal bs) m = FromLocal (drop (unat m) bs)"

text \<open>One chunk out of a block: whether the copy worked, and the bytes for a local variable.\<close>

fun put_chunk :: "rdst \<Rightarrow> u8 list \<Rightarrow> (bool \<times> u8 list) km" where
  "put_chunk (ToUser a) bs = (if bs = [] then ret (True, []) else bnd (copy_to_user a bs) (\<lambda>ok. ret (ok, [])))"
| "put_chunk (ToKern a) bs = sq (modsh (\<lambda>x. x\<lparr>mem := blit (mem x) a bs\<rparr>)) (ret (True, []))"
| "put_chunk ToLocal bs = ret (True, bs)"

fun get_chunk :: "wsrc \<Rightarrow> u32 \<Rightarrow> u8 list option km" where
  "get_chunk (FromUser a) m = (if m = 0 then ret (Some []) else copy_from_user a m)"
| "get_chunk (FromLocal bs) m = ret (Some (take (unat m) bs))"

definition call_dev :: "devfun \<Rightarrow> nat \<Rightarrow> u32 \<Rightarrow> u32 \<Rightarrow> int km" where
  "call_dev f i a n = (case f of ConsoleRead \<Rightarrow> consoleread i a n | ConsoleWrite \<Rightarrow> consolewrite i a n)"

definition dev_entry :: "u16 \<Rightarrow> devsw option km" where
  "dev_entry mj = getsh (\<lambda>x. if sint mj < 0 \<or> sint mj \<ge> NDEV then None else Some (devsw x ! nat (sint mj)))"

text \<open>The number of bytes that block holds from \<open>off\<close> on, at most \<open>left\<close>.\<close>

definition chunk :: "u32 \<Rightarrow> u32 \<Rightarrow> u32" where
  "chunk off left = min left (of_nat BSIZE - off mod of_nat BSIZE)"

lemma chunk_pos: "0 < left \<Longrightarrow> 0 < chunk off left" for left :: u32
proof -
  assume "0 < left"
  moreover have "off mod of_nat BSIZE < (of_nat BSIZE :: u32)"
    by (simp add: word_less_nat_alt unat_mod_distrib)
  then have "of_nat BSIZE - off mod of_nat BSIZE \<noteq> (0 :: u32)" by simp
  ultimately show ?thesis by (auto simp: chunk_def min_def word_gt_0)
qed

lemma chunk_left: "left \<noteq> 0 \<Longrightarrow> unat (left - chunk off left) < unat left" for left :: u32
proof -
  assume "left \<noteq> 0"
  then have "0 < unat (chunk off left)" "0 < unat left" using chunk_pos[of left off] by (simp_all add: word_gt_0 unat_gt_0)
  moreover have "chunk off left \<le> left" by (simp add: chunk_def)
  ultimately show ?thesis by (simp add: unat_sub)
qed

function readi_loop :: "nat \<Rightarrow> rdst \<Rightarrow> u32 \<Rightarrow> u32 \<Rightarrow> (bool \<times> u8 list) km" where
  "readi_loop i dst off left =
     (if left = 0 then ret (True, [])
      else bnd (bmap i (off div of_nat BSIZE)) (\<lambda>bn. bnd (geti i idev) (\<lambda>dev. bnd (bread dev bn) (\<lambda>bp.
        let m = chunk off left in
        bnd (getb bp (\<lambda>b. take (unat m) (drop (unat off mod BSIZE) (bdata b)))) (\<lambda>bs.
        bnd (put_chunk dst bs) (\<lambda>(ok, here). sq (brelse bp)
          (if \<not> ok then ret (False, [])
           else bnd (readi_loop i (dst_add dst m) (off + m) (left - m)) (\<lambda>(ok, later).
             ret (ok, here @ later)))))))))"
  by pat_completeness auto
termination
  by (relation "measure (\<lambda>(i, dst, off, left). unat left)") (auto simp: chunk_left)

declare readi_loop.simps [simp del]

definition readi :: "nat \<Rightarrow> rdst \<Rightarrow> u32 \<Rightarrow> u32 \<Rightarrow> (int \<times> u8 list) km" where
  "readi i dst off n = bnd (geti i id) (\<lambda>ip.
     if itype ip = T_DEV then bnd (dev_entry (major ip)) (\<lambda>e.
       case Option.bind e dev_read of
         None \<Rightarrow> ret (- 1, [])
       | Some f \<Rightarrow> bnd (dst_addr dst) (\<lambda>a. bnd (call_dev f i a n) (\<lambda>r. ret (r, []))))
     else if off > isz ip \<or> off + n < off then ret (- 1, [])
     else let n = (if off + n > isz ip then isz ip - off else n) in
       bnd (readi_loop i dst off n) (\<lambda>(ok, bs). ret (if ok then sint n else - 1, bs)))"

function writei_loop :: "nat \<Rightarrow> wsrc \<Rightarrow> u32 \<Rightarrow> u32 \<Rightarrow> bool km" where
  "writei_loop i src off left =
     (if left = 0 then ret True
      else bnd (bmap i (off div of_nat BSIZE)) (\<lambda>bn. bnd (geti i idev) (\<lambda>dev. bnd (bread dev bn) (\<lambda>bp.
        let m = chunk off left in
        bnd (get_chunk src m) (\<lambda>c. case c of
          None \<Rightarrow> sq (brelse bp) (ret False)
        | Some bs \<Rightarrow> sq (seqs [
              setb bp (\<lambda>b. b\<lparr>bdata := put_bytes (bdata b) (unat off mod BSIZE) bs\<rparr>),
              log_write bp,
              brelse bp])
            (writei_loop i (src_add src m) (off + m) (left - m)))))))"
  by pat_completeness auto
termination
  by (relation "measure (\<lambda>(i, src, off, left). unat left)") (auto simp: chunk_left)

declare writei_loop.simps [simp del]

definition writei :: "nat \<Rightarrow> wsrc \<Rightarrow> u32 \<Rightarrow> u32 \<Rightarrow> int km" where
  "writei i src off n = bnd (geti i id) (\<lambda>ip.
     if itype ip = T_DEV then bnd (dev_entry (major ip)) (\<lambda>e.
       case Option.bind e dev_write of
         None \<Rightarrow> ret (- 1)
       | Some f \<Rightarrow> bnd (src_addr src) (\<lambda>a. call_dev f i a n))
     else if off > isz ip \<or> off + n < off then ret (- 1)
     else if off + n > of_nat (MAXFILE * BSIZE) then ret (- 1)
     else bnd (writei_loop i src off n) (\<lambda>ok.
       if \<not> ok then ret (- 1)
       else bnd (geti i isz) (\<lambda>old.
         sq (whenk (n > 0 \<and> off + n > old) (seqs [
               seti i (\<lambda>r. r\<lparr>isz := off + n\<rparr>),
               iupdate i])) (ret (sint n)))))"

section \<open>Directories\<close>

definition DIRSIZ :: nat where [simp]: "DIRSIZ = 14"

record dirent =
  de_inum :: u16
  de_name :: "u8 list"

definition dirent_of :: "u8 list \<Rightarrow> dirent" where
  "dirent_of bs = \<lparr>de_inum = get16 bs 0, de_name = take DIRSIZ (drop 2 bs)\<rparr>"

definition dirent_bytes :: "dirent \<Rightarrow> u8 list" where
  "dirent_bytes de = split16 (de_inum de) @ de_name de"

text \<open>\<open>strncmp\<close> on two buffers, placed apart in an otherwise zero memory.\<close>

definition namecmp :: "u8 list \<Rightarrow> u8 list \<Rightarrow> int" where
  "namecmp s t = strncmp DIRSIZ (blit (blit (\<lambda>_. 0) 0 (take DIRSIZ s)) 0x100 (take DIRSIZ t)) 0 0x100"

definition strncpy_name :: "u8 list \<Rightarrow> u8 list" where
  "strncpy_name s = take DIRSIZ (s @ replicate DIRSIZ 0)"

text \<open>A match is returned with its offset, what \<open>*poff\<close> is set to.\<close>

function dirlookup_loop :: "nat \<Rightarrow> u8 list \<Rightarrow> u32 \<Rightarrow> (nat \<times> u32) option km" where
  "dirlookup_loop dp name off = bnd (geti dp isz) (\<lambda>n.
     if off < n then bnd (readi dp ToLocal off 16) (\<lambda>(r, bs).
       if r \<noteq> 16 then panic ''dirlookup read''
       else let de = dirent_of bs in
         if de_inum de \<noteq> 0 \<and> namecmp name (de_name de) = 0
         then bnd (geti dp idev) (\<lambda>dev. bnd (iget dev (ucast (de_inum de))) (\<lambda>ip. ret (Some (ip, off))))
         else if off + 16 \<le> off then Asleep else dirlookup_loop dp name (off + 16))
     else ret None)"
  by pat_completeness auto
termination
  by (relation "measure (\<lambda>(dp, name, off). 2 ^ 32 - unat off)")
    (simp_all add: no_wrap_measure)

declare dirlookup_loop.simps [simp del]

definition dirlookup :: "nat \<Rightarrow> u8 list \<Rightarrow> (nat \<times> u32) option km" where
  "dirlookup dp name = bnd (geti dp itype) (\<lambda>t.
     if t \<noteq> T_DIR then panic ''dirlookup not DIR'' else dirlookup_loop dp name 0)"

text \<open>The offset of the first empty entry, or the end of the directory.\<close>

function dirlink_loop :: "nat \<Rightarrow> u32 \<Rightarrow> u32 km" where
  "dirlink_loop dp off = bnd (geti dp isz) (\<lambda>n.
     if off < n then bnd (readi dp ToLocal off 16) (\<lambda>(r, bs).
       if r \<noteq> 16 then panic ''dirlink read''
       else if de_inum (dirent_of bs) = 0 then ret off
       else if off + 16 \<le> off then Asleep else dirlink_loop dp (off + 16))
     else ret off)"
  by pat_completeness auto
termination
  by (relation "measure (\<lambda>(dp, off). 2 ^ 32 - unat off)")
    (simp_all add: no_wrap_measure)

declare dirlink_loop.simps [simp del]

definition dirlink :: "nat \<Rightarrow> u8 list \<Rightarrow> u32 \<Rightarrow> int km" where
  "dirlink dp name ino = bnd (dirlookup dp name) (\<lambda>e. case e of
     Some (ip, off) \<Rightarrow> sq (iput ip) (ret (- 1))
   | None \<Rightarrow> bnd (dirlink_loop dp 0) (\<lambda>off.
       bnd (writei dp (FromLocal (dirent_bytes \<lparr>de_inum = ucast ino, de_name = strncpy_name name\<rparr>)) off 16) (\<lambda>r.
         if r \<noteq> 16 then panic ''dirlink'' else ret 0)))"

section \<open>Paths\<close>

definition SLASH :: u8 where [simp]: "SLASH = 47"

definition skipelem :: "u8 list \<Rightarrow> (u8 list \<times> u8 list) option" where
  "skipelem path = (let s = dropWhile (\<lambda>c. c = SLASH) path in
     if s = [] then None
     else Some (take DIRSIZ (takeWhile (\<lambda>c. c \<noteq> SLASH) s), dropWhile (\<lambda>c. c = SLASH) (dropWhile (\<lambda>c. c \<noteq> SLASH) s)))"

lemma skipelem_shorter: "skipelem path = Some (name, left) \<Longrightarrow> length left < length path"
proof -
  assume a: "skipelem path = Some (name, left)"
  let ?s = "dropWhile (\<lambda>c. c = SLASH) path"
  have s: "?s \<noteq> []" "left = dropWhile (\<lambda>c. c = SLASH) (dropWhile (\<lambda>c. c \<noteq> SLASH) ?s)"
    using a by (auto simp: skipelem_def Let_def split: if_splits)
  obtain c cs where cs: "?s = c # cs" using s(1) by (cases ?s) auto
  then have "c \<noteq> SLASH" using hd_dropWhile[OF s(1)] by simp
  then have "left = dropWhile (\<lambda>c. c = SLASH) (dropWhile (\<lambda>c. c \<noteq> SLASH) cs)"
    unfolding s(2) cs by (simp del: SLASH_def)
  then have "length left \<le> length cs"
    by (simp only:) (rule order_trans[OF length_dropWhile_le length_dropWhile_le])
  moreover have "length ?s \<le> length path" by (rule length_dropWhile_le)
  ultimately show ?thesis using cs by simp
qed

function namex_loop :: "nat \<Rightarrow> u8 list \<Rightarrow> bool \<Rightarrow> (nat \<times> u8 list) option km" where
  "namex_loop i path par = (case skipelem path of
     None \<Rightarrow> if par then sq (iput i) (ret None) else ret (Some (i, []))
   | Some (name, left) \<Rightarrow> sq (ilock (Some i)) (bnd (geti i itype) (\<lambda>t.
       if t \<noteq> T_DIR then sq (iunlockput i) (ret None)
       else if par \<and> left = [] then sq (iunlock (Some i)) (ret (Some (i, name)))
       else bnd (dirlookup i name) (\<lambda>e. case e of
           None \<Rightarrow> sq (iunlockput i) (ret None)
         | Some (next, off) \<Rightarrow> sq (iunlockput i) (namex_loop next left par)))))"
  by pat_completeness auto
termination
  by (relation "measure (\<lambda>(i, path, par). length path)") (auto simp: skipelem_shorter)

declare namex_loop.simps [simp del]

definition namex :: "u8 list \<Rightarrow> bool \<Rightarrow> (nat \<times> u8 list) option km" where
  "namex path par = bnd myproc (\<lambda>p0.
     bnd (if path \<noteq> [] \<and> hd path = SLASH then iget ROOTDEV ROOTINO
          else bnd (deref p0) (\<lambda>p. bnd (getp p process) (\<lambda>q0. bnd (deref q0) (\<lambda>q. sq (acquire (CwdLock q))
            (bnd (getp q cwd) (\<lambda>d. sq (release (CwdLock q)) (bnd (deref d) idup)))))))
       (\<lambda>ip. namex_loop ip path par))"

definition namei :: "u8 list \<Rightarrow> nat option km" where
  "namei path = bnd (namex path False) (\<lambda>r. ret (map_option fst r))"

definition nameiparent :: "u8 list \<Rightarrow> (nat \<times> u8 list) option km" where
  "nameiparent path = namex path True"

section \<open>Loading a program segment\<close>

function loaduvm_loop :: "u32 \<Rightarrow> u32 \<Rightarrow> nat \<Rightarrow> u32 \<Rightarrow> u32 \<Rightarrow> u32 \<Rightarrow> int km" where
  "loaduvm_loop pd addr ip off n i =
     (if i < n then bnd (walkpgdir pd (addr + i) False) (\<lambda>pte.
        if pte = 0 then panic ''loaduvm: address should exist''
        else bnd (ld32 pte) (\<lambda>e. let m = (if n - i < PGSIZE then n - i else PGSIZE) in
          bnd (readi ip (ToKern (P2V (PTE_ADDR e))) (off + i) m) (\<lambda>(r, bs).
            if (of_int r :: u32) \<noteq> m then ret (- 1)
            else if i + PGSIZE \<le> i then Asleep
            else loaduvm_loop pd addr ip off n (i + PGSIZE))))
      else ret 0)"
  by pat_completeness auto
termination
  by (relation "measure (\<lambda>(pd, addr, ip, off, n, i). 2 ^ 32 - unat i)")
    (simp_all add: no_wrap_measure)

declare loaduvm_loop.simps [simp del]

definition loaduvm :: "u32 \<Rightarrow> u32 \<Rightarrow> nat \<Rightarrow> u32 \<Rightarrow> u32 \<Rightarrow> int km" where
  "loaduvm pd addr ip off n =
     (if addr mod PGSIZE \<noteq> 0 then panic ''loaduvm: addr must be page aligned''
      else loaduvm_loop pd addr ip off n 0)"

section \<open>Files and the process table\<close>

context ptable_inv
begin

lemma pres_put_chunk [pres_intros]: "pres (thr W R p) (rest W) (put_chunk dst bs)"
  by (cases dst) (auto intro!: pres_intros pres_modsh_frame)

lemma pres_get_chunk [pres_intros]: "pres (thr W R p) (rest W) (get_chunk src m)"
  by (cases src) (auto intro!: pres_intros)

lemma pres_stack_addr [pres_intros]: "pres (thr W R p) (rest W) stack_addr"
  unfolding stack_addr_def by (intro pres_intros)

lemma pres_dst_addr [pres_intros]: "pres (thr W R p) (rest W) (dst_addr dst)"
  by (cases dst) (auto intro!: pres_intros)

lemma pres_src_addr [pres_intros]: "pres (thr W R p) (rest W) (src_addr src)"
  by (cases src) (auto intro!: pres_intros)

lemma pres_call_dev [pres_intros]: "pres (thr W R p) (rest W) (call_dev f i a n)"
  by (cases f) (auto simp: call_dev_def intro!: pres_intros)

lemma pres_dev_entry [pres_intros]: "pres (thr W R p) (rest W) (dev_entry mj)"
  unfolding dev_entry_def by (intro pres_intros)

lemma pres_readi_loop [pres_intros]: "pres (thr W R p) (rest W) (readi_loop i dst off left)"
proof (induction i dst off left rule: readi_loop.induct)
  case 1
  show ?case by (subst readi_loop.simps) (simp only: Let_def, intro pres_intros, rule 1; (assumption | rule refl))
qed

lemma pres_readi [pres_intros]: "pres (thr W R p) (rest W) (readi i dst off n)"
  unfolding readi_def Let_def by (intro pres_intros)

lemma pres_writei_loop [pres_intros]: "pres (thr W R p) (rest W) (writei_loop i src off left)"
proof (induction i src off left rule: writei_loop.induct)
  case 1
  show ?case by (subst writei_loop.simps) (simp only: Let_def, intro pres_intros, rule 1; (assumption | rule refl))
qed

lemma pres_writei [pres_intros]: "pres (thr W R p) (rest W) (writei i src off n)"
  unfolding writei_def by (intro pres_intros)

lemma pres_dirlookup_loop [pres_intros]: "pres (thr W R p) (rest W) (dirlookup_loop dp name off)"
proof (induction dp name off rule: dirlookup_loop.induct)
  case 1
  show ?case by (subst dirlookup_loop.simps) (simp only: Let_def, intro pres_intros, rule 1; (assumption | rule refl))
qed

lemma pres_dirlookup [pres_intros]: "pres (thr W R p) (rest W) (dirlookup dp name)"
  unfolding dirlookup_def by (intro pres_intros)

lemma pres_dirlink_loop [pres_intros]: "pres (thr W R p) (rest W) (dirlink_loop dp off)"
proof (induction dp off rule: dirlink_loop.induct)
  case 1
  show ?case by (subst dirlink_loop.simps) (intro pres_intros, rule 1; (assumption | rule refl))
qed

lemma pres_dirlink [pres_intros]: "pres (thr W R p) (rest W) (dirlink dp name ino)"
  unfolding dirlink_def by (intro pres_intros)

lemma pres_namex_loop [pres_intros]: "pres (thr W R p) (rest W) (namex_loop i path par)"
proof (induction i path par rule: namex_loop.induct)
  case 1
  show ?case by (subst namex_loop.simps) (intro pres_intros, rule 1; (assumption | rule refl))
qed

lemma pres_namex [pres_intros]: "pres (thr W R p) (rest W) (namex path par)"
  unfolding namex_def by (intro pres_intros)

lemma pres_namei [pres_intros]: "pres (thr W R p) (rest W) (namei path)"
  unfolding namei_def by (intro pres_intros)

lemma pres_nameiparent [pres_intros]: "pres (thr W R p) (rest W) (nameiparent path)"
  unfolding nameiparent_def by (intro pres_intros)

lemma pres_loaduvm_loop [pres_intros]: "pres (thr W R p) (rest W) (loaduvm_loop pd addr ip off n i)"
proof (induction pd addr ip off n i rule: loaduvm_loop.induct)
  case 1
  show ?case by (subst loaduvm_loop.simps) (simp only: Let_def, intro pres_intros, rule 1; (assumption | rule refl))
qed

lemma pres_loaduvm [pres_intros]: "pres (thr W R p) (rest W) (loaduvm pd addr ip off n)"
  unfolding loaduvm_def by (intro pres_intros)

end

end
