(* ===== verification/Pipe.thy ===== *)
theory Pipe
  imports Usercopy
begin

text \<open>
  Pipes (\<open>pipe.c\<close>): a ring of \<open>PIPESIZE\<close> bytes with a reader counter and a writer counter that
  only grow, modulo \<open>2 ^ 32\<close>.  A pipe is addressed by the page it lives in; \<open>pipealloc\<close> is with
  the file table.  The offsets of \<open>nread\<close> and \<open>nwrite\<close>, whose addresses are the channels the two
  sides sleep on, are those of \<open>struct pipe\<close>.
\<close>

section \<open>The ring\<close>

definition PIPESIZE :: nat where [simp]: "PIPESIZE = 512"

definition getpipe :: "u32 \<Rightarrow> (pipe \<Rightarrow> 'a) \<Rightarrow> 'a km" where
  [kdefs]: "getpipe a f = getsh (\<lambda>x. f (pipes x a))"

definition setpipe :: "u32 \<Rightarrow> (pipe \<Rightarrow> pipe) \<Rightarrow> unit km" where
  [kdefs]: "setpipe a f = modsh (\<lambda>x. x\<lparr>pipes := (pipes x)(a := f (pipes x a))\<rparr>)"

definition nread_addr :: "u32 \<Rightarrow> u32" where "nread_addr a = a + 564"
definition nwrite_addr :: "u32 \<Rightarrow> u32" where "nwrite_addr a = a + 568"

definition pipe_full :: "pipe \<Rightarrow> bool" where
  "pipe_full p \<longleftrightarrow> nwrite p = nread p + of_nat PIPESIZE"

text \<open>The two pieces a transfer of \<open>m\<close> bytes at counter \<open>c\<close> has: up to the end of the array, and
  from its start.\<close>

definition piece1 :: "u32 \<Rightarrow> u32 \<Rightarrow> u32" where
  "piece1 c m = (let r = of_nat PIPESIZE - c mod of_nat PIPESIZE in if m > r then r else m)"

definition piece2 :: "u32 \<Rightarrow> u32 \<Rightarrow> u32" where
  "piece2 c m = m - piece1 c m"

definition put_data :: "nat \<Rightarrow> u8 list \<Rightarrow> pipe \<Rightarrow> pipe" where
  "put_data i bs p = p\<lparr>pdata := take i (pdata p) @ bs @ drop (i + length bs) (pdata p)\<rparr>"

section \<open>Closing an end\<close>

definition pipeclose :: "u32 \<Rightarrow> bool \<Rightarrow> unit km" where
  "pipeclose a w = seqs [
     acquire (PipeLock a),
     (if w then seqs [setpipe a (\<lambda>p. p\<lparr>writeopen := False\<rparr>), wakeup (nread_addr a)]
      else seqs [setpipe a (\<lambda>p. p\<lparr>readopen := False\<rparr>), wakeup (nwrite_addr a)]),
     bnd (getpipe a id) (\<lambda>p.
       if \<not> readopen p \<and> \<not> writeopen p then seqs [release (PipeLock a), kfree a]
       else release (PipeLock a))]"

section \<open>Writing\<close>

text \<open>The wait while the ring is full: \<open>False\<close> when the read end is closed or the writer killed.\<close>

definition write_ready :: "u32 \<Rightarrow> bool option km" where
  "write_ready a = bnd (getpipe a id) (\<lambda>p.
     if \<not> pipe_full p then ret (Some True)
     else if \<not> readopen p then ret (Some False)
     else bnd curproc (\<lambda>q. bnd (getp q killed) (\<lambda>k. ret (if k then Some False else None))))"

definition write_sleep :: "u32 \<Rightarrow> unit km" where
  "write_sleep a = seqs [wakeup (nread_addr a), sleep (nwrite_addr a) (Some (PipeLock a))]"

text \<open>One transfer into the ring of \<open>m\<close> bytes from user address \<open>src\<close>.\<close>

definition fill_piece :: "u32 \<Rightarrow> nat \<Rightarrow> u32 \<Rightarrow> u32 \<Rightarrow> bool km" where
  "fill_piece a i src m =
     (if m = 0 then ret True
      else if i + unat m > PIPESIZE then fault ''buffer overflow''
      else bnd (copy_from_user src m) (\<lambda>r. case r of
          None \<Rightarrow> ret False
        | Some bs \<Rightarrow> sq (setpipe a (put_data i bs)) (ret True)))"

text \<open>The bytes moved are at least one, since the ring is not full and some are left to write.\<close>

function pipewrite_loop :: "u32 \<Rightarrow> u32 \<Rightarrow> nat \<Rightarrow> nat \<Rightarrow> bool km" where
  "pipewrite_loop a addr n i =
     (if i < n then bnd (sleep_loop (write_ready a) (write_sleep a)) (\<lambda>ok.
        if \<not> ok then ret False
        else bnd (getpipe a id) (\<lambda>p.
          let m = min (nread p + of_nat PIPESIZE - nwrite p) (of_nat (n - i)); c1 = piece1 (nwrite p) m; c2 = piece2 (nwrite p) m in
          bnd (fill_piece a (unat (nwrite p) mod PIPESIZE) (addr + of_nat i) c1) (\<lambda>ok1.
            if \<not> ok1 then ret False
            else bnd (fill_piece a 0 (addr + of_nat i + c1) c2) (\<lambda>ok2.
              if \<not> ok2 then ret False
              else sq (setpipe a (\<lambda>p. p\<lparr>nwrite := nwrite p + m\<rparr>))
                (if unat m = 0 then Asleep else pipewrite_loop a addr n (i + unat m))))))
      else ret True)"
  by pat_completeness auto
termination
  by (relation "measure (\<lambda>(a, addr, n, i). n - i)") simp_all

declare pipewrite_loop.simps [simp del]

definition pipewrite :: "u32 \<Rightarrow> u32 \<Rightarrow> u32 \<Rightarrow> int km" where
  "pipewrite a addr n = sq (acquire (PipeLock a)) (bnd (pipewrite_loop a addr (nat (sint n)) 0) (\<lambda>ok.
     if ok then sq (seqs [wakeup (nread_addr a), release (PipeLock a)]) (ret (sint n))
     else sq (release (PipeLock a)) (ret (- 1))))"

section \<open>Reading\<close>

definition read_ready :: "u32 \<Rightarrow> bool option km" where
  "read_ready a = bnd (getpipe a id) (\<lambda>p.
     if \<not> (nread p = nwrite p \<and> writeopen p) then ret (Some True)
     else bnd curproc (\<lambda>q. bnd (getp q killed) (\<lambda>k. ret (if k then Some False else None))))"

definition read_sleep :: "u32 \<Rightarrow> unit km" where
  "read_sleep a = sleep (nread_addr a) (Some (PipeLock a))"

definition drain_piece :: "u32 \<Rightarrow> nat \<Rightarrow> u32 \<Rightarrow> u32 \<Rightarrow> bool km" where
  "drain_piece a i dst m =
     (if m = 0 then ret True
      else if i + unat m > PIPESIZE then fault ''out of bounds''
      else bnd (getpipe a (\<lambda>p. take (unat m) (drop i (pdata p)))) (copy_to_user dst))"

definition piperead :: "u32 \<Rightarrow> u32 \<Rightarrow> u32 \<Rightarrow> int km" where
  "piperead a addr n = sq (acquire (PipeLock a)) (bnd (sleep_loop (read_ready a) (read_sleep a)) (\<lambda>ok.
     if \<not> ok then sq (release (PipeLock a)) (ret (- 1))
     else bnd (getpipe a id) (\<lambda>p.
       let m = min (nwrite p - nread p) n; c1 = piece1 (nread p) m; c2 = piece2 (nread p) m in
       bnd (drain_piece a (unat (nread p) mod PIPESIZE) addr c1) (\<lambda>ok1.
         if \<not> ok1 then sq (release (PipeLock a)) (ret (- 1))
         else bnd (drain_piece a 0 (addr + c1) c2) (\<lambda>ok2.
           if \<not> ok2 then sq (release (PipeLock a)) (ret (- 1))
           else sq (seqs [
               setpipe a (\<lambda>p. p\<lparr>nread := nread p + m\<rparr>),
               wakeup (nwrite_addr a),
               release (PipeLock a)]) (ret (sint m)))))))"

section \<open>Pipes and the process table\<close>

context ptable_inv
begin

lemma pres_getpipe [pres_intros]: "pres (thr W R p) (rest W) (getpipe a f)"
  unfolding getpipe_def by (intro pres_intros)

lemma pres_setpipe [pres_intros]: "pres (thr W R p) (rest W) (setpipe a f)"
  unfolding setpipe_def by (intro pres_modsh_frame) simp_all

lemma pres_pipeclose [pres_intros]: "pres (thr W R p) (rest W) (pipeclose a w)"
  unfolding pipeclose_def by (intro pres_intros)

lemma pres_fill_piece [pres_intros]: "pres (thr W R p) (rest W) (fill_piece a i src m)"
  unfolding fill_piece_def by (intro pres_intros)

lemma pres_write_ready [pres_intros]: "pres (thr W R p) (rest W) (write_ready a)"
  unfolding write_ready_def by (intro pres_intros)

lemma pres_write_sleep [pres_intros]: "pres (thr W R p) (rest W) (write_sleep a)"
  unfolding write_sleep_def by (intro pres_intros)

lemma pres_pipewrite_loop [pres_intros]: "pres (thr W R p) (rest W) (pipewrite_loop a addr n i)"
proof (induction a addr n i rule: pipewrite_loop.induct)
  case (1 a addr n i)
  show ?case
    by (subst pipewrite_loop.simps)
      (simp only: Let_def, intro pres_intros, simp add: thr_def thr_at_def rest_def, rule 1; (assumption | rule refl))
qed

lemma pres_pipewrite [pres_intros]: "pres (thr W R p) (rest W) (pipewrite a addr n)"
  unfolding pipewrite_def by (intro pres_intros)

lemma pres_drain_piece [pres_intros]: "pres (thr W R p) (rest W) (drain_piece a i dst m)"
  unfolding drain_piece_def by (intro pres_intros)

lemma pres_piperead [pres_intros]: "pres (thr W R p) (rest W) (piperead a addr n)"
  unfolding piperead_def read_ready_def read_sleep_def Let_def
  by (intro pres_intros) (simp add: thr_def thr_at_def rest_def)

end

end
