(* ===== verification/File.thy ===== *)
theory File
  imports Fs Pipe
begin

text \<open>
  The file table and the operations on open files (\<open>file.c\<close>, \<open>file.h\<close>), with \<open>pipealloc\<close> of
  \<open>pipe.c\<close>.  A \<open>struct file *\<close> is an index into \<open>ftable.file\<close>.
\<close>

section \<open>The file table\<close>

definition getf :: "nat \<Rightarrow> (kfile \<Rightarrow> 'a) \<Rightarrow> 'a km" where
  [kdefs]: "getf i f = getsh (\<lambda>x. f (ftable x ! i))"

definition setf :: "nat \<Rightarrow> (kfile \<Rightarrow> kfile) \<Rightarrow> unit km" where
  [kdefs]: "setf i f = modsh (\<lambda>x. x\<lparr>ftable := (ftable x)[i := f (ftable x ! i)]\<rparr>)"

definition fileinit :: "unit km" where
  "fileinit = initlock FtableLock"

definition filealloc :: "nat option km" where
  "filealloc = sq (acquire FtableLock) (bnd (getsh (\<lambda>x. scan (\<lambda>f. fref f = 0) (ftable x))) (\<lambda>r. case r of
     Some i \<Rightarrow> sq (seqs [setf i (\<lambda>f. f\<lparr>fref := 1\<rparr>), release FtableLock]) (ret (Some i))
   | None \<Rightarrow> sq (release FtableLock) (ret None)))"

definition filedup :: "nat \<Rightarrow> nat km" where
  "filedup i = sq (acquire FtableLock) (bnd (getf i fref) (\<lambda>n.
     if n < 1 then panic ''filedup''
     else sq (seqs [setf i (\<lambda>f. f\<lparr>fref := fref f + 1\<rparr>), release FtableLock]) (ret i)))"

definition fileclose :: "nat \<Rightarrow> unit km" where
  "fileclose i = sq (acquire FtableLock) (bnd (getf i fref) (\<lambda>n.
     if n < 1 then panic ''fileclose''
     else sq (setf i (\<lambda>f. f\<lparr>fref := n - 1\<rparr>))
       (if n - 1 > 0 then release FtableLock
        else bnd (getf i id) (\<lambda>ff. seqs [
          setf i (\<lambda>f. f\<lparr>fref := 0, ftype := FD_NONE\<rparr>),
          release FtableLock,
          (if ftype ff = FD_PIPE then pipeclose (fpipe ff) (writable ff)
           else if ftype ff = FD_INODE then seqs [begin_op, bnd (deref (fip ff)) iput, end_op]
           else ret ())]))))"

text \<open>\<open>stati\<close> stores through the user pointer: the fields at their offsets, the padding untouched.\<close>

definition store_stat :: "u32 \<Rightarrow> stat \<Rightarrow> unit km" where
  "store_stat a st = seqs [
     write_user (a + 4) (split32 (st_dev st)),
     write_user (a + 8) (split32 (st_ino st)),
     write_user a (split16 (st_type st)),
     write_user (a + 12) (split16 (st_nlink st)),
     write_user (a + 16) (split32 (st_size st))]"

definition filestat :: "nat \<Rightarrow> u32 \<Rightarrow> int km" where
  "filestat i a = bnd (getf i ftype) (\<lambda>t.
     if t = FD_INODE then
       bnd (getf i fip) (\<lambda>ip. sq (seqs [
         ilock ip,
         bnd (bnd (deref ip) stati) (store_stat a),
         iunlock ip]) (ret 0))
     else ret (- 1))"

definition fileread :: "nat \<Rightarrow> u32 \<Rightarrow> u32 \<Rightarrow> int km" where
  "fileread i addr n = bnd (getf i id) (\<lambda>f.
     if \<not> readable f then ret (- 1)
     else if ftype f = FD_PIPE then piperead (fpipe f) addr n
     else if ftype f = FD_INODE then
       sq (ilock (fip f)) (bnd (deref (fip f)) (\<lambda>ip. bnd (getf i foff) (\<lambda>off.
         bnd (readi ip (ToUser addr) off n) (\<lambda>(r, bs). sq (seqs [
           whenk (r > 0) (setf i (\<lambda>f. f\<lparr>foff := foff f + of_int r\<rparr>)),
           iunlock (Some ip)]) (ret r)))))
     else panic ''fileread'')"

text \<open>The most bytes one transaction may write: the inode, the indirect block, the bitmap and two
  blocks for an unaligned write have to fit as well.\<close>

definition write_max :: nat where
  "write_max = ((MAXOPBLOCKS - 1 - 1 - 2) div 2) * 512"

function filewrite_loop :: "nat \<Rightarrow> u32 \<Rightarrow> nat \<Rightarrow> nat \<Rightarrow> nat km" where
  "filewrite_loop f addr n i =
     (if i < n then let n1 = min (n - i) write_max in
        sq begin_op (bnd (getf f fip) (\<lambda>ip0. sq (ilock ip0) (bnd (deref ip0) (\<lambda>ip. bnd (getf f foff) (\<lambda>off.
        bnd (writei ip (FromUser (addr + of_nat i)) off (of_nat n1)) (\<lambda>r. sq (seqs [
          whenk (r > 0) (setf f (\<lambda>g. g\<lparr>foff := foff g + of_int r\<rparr>)),
          iunlock (Some ip),
          end_op])
        (if r < 0 then ret i
         else if r \<noteq> int n1 then panic ''short filewrite''
         else filewrite_loop f addr n (i + n1))))))))
      else ret i)"
  by pat_completeness auto
termination
  by (relation "measure (\<lambda>(f, addr, n, i). n - i)") (auto simp: write_max_def)

declare filewrite_loop.simps [simp del]

definition filewrite :: "nat \<Rightarrow> u32 \<Rightarrow> u32 \<Rightarrow> int km" where
  "filewrite i addr n = bnd (getf i id) (\<lambda>f.
     if \<not> writable f then ret (- 1)
     else if ftype f = FD_PIPE then pipewrite (fpipe f) addr n
     else if ftype f = FD_INODE then
       bnd (filewrite_loop i addr (nat (sint n)) 0) (\<lambda>k. ret (if int k = sint n then sint n else - 1))
     else panic ''filewrite'')"

section \<open>pipealloc\<close>

definition set_pipe_file :: "nat \<Rightarrow> bool \<Rightarrow> u32 \<Rightarrow> unit km" where
  "set_pipe_file i w a = setf i (\<lambda>f. f\<lparr>ftype := FD_PIPE, readable := \<not> w, writable := w, fpipe := a\<rparr>)"

text \<open>The label \<open>bad\<close>: no pipe was allocated on the paths that lead there.\<close>

definition pipealloc_bad :: "nat option \<Rightarrow> nat option \<Rightarrow> (nat \<times> nat) option km" where
  "pipealloc_bad f0 f1 = sq (seqs [
     (case f0 of Some i \<Rightarrow> fileclose i | None \<Rightarrow> ret ()),
     (case f1 of Some i \<Rightarrow> fileclose i | None \<Rightarrow> ret ())]) (ret None)"

definition pipealloc :: "(nat \<times> nat) option km" where
  "pipealloc = bnd filealloc (\<lambda>f0. case f0 of
     None \<Rightarrow> pipealloc_bad None None
   | Some i \<Rightarrow> bnd filealloc (\<lambda>f1. case f1 of
       None \<Rightarrow> pipealloc_bad (Some i) None
     | Some j \<Rightarrow> bnd kalloc (\<lambda>a.
         if a = 0 then pipealloc_bad (Some i) (Some j)
         else sq (seqs [
           setpipe a (\<lambda>p. p\<lparr>readopen := True, writeopen := True, nwrite := 0, nread := 0\<rparr>),
           initlock (PipeLock a),
           set_pipe_file i False a,
           set_pipe_file j True a]) (ret (Some (i, j))))))"

section \<open>Open files and the process table\<close>

context ptable_inv
begin

lemma pres_getf [pres_intros]: "pres (thr W R p) (rest W) (getf i f)"
  unfolding getf_def by (intro pres_intros)

lemma pres_setf [pres_intros]: "pres (thr W R p) (rest W) (setf i f)"
  unfolding setf_def by (intro pres_modsh_frame) simp_all

lemma pres_fileinit [pres_intros]: "pres (thr W R p) (rest W) fileinit"
  unfolding fileinit_def by (intro pres_intros)

lemma pres_filealloc [pres_intros]: "pres (thr W R p) (rest W) filealloc"
  unfolding filealloc_def by (intro pres_intros)

lemma pres_filedup [pres_intros]: "pres (thr W R p) (rest W) (filedup i)"
  unfolding filedup_def by (intro pres_intros)

lemma pres_fileclose [pres_intros]: "pres (thr W R p) (rest W) (fileclose i)"
  unfolding fileclose_def by (intro pres_intros)

lemma pres_filestat [pres_intros]: "pres (thr W R p) (rest W) (filestat i a)"
  unfolding filestat_def store_stat_def by (intro pres_intros)

lemma pres_fileread [pres_intros]: "pres (thr W R p) (rest W) (fileread i addr n)"
  unfolding fileread_def by (intro pres_intros)

lemma pres_filewrite_loop [pres_intros]: "pres (thr W R p) (rest W) (filewrite_loop f addr n i)"
proof (induction f addr n i rule: filewrite_loop.induct)
  case 1
  show ?case by (subst filewrite_loop.simps) (simp only: Let_def, intro pres_intros, rule 1; (assumption | rule refl))
qed

lemma pres_filewrite [pres_intros]: "pres (thr W R p) (rest W) (filewrite i addr n)"
  unfolding filewrite_def by (intro pres_intros)

lemma pres_pipealloc [pres_intros]: "pres (thr W R p) (rest W) pipealloc"
  unfolding pipealloc_def pipealloc_bad_def set_pipe_file_def by (intro pres_intros)

end

end
