(* ===== verification/Sysargs.thy ===== *)
theory Sysargs
  imports File
begin

text \<open>
  System call arguments (\<open>syscall.c\<close>): words and strings fetched from user memory under the lock
  of the address space.  A function that returns -1 after writing through a pointer argument
  returns \<open>None\<close> here, otherwise \<open>Some\<close> of what it wrote.
\<close>

section \<open>Fetching\<close>

definition fetchint :: "u32 \<Rightarrow> u32 option km" where
  "fetchint addr = bnd curprocess (\<lambda>q. sq (acquire (VLock q)) (bnd (getp q sz) (\<lambda>n.
     if addr \<ge> n \<or> addr + 4 > n then sq (release (VLock q)) (ret None)
     else bnd (read_user addr 4) (\<lambda>bs. sq (release (VLock q)) (ret (Some (join32 bs)))))))"

text \<open>The scan for the NUL below \<open>ep\<close>, \<open>k\<close> bytes away: a page fault, or the length if there is one.\<close>

fun fetchstr_loop :: "mem \<Rightarrow> u32 \<Rightarrow> nat \<Rightarrow> u32 \<Rightarrow> nat \<Rightarrow> nat option option" where
  "fetchstr_loop m pd 0 s n = Some None"
| "fetchstr_loop m pd (Suc k) s n = (case uload m pd s of None \<Rightarrow> None
     | Some c \<Rightarrow> if c = 0 then Some (Some n) else fetchstr_loop m pd k (s + 1) (n + 1))"

text \<open>The length of the string and the pointer stored in \<open>*pp\<close>.\<close>

definition fetchstr :: "u32 \<Rightarrow> (nat \<times> u32) option km" where
  "fetchstr addr = bnd curprocess (\<lambda>q. sq (acquire (VLock q)) (bnd (getp q sz) (\<lambda>ep.
     if addr \<ge> ep then sq (release (VLock q)) (ret None)
     else bnd page_dir (\<lambda>pd. bnd (getsh mem) (\<lambda>m. case fetchstr_loop m pd (unat ep - unat addr) addr 0 of
       None \<Rightarrow> panic ''trap''
     | Some r \<Rightarrow> sq (release (VLock q)) (ret (map_option (\<lambda>n. (n, addr)) r)))))))"

definition mytf :: "trapframe km" where
  [kdefs]: "mytf = bnd curproc (\<lambda>p. bnd (getp p tf) (\<lambda>a. getsh (\<lambda>x. trapframes x a)))"

definition argint :: "u32 \<Rightarrow> u32 option km" where
  "argint n = bnd mytf (\<lambda>f. fetchint (tf_esp f + 4 + 4 * n))"

definition argptr :: "u32 \<Rightarrow> u32 \<Rightarrow> u32 option km" where
  "argptr n len = bnd curprocess (\<lambda>q. bnd (argint n) (\<lambda>r. case r of
     None \<Rightarrow> ret None
   | Some i \<Rightarrow> sq (acquire (VLock q)) (bnd (getp q sz) (\<lambda>m.
       if len <s 0 \<or> i \<ge> m \<or> i + len > m then sq (release (VLock q)) (ret None)
       else sq (release (VLock q)) (ret (Some i))))))"

definition argstr :: "u32 \<Rightarrow> (nat \<times> u32) option km" where
  "argstr n = bnd (argint n) (\<lambda>r. case r of None \<Rightarrow> ret None | Some addr \<Rightarrow> fetchstr addr)"

section \<open>Strings in kernel buffers\<close>

definition NUSERSTRING :: nat where [simp]: "NUSERSTRING = 512"

text \<open>A string function reads a buffer up to its NUL; a buffer that \<open>copy_str_from_user\<close> left without
  one is read past what was stored in it.\<close>

definition cstring :: "u8 list \<Rightarrow> u8 list km" where
  "cstring bs = (if 0 \<in> set bs then ret (takeWhile (\<lambda>c. c \<noteq> 0) bs) else fault ''unterminated string'')"

text \<open>\<open>copy_str_from_user(spath, path, NUSERSTRING)\<close>: the buffer, unless the result is negative.\<close>

definition copy_path :: "u32 \<Rightarrow> u8 list option km" where
  "copy_path a = bnd (copy_str_from_user a NUSERSTRING) (\<lambda>(r, bs). ret (if r < 0 then None else Some bs))"

context ptable_inv
begin

lemma pres_fetchint [pres_intros]: "pres (thr W R p) (rest W) (fetchint addr)"
  unfolding fetchint_def by (intro pres_intros)

lemma pres_fetchstr [pres_intros]: "pres (thr W R p) (rest W) (fetchstr addr)"
  unfolding fetchstr_def by (intro pres_intros)

lemma pres_mytf [pres_intros]: "pres (thr W R p) (rest W) mytf"
  unfolding mytf_def by (intro pres_intros)

lemma pres_argint [pres_intros]: "pres (thr W R p) (rest W) (argint n)"
  unfolding argint_def by (intro pres_intros)

lemma pres_argptr [pres_intros]: "pres (thr W R p) (rest W) (argptr n len)"
  unfolding argptr_def by (intro pres_intros)

lemma pres_argstr [pres_intros]: "pres (thr W R p) (rest W) (argstr n)"
  unfolding argstr_def by (intro pres_intros)

lemma pres_cstring [pres_intros]: "pres (thr W R p) (rest W) (cstring bs)"
  unfolding cstring_def by (intro pres_intros)

lemma pres_copy_path [pres_intros]: "pres (thr W R p) (rest W) (copy_path a)"
  unfolding copy_path_def by (intro pres_intros)

end

end
