(* ===== verification/Proc.thy ===== *)
theory Proc
  imports Sysargs
begin

text \<open>
  Processes and threads (\<open>proc.c\<close>): allocation of a slot, the first process, \<open>fork\<close>, \<open>clone\<close>,
  \<open>exit\<close>, \<open>wait\<close>, \<open>join\<close> and \<open>growproc\<close>.  A thread group is the set of slots with the same
  \<open>process\<close> pointer, which points to the slot of the group's leader.
\<close>

section \<open>Allocating a slot\<close>

definition pinit :: "unit km" where
  "pinit = initlock PtableLock"

text \<open>\<open>nextpid++\<close> on an \<open>int\<close> must not overflow.\<close>

definition alloc_slot :: "nat option km" where
  "alloc_slot = sq (acquire PtableLock) (bnd (getsh (\<lambda>x. scan (\<lambda>r. pstate r = UNUSED) (ptable x))) (\<lambda>r. case r of
     None \<Rightarrow> sq (release PtableLock) (ret None)
   | Some i \<Rightarrow> bnd (getsh nextpid) (\<lambda>n.
       if n + 1 \<ge> 2 ^ 31 then fault ''integer overflow''
       else sq (seqs [
         setp i (\<lambda>p. p\<lparr>pstate := EMBRYO, pid := n\<rparr>),
         modsh (\<lambda>x. x\<lparr>nextpid := n + 1\<rparr>),
         release PtableLock]) (ret (Some i)))))"

definition trapframe_size :: u32 where [simp]: "trapframe_size = 76"
definition context_size :: u32 where [simp]: "context_size = 20"

definition alloc_stack :: "nat \<Rightarrow> nat option km" where
  "alloc_stack i = bnd kalloc (\<lambda>ks. sq (setp i (\<lambda>p. p\<lparr>kstack := ks\<rparr>))
     (if ks = 0 then sq (setp i (\<lambda>p. p\<lparr>pstate := UNUSED\<rparr>)) (ret None)
      else let sp = ks + KSTACKSIZE - trapframe_size; ctx = sp - 4 - context_size in
        bnd (getsh lay) (\<lambda>l. sq (seqs [
          setp i (\<lambda>p. p\<lparr>tf := sp\<rparr>),
          st32 (sp - 4) (trapret_addr l),
          setp i (\<lambda>p. p\<lparr>context_p := ctx\<rparr>),
          modsh (\<lambda>x. x\<lparr>contexts := (contexts x)(ctx := \<lparr>c_edi = 0, c_esi = 0, c_ebx = 0, c_ebp = 0,
            c_eip = forkret_addr l\<rparr>)\<rparr>)]) (ret (Some i)))))"

definition allocproc :: "nat option km" where
  "allocproc = bnd alloc_slot (\<lambda>r. case r of None \<Rightarrow> ret None | Some i \<Rightarrow> alloc_stack i)"

section \<open>The first process\<close>

text \<open>\<open>safestrcpy(p->name, s, sizeof(p->name))\<close> on a name field that holds \<open>old\<close>.\<close>

definition copy_name :: "u8 list \<Rightarrow> u8 list \<Rightarrow> u8 list" where
  "copy_name s old = bytes (safestrcpy (blit (blit (\<lambda>_. 0) 0 s) 0x10000 old) 0x10000 0 16) 0x10000 16"

definition settf :: "u32 \<Rightarrow> (trapframe \<Rightarrow> trapframe) \<Rightarrow> unit km" where
  [kdefs]: "settf a f = modsh (\<lambda>x. x\<lparr>trapframes := (trapframes x)(a := f (trapframes x a))\<rparr>)"

definition user_code_seg :: u16 where "user_code_seg = 0x1B"
definition user_data_seg :: u16 where "user_data_seg = 0x23"

definition userinit :: "u32 \<Rightarrow> u32 \<Rightarrow> unit km" where
  "userinit code n = bnd allocproc (\<lambda>r. bnd (deref r) (\<lambda>p. seqs [
     bnd (getp p pid) (\<lambda>i. setp p (\<lambda>r. r\<lparr>tgid := i\<rparr>)),
     setp p (\<lambda>r. r\<lparr>process := Some p\<rparr>),
     initlock (VLock p),
     setp p (\<lambda>r. r\<lparr>threadcount := 1, lostwakeup := 0\<rparr>),
     modsh (\<lambda>x. x\<lparr>initproc := Some p\<rparr>),
     acquire (VLock p),
     bnd setupkvm (\<lambda>pd. sq (setp p (\<lambda>r. r\<lparr>pgdir := pd\<rparr>))
       (if pd = 0 then panic ''userinit: out of memory?'' else inituvm pd code n)),
     setp p (\<lambda>r. r\<lparr>sz := PGSIZE\<rparr>),
     release (VLock p),
     bnd (getp p tf) (\<lambda>a. settf a (\<lambda>_. zeroed_tf\<lparr>tf_cs := user_code_seg, tf_ds := user_data_seg,
       tf_es := user_data_seg, tf_ss := user_data_seg, tf_eflags := 0x200, tf_esp := PGSIZE, tf_eip := 0\<rparr>)),
     setp p (\<lambda>r. r\<lparr>pname := copy_name (str ''initcode'') (pname r)\<rparr>),
     initlock (CwdLock p),
     acquire (CwdLock p),
     bnd (namei (str ''/'')) (\<lambda>d. setp p (\<lambda>r. r\<lparr>cwd := d\<rparr>)),
     release (CwdLock p),
     acquire PtableLock,
     setp p (\<lambda>r. r\<lparr>pstate := RUNNABLE\<rparr>),
     release PtableLock]))"

text \<open>\<open>first\<close> is the static variable of the function.\<close>

definition forkret :: "bool \<Rightarrow> unit km" where
  "forkret first = seqs [release PtableLock, whenk first (seqs [iinit ROOTDEV, initlog ROOTDEV])]"

section \<open>Memory of a process\<close>

definition growproc :: "u32 \<Rightarrow> int km" where
  "growproc n = bnd curproc (\<lambda>p. bnd (bnd (getp p process) deref) (\<lambda>q. sq (acquire (VLock q))
     (bnd (getp q sz) (\<lambda>old. bnd (getp p pgdir) (\<lambda>pd.
       bnd (if 0 <s n then allocuvm pd old (old + n)
            else if n <s 0 then deallocuvm pd old (old + n) else ret old) (\<lambda>new.
         if n \<noteq> 0 \<and> new = 0 then sq (release (VLock q)) (ret (- 1))
         else sq (seqs [
           setp q (\<lambda>r. r\<lparr>sz := new\<rparr>),
           switchuvm (Some p),
           release (VLock q)]) (ret 0)))))))"

section \<open>fork\<close>

definition dup_files :: "nat \<Rightarrow> nat \<Rightarrow> unit km" where
  "dup_files p np = seqs (map (\<lambda>i. bnd (getp p (\<lambda>r. ofile r ! i)) (\<lambda>f. case f of
     None \<Rightarrow> ret ()
   | Some f \<Rightarrow> bnd (filedup f) (\<lambda>g. setp np (\<lambda>r. r\<lparr>ofile := (ofile r)[i := Some g]\<rparr>)))) [0..<NOFILE])"

definition fork_finish :: "nat \<Rightarrow> nat \<Rightarrow> nat \<Rightarrow> int km" where
  "fork_finish p q np = sq (seqs [
     setp np (\<lambda>r. r\<lparr>parent := Some q\<rparr>),
     bnd (getp np tf) (\<lambda>a. bnd (getp p tf) (\<lambda>b. bnd (getsh (\<lambda>x. trapframes x b)) (\<lambda>t.
       settf a (\<lambda>_. t\<lparr>tf_eax := 0\<rparr>)))),
     dup_files p np,
     acquire (CwdLock q),
     bnd (getp q cwd) (\<lambda>d. seqs [
       release (CwdLock q),
       initlock (CwdLock np),
       acquire (CwdLock np),
       bnd (bnd (deref d) idup) (\<lambda>d. setp np (\<lambda>r. r\<lparr>cwd := Some d\<rparr>)),
       release (CwdLock np)]),
     bnd (getp p pname) (\<lambda>s. setp np (\<lambda>r. r\<lparr>pname := copy_name s (pname r)\<rparr>))])
     (bnd (getp np pid) (\<lambda>i. sq (seqs [
       acquire PtableLock,
       setp np (\<lambda>r. r\<lparr>pstate := RUNNABLE, threadcount := 1\<rparr>),
       release PtableLock]) (ret i)))"

definition fork_child :: "nat \<Rightarrow> nat \<Rightarrow> int km" where
  "fork_child p np = sq (seqs [
     bnd (getp np pid) (\<lambda>i. setp np (\<lambda>r. r\<lparr>tgid := i\<rparr>)),
     setp np (\<lambda>r. r\<lparr>process := Some np, lostwakeup := 0\<rparr>),
     initlock (VLock np)])
     (bnd (bnd (getp p process) deref) (\<lambda>q. sq (acquire (VLock q))
       (bnd (getp p pgdir) (\<lambda>pd. bnd (getp q sz) (\<lambda>n. bnd (copyuvm pd n) (\<lambda>d.
         sq (setp np (\<lambda>r. r\<lparr>pgdir := d\<rparr>))
         (if d = 0 then sq (seqs [
             bnd (getp np kstack) kfree,
             setp np (\<lambda>r. r\<lparr>kstack := 0, pstate := UNUSED\<rparr>),
             release (VLock q)]) (ret (- 1))
          else sq (seqs [
             bnd (getp q sz) (\<lambda>n. setp np (\<lambda>r. r\<lparr>sz := n\<rparr>)),
             release (VLock q)]) (fork_finish p q np))))))))"

definition fork :: "int km" where
  "fork = bnd curproc (\<lambda>p. bnd allocproc (\<lambda>r. case r of None \<Rightarrow> ret (- 1) | Some np \<Rightarrow> fork_child p np))"

section \<open>clone\<close>

definition push_args :: "u32 \<Rightarrow> u32 \<Rightarrow> u32 \<Rightarrow> u32 km" where
  "push_args stack arg1 arg2 = sq (seqs [
     write_user (stack - 4) (split32 arg2),
     write_user (stack - 8) (split32 arg1),
     write_user (stack - 12) (split32 0xffffffff)]) (ret (stack - 12))"

definition clone_thread :: "nat \<Rightarrow> nat \<Rightarrow> u32 \<Rightarrow> u32 \<Rightarrow> u32 \<Rightarrow> u32 \<Rightarrow> int km" where
  "clone_thread p np fn arg1 arg2 stack = sq (seqs [
     bnd (getp p tgid) (\<lambda>g. setp np (\<lambda>r. r\<lparr>tgid := g\<rparr>)),
     bnd (getp p process) (\<lambda>q. setp np (\<lambda>r. r\<lparr>process := q, lostwakeup := 0\<rparr>)),
     initlock (VLock np),
     bnd (bnd (getp p process) deref) (\<lambda>q. seqs [
       acquire (VLock q),
       bnd (getp p pgdir) (\<lambda>pd. setp np (\<lambda>r. r\<lparr>pgdir := pd, sz := 0\<rparr>)),
       release (VLock q)]),
     setp np (\<lambda>r. r\<lparr>threadcount := 0\<rparr>),
     bnd (getp p parent) (\<lambda>q. setp np (\<lambda>r. r\<lparr>parent := q\<rparr>)),
     bnd (getp np tf) (\<lambda>a. bnd (getp p tf) (\<lambda>b. bnd (getsh (\<lambda>x. trapframes x b)) (\<lambda>t. seqs [
       settf a (\<lambda>_. t),
       bnd (push_args stack arg1 arg2) (\<lambda>sp. settf a (\<lambda>t. t\<lparr>tf_eip := fn, tf_esp := sp\<rparr>))]))),
     dup_files p np,
     setp np (\<lambda>r. r\<lparr>cwd := None\<rparr>),
     bnd (getp p pname) (\<lambda>s. setp np (\<lambda>r. r\<lparr>pname := copy_name s (pname r)\<rparr>))])
     (bnd (getp np pid) (\<lambda>i. sq (seqs [
       acquire PtableLock,
       bnd (getp p killed) (\<lambda>k.
         if k then setp np (\<lambda>r. r\<lparr>pstate := ZOMBIE\<rparr>)
         else sq (setp np (\<lambda>r. r\<lparr>pstate := RUNNABLE\<rparr>))
           (bnd (bnd (getp p process) deref) (\<lambda>q. setp q (\<lambda>r. r\<lparr>threadcount := threadcount r + 1\<rparr>)))),
       release PtableLock]) (ret i)))"

definition clone :: "u32 \<Rightarrow> u32 \<Rightarrow> u32 \<Rightarrow> u32 \<Rightarrow> int km" where
  "clone fn arg1 arg2 stack = bnd curproc (\<lambda>p. bnd (bnd (getp p process) deref) (\<lambda>q. bnd (getp q sz) (\<lambda>n.
     if stack - 4096 \<ge> n \<or> stack > n then ret (- 1)
     else bnd allocproc (\<lambda>r. case r of None \<Rightarrow> ret (- 1)
       | Some np \<Rightarrow> clone_thread p np fn arg1 arg2 stack))))"

section \<open>exit\<close>

definition close_files :: "nat \<Rightarrow> unit km" where
  "close_files p = seqs (map (\<lambda>fd. bnd (getp p (\<lambda>r. ofile r ! fd)) (\<lambda>f. case f of
     None \<Rightarrow> ret ()
   | Some f \<Rightarrow> seqs [fileclose f, setp p (\<lambda>r. r\<lparr>ofile := (ofile r)[fd := None]\<rparr>)])) [0..<NOFILE])"

definition reparent :: "nat \<Rightarrow> nat \<Rightarrow> unit km" where
  "reparent p i = bnd (getp i parent) (\<lambda>q. whenk (q = Some p) (bnd (getsh initproc) (\<lambda>ini. seqs [
     setp i (\<lambda>r. r\<lparr>parent := ini\<rparr>),
     bnd (getp i pstate) (\<lambda>st. whenk (st = ZOMBIE) (bnd (getsh (ptr_addr ini)) wakeup1))])))"

text \<open>The part of \<open>exit\<close> under \<open>ptable.lock\<close> that takes the thread out of its group.\<close>

definition leave_group :: "nat \<Rightarrow> unit km" where
  "leave_group p = seqs [
     bnd (getp p parent) (\<lambda>q. bnd (getsh (ptr_addr q)) wakeup1),
     bnd (getp p process) (\<lambda>q. bnd (getsh (ptr_addr q)) wakeup1),
     bnd (bnd (getp p process) deref) (\<lambda>q. setp q (\<lambda>r. r\<lparr>threadcount := threadcount r - 1\<rparr>)),
     seqs (map (reparent p) [0..<NPROC]),
     setp p (\<lambda>r. r\<lparr>pstate := ZOMBIE\<rparr>)]"

text \<open>What \<open>exit\<close> does before that: it closes the files, drops the directory when it is the last
  thread of its group, and takes \<open>ptable.lock\<close>.\<close>

definition exit_prep :: "nat \<Rightarrow> unit km" where
  "exit_prep p = seqs [
     close_files p,
     acquire PtableLock,
     bnd (bnd (bnd (getp p process) deref) (\<lambda>q. getp q threadcount)) (\<lambda>n. seqs [
       release PtableLock,
       whenk (n = 1) (seqs [
         begin_op,
         bnd (bnd (getp p process) deref) (\<lambda>q. bnd (bnd (getp q cwd) deref) iput),
         end_op,
         setp p (\<lambda>r. r\<lparr>cwd := None\<rparr>)])]),
     acquire PtableLock]"

definition exit :: "unit km" where
  "exit = bnd curproc (\<lambda>p. bnd (getsh initproc) (\<lambda>ini.
     if ini = Some p then panic ''init exiting''
     else seqs [
       exit_prep p,
       leave_group p,
       sched,
       panic ''zombie exit'']))"

section \<open>wait and join\<close>

text \<open>Slots reaped by \<open>wait\<close> and \<open>join\<close> are cleared this way.\<close>

definition clear_slot :: "proc \<Rightarrow> proc" where
  "clear_slot r = r\<lparr>kstack := 0, context_p := 0, pid := 0, tgid := 0, parent := None,
     pname := (pname r)[0 := 0], killed := False, pstate := UNUSED, process := None, pgdir := 0, threadcount := 0\<rparr>"

text \<open>The scan for a child to harvest: whether there are children, and the group of the first one
  whose threads have all exited; \<open>None\<close> when a null pointer is followed.\<close>

fun wait_scan :: "proc list \<Rightarrow> nat option \<Rightarrow> nat list \<Rightarrow> bool \<Rightarrow> (bool \<times> int option) option" where
  "wait_scan ps q [] kids = Some (kids, None)"
| "wait_scan ps q (i # ks) kids =
     (if parent (ps ! i) \<noteq> q then wait_scan ps q ks kids
      else case process (ps ! i) of None \<Rightarrow> None
        | Some l \<Rightarrow> if threadcount (ps ! l) = 0 then Some (True, Some (tgid (ps ! i))) else wait_scan ps q ks True)"

text \<open>One round of the loop: \<open>Some None\<close> to return -1, \<open>Some (Some g)\<close> to reap group \<open>g\<close>, \<open>None\<close> to
  sleep.\<close>

definition wait_test :: "nat \<Rightarrow> int option option km" where
  "wait_test p = bnd (getp p process) (\<lambda>q. bnd (getsh ptable) (\<lambda>ps. bnd (getp p killed) (\<lambda>k.
     case wait_scan ps q [0..<NPROC] False of
       None \<Rightarrow> fault ''null pointer''
     | Some (kids, found) \<Rightarrow>
         ret (if \<not> kids \<or> k then Some None else map_option Some found))))"

definition group_sleep :: "nat \<Rightarrow> unit km" where
  "group_sleep p = bnd (getp p process) (\<lambda>q. bnd (getsh (ptr_addr q)) (\<lambda>c. sleep c (Some PtableLock)))"

definition reap :: "int \<Rightarrow> nat \<Rightarrow> unit km" where
  "reap g i = bnd (getp i id) (\<lambda>r.
     if tgid r \<noteq> g then ret ()
     else if pstate r = ZOMBIE then seqs [
       whenk (pid r = tgid r \<and> process r = Some i) (freevm (pgdir r)),
       bnd (getp i kstack) kfree,
       setp i clear_slot]
     else panic ''undead'')"

definition wait_find :: "nat \<Rightarrow> int option km" where
  "wait_find p = sq (acquire PtableLock) (sleep_loop (wait_test p) (group_sleep p))"

definition wait :: "int km" where
  "wait = bnd curproc (\<lambda>p. bnd (wait_find p) (\<lambda>r. case r of
     None \<Rightarrow> sq (release PtableLock) (ret (- 1))
   | Some g \<Rightarrow> sq (seqs [seqs (map (reap g) [0..<NPROC]), release PtableLock]) (ret g)))"

text \<open>When no slot has the pid, the code goes on to compare the word after the table.\<close>

definition join_find :: "nat \<Rightarrow> int \<Rightarrow> nat option km" where
  "join_find p i = bnd (getsh (\<lambda>x. scan (\<lambda>r. pid r = i) (ptable x))) (\<lambda>r. case r of
     Some j \<Rightarrow> bnd (getp j id) (\<lambda>r. bnd (getp p id) (\<lambda>c.
       ret (if tgid r = tgid c \<and> process r = process c then Some j else None)))
   | None \<Rightarrow> bnd (getsh past_pid) (\<lambda>e. if e \<noteq> i then ret None else fault ''out of bounds''))"

definition join_test :: "nat \<Rightarrow> nat \<Rightarrow> bool option km" where
  "join_test p j = bnd (getp j pstate) (\<lambda>st.
     if st = ZOMBIE then ret (Some True)
     else bnd (getp p killed) (\<lambda>k. ret (if k then Some False else None)))"

definition join_reap :: "nat \<Rightarrow> unit km" where
  "join_reap j = bnd (getp j id) (\<lambda>r. whenk (tgid r \<noteq> pid r \<and> process r \<noteq> Some j) (seqs [
     bnd (getp j kstack) kfree,
     setp j clear_slot]))"

text \<open>Finding the thread and waiting for it to exit: its slot, with \<open>ptable.lock\<close> held.\<close>

definition join_wait :: "nat \<Rightarrow> int \<Rightarrow> nat option km" where
  "join_wait p i = sq (acquire PtableLock) (bnd (join_find p i) (\<lambda>r. case r of
     None \<Rightarrow> ret None
   | Some j \<Rightarrow> bnd (sleep_loop (join_test p j) (group_sleep p)) (\<lambda>dead. ret (if dead then Some j else None))))"

definition join :: "int \<Rightarrow> int km" where
  "join i = bnd curproc (\<lambda>p. bnd (join_wait p i) (\<lambda>r. case r of
     None \<Rightarrow> sq (release PtableLock) (ret (- 1))
   | Some j \<Rightarrow> sq (seqs [join_reap j, release PtableLock]) (ret i)))"

end
