(* ===== verification/Thread_Groups.thy ===== *)
theory Thread_Groups
  imports Proc
begin

text \<open>
  Thread groups: the invariant that ties \<open>threadcount\<close> of a leader to the live threads that point
  to it, and its preservation by every operation on processes and threads while the others
  run.  The comment in \<open>clone\<close> states it: \<open>threadcount\<close> is the number of threads that use the
  page table of the group leader.
\<close>

section \<open>The invariant\<close>

definition members :: "proc list \<Rightarrow> nat \<Rightarrow> nat" where
  "members ps q = length (filter (\<lambda>r. process r = Some q \<and> live (pstate r)) ps)"

definition led :: "proc list \<Rightarrow> proc \<Rightarrow> bool" where
  "led ps r = (case process r of None \<Rightarrow> False | Some q \<Rightarrow> q < length ps \<and> process (ps ! q) = Some q \<and>
     tgid (ps ! q) = tgid r \<and> pstate (ps ! q) \<noteq> UNUSED \<and> pstate (ps ! q) \<noteq> EMBRYO)"

definition tg :: "proc list \<Rightarrow> bool" where
  "tg ps \<longleftrightarrow> length ps = NPROC \<and> (\<forall>q < length ps. unat (threadcount (ps ! q)) = members ps q) \<and>
     (\<forall>r \<in> set ps. live (pstate r) \<longrightarrow> led ps r)"

definition tg_ok :: "shared \<Rightarrow> bool" where
  "tg_ok x \<longleftrightarrow> tg (ptable x)"

text \<open>Two entries that look the same to the invariant.\<close>

definition grp_eq :: "proc \<Rightarrow> proc \<Rightarrow> bool" where
  "grp_eq r r' \<longleftrightarrow> threadcount r = threadcount r' \<and> process r = process r' \<and> tgid r = tgid r' \<and>
     (pstate r = pstate r' \<or> live (pstate r) \<and> live (pstate r'))"

lemma sched_eq_grp: "sched_eq r r' \<Longrightarrow> grp_eq r r'"
proof -
  assume "sched_eq r r'"
  then have c: "core r = core r'" and s: "pstate r = pstate r' \<or> live (pstate r) \<and> live (pstate r')"
    by (auto simp: sched_eq_def)
  have "threadcount (core r) = threadcount (core r')" "process (core r) = process (core r')"
      "tgid (core r) = tgid (core r')"
    unfolding c by simp_all
  then show ?thesis using s by (simp add: grp_eq_def core_def)
qed

lemma not_live [simp]: "\<not> live UNUSED" "\<not> live EMBRYO" "\<not> live ZOMBIE"
  by (simp_all add: live_def)

lemma is_live [simp]: "live RUNNABLE" "live RUNNING" "live SLEEPING"
  by (simp_all add: live_def)

lemma in_set_nth: "x \<in> set xs \<Longrightarrow> \<exists>i < length xs. x = xs ! i"
  by (auto simp: in_set_conv_nth)

lemma length_filter_update:
  "i < length xs \<Longrightarrow> length (filter P (xs[i := y])) + of_bool (P (xs ! i)) = length (filter P xs) + of_bool (P y)"
proof (induction xs arbitrary: i)
  case (Cons x xs)
  then show ?case using Cons.IH[of "i - 1"] by (cases i) auto
qed simp

lemma members_update:
  "i < length ps \<Longrightarrow> members (ps[i := r]) q + of_bool (process (ps ! i) = Some q \<and> live (pstate (ps ! i))) =
     members ps q + of_bool (process r = Some q \<and> live (pstate r))"
  unfolding members_def by (rule length_filter_update)

lemma members_pos: "r \<in> set ps \<Longrightarrow> process r = Some q \<Longrightarrow> live (pstate r) \<Longrightarrow> 0 < members ps q"
  by (auto simp: members_def filter_empty_conv)

lemma length_filter_cong2:
  "list_all2 (\<lambda>r r'. P r = P r') xs ys \<Longrightarrow> length (filter P xs) = length (filter P ys)"
  by (induction rule: list_all2_induct) simp_all

lemma members_grp_eq: "list_all2 grp_eq ps qs \<Longrightarrow> members ps q = members qs q"
  unfolding members_def by (rule length_filter_cong2) (auto simp: grp_eq_def elim!: list_all2_mono)

lemma led_grp_eq:
  assumes "list_all2 grp_eq ps qs" and "grp_eq r r'" and "led ps r"
  shows "led qs r'"
proof -
  obtain q where q: "process r = Some q" "q < length ps" "process (ps ! q) = Some q" "tgid (ps ! q) = tgid r"
      "pstate (ps ! q) \<noteq> UNUSED" "pstate (ps ! q) \<noteq> EMBRYO"
    using assms(3) by (auto simp: led_def split: option.splits)
  have "grp_eq (ps ! q) (qs ! q)" "length qs = length ps"
    using assms(1) q(2) by (auto simp: list_all2_conv_all_nth)
  then have "length qs = length ps" "process (qs ! q) = Some q" "tgid (qs ! q) = tgid r"
      "pstate (qs ! q) \<noteq> UNUSED" "pstate (qs ! q) \<noteq> EMBRYO"
    using q(3-6) unfolding grp_eq_def by (auto simp: live_def)
  moreover have "process r' = Some q" "tgid r' = tgid r" using q(1) assms(2) by (simp_all add: grp_eq_def)
  ultimately show ?thesis using q(2) by (simp add: led_def)
qed

lemma tgD:
  assumes "tg ps"
  shows "length ps = NPROC" and "q < length ps \<Longrightarrow> unat (threadcount (ps ! q)) = members ps q"
    and "i < length ps \<Longrightarrow> live (pstate (ps ! i)) \<Longrightarrow> led ps (ps ! i)"
  using assms by (simp_all only: tg_def nth_mem)

lemma tg_grp_eq:
  assumes "tg ps" and "list_all2 grp_eq ps qs"
  shows "tg qs"
proof -
  have l: "length qs = length ps" and e: "\<And>i. i < length ps \<Longrightarrow> grp_eq (ps ! i) (qs ! i)"
    using assms(2) by (auto simp: list_all2_conv_all_nth)
  have "unat (threadcount (qs ! q)) = members qs q" if "q < length qs" for q
    using that tgD(2)[OF assms(1), of q] e[of q] l members_grp_eq[OF assms(2), of q] by (simp add: grp_eq_def)
  moreover have "led qs r'" if "r' \<in> set qs" "live (pstate r')" for r'
  proof -
    obtain i where i: "i < length ps" "r' = qs ! i" using \<open>r' \<in> set qs\<close> l by (metis in_set_conv_nth)
    then have "live (pstate (ps ! i))" using e[of i] that(2) by (auto simp: grp_eq_def)
    then have "led ps (ps ! i)" using assms(1) i(1) by (simp add: tg_def)
    then show ?thesis using led_grp_eq[OF assms(2) e[OF i(1)]] i(2) by simp
  qed
  ultimately show ?thesis using assms(1) l by (simp add: tg_def)
qed

lemma tg_upd_same:
  assumes "tg ps" and "i < length ps \<Longrightarrow> grp_eq (ps ! i) r"
  shows "tg (ps[i := r])"
proof (rule tg_grp_eq[OF assms(1)])
  show "list_all2 grp_eq ps (ps[i := r])"
    using assms(2) by (cases "i < length ps") (auto simp: list_all2_conv_all_nth nth_list_update grp_eq_def list_update_beyond)
qed

section \<open>What the operations do to the table\<close>

text \<open>A slot that is free or being set up has no live threads.\<close>

lemma members_idle:
  assumes "tg ps" and "pstate (ps ! i) = UNUSED \<or> pstate (ps ! i) = EMBRYO"
  shows "members ps i = 0"
proof (rule ccontr)
  assume "members ps i \<noteq> 0"
  then obtain r where "r \<in> set ps" "process r = Some i" "live (pstate r)"
    by (auto simp: members_def filter_empty_conv)
  then have "led ps r" using assms(1) by (simp add: tg_def)
  then show False using \<open>process r = Some i\<close> assms(2) by (auto simp: led_def)
qed

lemma led_update:
  assumes "led ps r" and "process r \<noteq> Some i"
  shows "led (ps[i := y]) r"
  using assms by (auto simp: led_def split: option.splits)

lemma led_member:
  assumes "tg ps" and "r \<in> set ps" and "live (pstate r)" and "members ps i = 0"
  shows "led (ps[i := y]) r"
proof (rule led_update)
  show "led ps r" using assms by (simp add: tg_def)
  show "process r \<noteq> Some i" using members_pos[OF assms(2) _ assms(3), of i] assms(4) by auto
qed

lemma tg_upd_idle:
  assumes "tg ps" and i: "i < length ps" and "\<not> live (pstate (ps ! i))" and "\<not> live (pstate r)"
    and "threadcount r = threadcount (ps ! i)" and "members ps i = 0"
  shows "tg (ps[i := r])"
proof -
  have m: "members (ps[i := r]) q = members ps q" for q
    using members_update[OF i, of r q] assms(3,4) by simp
  have "led (ps[i := r]) r'" if "r' \<in> set (ps[i := r])" "live (pstate r')" for r'
  proof (rule led_member[OF assms(1)])
    show "r' \<in> set ps" using that assms(4) set_update_subset_insert[of ps i r] by auto
  qed (use that assms(6) in simp_all)
  then show ?thesis using assms(1,5) i by (auto simp: tg_def m nth_list_update)
qed

text \<open>\<open>fork\<close>: a slot that was set up becomes the first thread of its own group.\<close>

lemma tg_start:
  assumes "tg ps" and i: "i < length ps" and "pstate (ps ! i) = EMBRYO" and r: "process r = Some i" "live (pstate r)" "threadcount r = 1"
  shows "tg (ps[i := r])"
proof -
  have z: "members ps i = 0" using members_idle assms(1,3) by simp
  have m: "members (ps[i := r]) q = members ps q + of_bool (q = i)" for q
    using members_update[OF i, of r q] assms(3) r by auto
  have "led (ps[i := r]) r'" if "r' \<in> set (ps[i := r])" "live (pstate r')" for r'
  proof (cases "r' = r")
    case True
    then show ?thesis using i r by (auto simp: led_def live_def)
  next
    case False
    then have "r' \<in> set ps" using that set_update_subset_insert[of ps i r] by auto
    then show ?thesis by (rule led_member[OF assms(1) _ that(2) z])
  qed
  then show ?thesis using assms(1) i r z by (auto simp: tg_def m nth_list_update)
qed

text \<open>\<open>clone\<close>: a slot that was set up joins the group \<open>q\<close> of a live thread \<open>j\<close>.\<close>

lemma members_le: "members ps q \<le> length ps"
  by (simp add: members_def)

lemma tg_enter:
  assumes "tg ps" and i: "i < length ps" and "pstate (ps ! i) = EMBRYO"
    and j: "j < length ps" "live (pstate (ps ! j))" "process (ps ! j) = Some q"
    and r: "process r = Some q" "tgid r = tgid (ps ! j)" "live (pstate r)" "threadcount r = threadcount (ps ! i)"
  shows "tg (ps[i := r, q := (ps ! q)\<lparr>threadcount := threadcount (ps ! q) + 1\<rparr>])" (is "tg ?qs")
proof -
  have "led ps (ps ! j)" using assms(1) j by (simp add: tg_def)
  then have q: "q < length ps" "process (ps ! q) = Some q" "tgid (ps ! q) = tgid (ps ! j)"
      "pstate (ps ! q) \<noteq> UNUSED" "pstate (ps ! q) \<noteq> EMBRYO"
    using j(3) by (auto simp: led_def)
  then have ne: "i \<noteq> q" using assms(3) by auto
  have z: "members ps i = 0" using members_idle assms(1,3) by simp
  have m: "members ?qs k = members ps k + of_bool (k = q)" for k
    using members_update[OF i, of r k] members_update[of q "ps[i := r]" "(ps ! q)\<lparr>threadcount := threadcount (ps ! q) + 1\<rparr>" k]
      assms(3) q r ne by auto
  have "members ps q < 2 ^ 32 - 1" using members_le[of ps q] assms(1) by (simp add: tg_def)
  then have "unat (threadcount (ps ! q) + 1) = members ps q + 1"
    using assms(1) q(1) by (simp add: tg_def unat_word_ariths(1))
  then have c: "unat (threadcount (?qs ! k)) = members ?qs k" if "k < length ps" for k
    using that assms(1) i q(1) ne r(4) by (auto simp: tg_def m nth_list_update)
  have l: "led ?qs x" if "led (ps[i := r]) x" for x
    using that q ne by (auto simp: led_def nth_list_update split: option.splits)
  have "led ?qs r'" if r': "r' \<in> set ?qs" "live (pstate r')" for r'
  proof (rule l)
    obtain k where k: "k < length ps" "r' = ?qs ! k" using in_set_nth[OF r'(1)] by (auto simp only: length_list_update)
    consider "k = i" | "k = q" | "k \<noteq> i" "k \<noteq> q" by blast
    then show "led (ps[i := r]) r'"
    proof cases
      case 1
      then show ?thesis using k i ne q r by (auto simp: led_def)
    next
      case 2
      then show ?thesis using k i ne q by (auto simp: led_def nth_list_update)
    next
      case 3
      then have "r' = ps ! k" using k by simp
      then show ?thesis using k(1) r'(2) z by (intro led_member[OF assms(1)]) simp_all
    qed
  qed
  then show ?thesis using assms(1) c by (simp add: tg_def)
qed

text \<open>\<open>exit\<close>: the live thread \<open>p\<close> of group \<open>q\<close> becomes a zombie.\<close>

lemma tg_leave:
  assumes "tg ps" and p: "p < length ps" "live (pstate (ps ! p))" "process (ps ! p) = Some q"
    and qs: "qs = ps[q := (ps ! q)\<lparr>threadcount := threadcount (ps ! q) - 1\<rparr>]"
  shows "tg (qs[p := (qs ! p)\<lparr>pstate := ZOMBIE\<rparr>])" (is "tg ?rs")
proof -
  have "led ps (ps ! p)" using assms(1) p by (simp add: tg_def)
  then have q: "q < length ps" using p(3) by (auto simp: led_def)
  have e: "process (qs ! k) = process (ps ! k)" "tgid (qs ! k) = tgid (ps ! k)" "pstate (qs ! k) = pstate (ps ! k)"
    if "k < length ps" for k using that q by (auto simp: qs nth_list_update)
  have ql: "length qs = length ps" by (simp add: qs)
  have "members qs k = members ps k" for k
    using members_update[OF q, of "(ps ! q)\<lparr>threadcount := threadcount (ps ! q) - 1\<rparr>" k] by (simp add: qs)
  then have m: "members ps k = members ?rs k + of_bool (k = q)" for k
    using members_update[of p qs "(qs ! p)\<lparr>pstate := ZOMBIE\<rparr>" k] p e ql by auto
  have "unat (threadcount (ps ! q)) = members ?rs q + 1" using assms(1) q by (simp add: tg_def m)
  moreover have "threadcount (ps ! q) \<noteq> 0" using calculation by (auto simp: unat_0_iff[symmetric] simp del: unat_0_iff)
  ultimately have "unat (threadcount (ps ! q) - 1) = members ?rs q" using unat_minus_one[of "threadcount (ps ! q)"] by simp
  then have c: "unat (threadcount (?rs ! k)) = members ?rs k" if "k < length ps" for k
    using that assms(1) m[of k] p(1) q by (cases "k = q"; cases "k = p") (auto simp: tg_def qs nth_list_update)
  have s: "process (?rs ! k) = process (ps ! k)" "tgid (?rs ! k) = tgid (ps ! k)"
      "pstate (?rs ! k) = pstate (ps ! k) \<or> pstate (?rs ! k) = ZOMBIE"
    if "k < length ps" for k using that e ql p(1) by (auto simp: nth_list_update)
  have "led ?rs r'" if r': "r' \<in> set ?rs" "live (pstate r')" for r'
  proof -
    obtain k where k: "k < length ps" "r' = ?rs ! k" using in_set_nth[OF r'(1)] ql by (auto simp only: length_list_update)
    then have "pstate r' = pstate (ps ! k)" using r'(2) s(3)[of k] by auto
    then have "led ps (ps ! k)" using assms(1) k r'(2) by (simp add: tg_def)
    then obtain l where l: "process (ps ! k) = Some l" "l < length ps" "process (ps ! l) = Some l" "tgid (ps ! l) = tgid (ps ! k)"
        "pstate (ps ! l) \<noteq> UNUSED" "pstate (ps ! l) \<noteq> EMBRYO"
      by (auto simp: led_def split: option.splits)
    have "pstate (?rs ! l) \<noteq> UNUSED" "pstate (?rs ! l) \<noteq> EMBRYO" using s(3)[OF l(2)] l(5,6) by auto
    then show ?thesis using l(1-4) s(1,2)[OF l(2)] s(1,2)[OF k(1)] k(2) ql by (simp add: led_def)
  qed
  then show ?thesis using assms(1) c ql by (simp add: tg_def)
qed

text \<open>\<open>wait\<close>: all slots of a dead group are cleared.\<close>

definition reap_all :: "int \<Rightarrow> proc list \<Rightarrow> proc list" where
  "reap_all g ps = map (\<lambda>r. if tgid r = g then clear_slot r else r) ps"

lemma tg_reap_all:
  assumes "tg ps" and dead: "\<And>r. r \<in> set ps \<Longrightarrow> tgid r = g \<Longrightarrow> pstate r = ZOMBIE"
  shows "tg (reap_all g ps)"
proof -
  let ?c = "\<lambda>r. if tgid r = g then clear_slot r else r"
  have n: "reap_all g ps ! k = ?c (ps ! k)" if "k < length ps" for k using that by (simp add: reap_all_def)
  have cl: "\<not> live (pstate (clear_slot r))" "threadcount (clear_slot r) = 0" for r by (simp_all add: clear_slot_def)
  have liv: "live (pstate (?c r)) \<longleftrightarrow> live (pstate r)" if "r \<in> set ps" for r
    using that dead[of r] cl(1)[of r] by auto
  have m: "members (reap_all g ps) q = members ps q" for q
  proof -
    have "filter (\<lambda>r. process r = Some q \<and> live (pstate r)) (map ?c ps) =
        filter (\<lambda>r. process r = Some q \<and> live (pstate r)) ps"
    proof -
      have "map ?c (filter (\<lambda>r. process (?c r) = Some q \<and> live (pstate (?c r))) ps) =
          map id (filter (\<lambda>r. process r = Some q \<and> live (pstate r)) ps)"
        using liv dead by (intro map_cong filter_cong refl) (auto simp: cl)
      then show ?thesis by (simp add: filter_map comp_def)
    qed
    then show ?thesis by (simp add: members_def reap_all_def)
  qed
  have ldr: "tgid (ps ! q) \<noteq> g" if "r \<in> set ps" "live (pstate r)" "process r = Some q" for r q
    using that assms(1) dead[of r] by (auto simp: tg_def led_def)
  have "unat (threadcount (reap_all g ps ! q)) = members (reap_all g ps) q" if q: "q < length ps" for q
  proof (cases "tgid (ps ! q) = g")
    case True
    have "members ps q = 0"
      using ldr True by (auto simp: members_def filter_empty_conv)
    then show ?thesis using True q by (simp add: n m cl)
  next
    case False
    then show ?thesis using assms(1) q by (simp add: n m tg_def)
  qed
  moreover have "led (reap_all g ps) r'" if r': "r' \<in> set (reap_all g ps)" "live (pstate r')" for r'
  proof -
    obtain r where r: "r \<in> set ps" "r' = ?c r" using r'(1) by (auto simp: reap_all_def)
    then have rr: "r' = r" "live (pstate r)" using liv[OF r(1)] r'(2) dead[OF r(1)] by auto
    then have "led ps r" using assms(1) r(1) by (simp add: tg_def)
    then show ?thesis using ldr[OF r(1) rr(2)] n rr(1) by (auto simp: led_def reap_all_def split: option.splits)
  qed
  moreover have "length (reap_all g ps) = length ps" by (simp add: reap_all_def)
  ultimately show ?thesis using assms(1) by (simp add: tg_def)
qed

section \<open>The invariant under interference\<close>

interpretation tg: ptable_inv tg_ok
proof unfold_locales
  fix x ps assume "tg_ok x" "list_all2 sched_eq (ptable x) ps"
  then show "tg_ok (x\<lparr>ptable := ps\<rparr>)"
    using tg_grp_eq[of "ptable x" ps] list_all2_mono[of sched_eq "ptable x" ps grp_eq] by (simp add: tg_ok_def sched_eq_grp)
qed (simp add: tg_ok_def)

text \<open>A thread in slot \<open>p\<close> that sets up the slot \<open>np\<close>: the slot stays \<open>EMBRYO\<close>, and what \<open>E\<close> says of
  the group of the two slots holds.\<close>

definition own :: "nat \<Rightarrow> nat \<Rightarrow> (nat option \<times> int \<times> nat option \<times> int \<Rightarrow> bool) \<Rightarrow> shared \<Rightarrow> bool" where
  "own p np E x \<longleftrightarrow> tg_ok x \<and> np < length (ptable x) \<and> p < length (ptable x) \<and> pstate (ptable x ! np) = EMBRYO \<and>
     E (process (ptable x ! np), tgid (ptable x ! np), process (ptable x ! p), tgid (ptable x ! p))"

interpretation own: ptable_inv "own p np E" for p np E
proof unfold_locales
  fix x ps assume a: "own p np E x" "list_all2 sched_eq (ptable x) ps"
  have g: "length ps = length (ptable x)" "\<And>i. i < length ps \<Longrightarrow> grp_eq (ptable x ! i) (ps ! i)"
    using a(2) by (auto simp: list_all2_conv_all_nth sched_eq_grp)
  have "tg_ok (x\<lparr>ptable := ps\<rparr>)" using a by (intro tg.stable) (simp_all add: own_def)
  moreover have "pstate (ps ! np) = EMBRYO" using a(1) g(1) g(2)[of np] by (auto simp: own_def grp_eq_def)
  ultimately show "own p np E (x\<lparr>ptable := ps\<rparr>)"
    using a(1) g(1) g(2)[of np] g(2)[of p] by (simp add: own_def grp_eq_def)
qed (auto simp: own_def tg_ok_def)

text \<open>What the thread relies on: the others leave the slot it sets up alone, and its own group.\<close>

definition spares :: "nat \<Rightarrow> nat \<Rightarrow> (shared \<Rightarrow> shared) \<Rightarrow> bool" where
  "spares p np f \<longleftrightarrow> env_ok tg_ok p f \<and> (\<forall>x. own p np (\<lambda>_. True) x \<longrightarrow>
     pstate (ptable (f x) ! np) = EMBRYO \<and>
     process (ptable (f x) ! np) = process (ptable x ! np) \<and> tgid (ptable (f x) ! np) = tgid (ptable x ! np) \<and>
     process (ptable (f x) ! p) = process (ptable x ! p) \<and> tgid (ptable (f x) ! p) = tgid (ptable x ! p))"

abbreviation sets_up :: "nat \<Rightarrow> nat \<Rightarrow> (nat option \<times> int \<times> nat option \<times> int \<Rightarrow> bool) \<Rightarrow> kst \<Rightarrow> bool" where
  "sets_up p np E \<equiv> thr (own p np E) (spares p np) p"

abbreviation grouped :: "nat \<Rightarrow> kst \<Rightarrow> bool" where
  "grouped p \<equiv> thr tg_ok (\<lambda>_. True) p"

lemma spares_env:
  assumes "spares p np f"
  shows "env_ok (own p np E) p f"
proof -
  have "own p np E (f x) \<and> length (ptable (f x)) = length (ptable x) \<and>
      (pstate (ptable x ! p) = RUNNING \<longrightarrow> pstate (ptable (f x) ! p) = RUNNING)"
    if x: "own p np E x" "p < length (ptable x)" for x
  proof -
    have "own p np (\<lambda>_. True) x" "tg_ok x" using x(1) by (simp_all add: own_def)
    then show ?thesis using assms x unfolding spares_def env_ok_def by (simp add: own_def)
  qed
  then show ?thesis by (simp add: env_ok_def)
qed

lemma thr_weaken:
  assumes "thr W R p s" and "W' (sh s)" and "\<And>f. R f \<Longrightarrow> R' f" "\<And>f. R f \<Longrightarrow> env_ok W p f \<Longrightarrow> env_ok W' p f"
  shows "thr W' R' p s"
  using assms by (simp add: thr_def thr_at_def)

lemma sets_up_grouped: "sets_up p np E s \<Longrightarrow> grouped p s"
  by (rule thr_weaken, assumption) (simp_all add: thr_def thr_at_def own_def spares_def)

lemma sets_up_mono: "sets_up p np E s \<Longrightarrow> (\<And>v. E v \<Longrightarrow> E' v) \<Longrightarrow> sets_up p np E' s"
  by (rule thr_weaken, assumption) (simp_all add: thr_def thr_at_def own_def spares_env)

lemma thr_upd:
  assumes "thr W R p s" and "W' (upd_proc i f (sh s))" and "p \<noteq> i \<or> pstate (f (ptable (sh s) ! i)) = RUNNING"
    and "\<And>f. R f \<Longrightarrow> R' f" "\<And>f. R f \<Longrightarrow> env_ok W p f \<Longrightarrow> env_ok W' p f"
  shows "thr W' R' p (s\<lparr>sh := upd_proc i f (sh s)\<rparr>)"
  using assms by (auto simp: thr_def thr_at_def nth_upd_proc)

lemma rest_own: "rest (own p np E) s \<Longrightarrow> rest tg_ok s"
  by (simp add: rest_def own_def)

lemma sets_up_ne: "sets_up p np E s \<Longrightarrow> p \<noteq> np"
  by (auto simp: thr_def thr_at_def own_def)

end
