(* ===== verification/Lifecycle.thy ===== *)
theory Lifecycle
  imports Thread_Groups
begin

text \<open>
  The operations that create, end and reap threads keep the thread groups: \<open>fork\<close>, \<open>clone\<close>,
  \<open>exit\<close>, \<open>wait\<close> and \<open>join\<close>, each run against any script of the others that leaves alone what
  the code owns at that point.
\<close>

section \<open>Updates of one slot\<close>

lemma pres_setp_tg:
  assumes "\<And>r. grp_eq r (f r)" and "\<And>r. pstate r = RUNNING \<Longrightarrow> pstate (f r) = RUNNING"
  shows "pres (thr tg_ok R p) J (setp i f)"
proof -
  have "tg_ok (upd_proc i f x)" if "tg_ok x" for x
    using that assms(1) tg_upd_same[of "ptable x" i "f (ptable x ! i)"] by (simp add: tg_ok_def upd_proc_def)
  then show ?thesis unfolding setp_def using assms(2) by (intro pres_modsh) (auto simp: nth_upd_proc)
qed

lemma own_upd:
  assumes "own p np E x" and "pstate (f (ptable x ! np)) = EMBRYO" and "p \<noteq> np"
    and "threadcount (f (ptable x ! np)) = threadcount (ptable x ! np) \<or> threadcount (f (ptable x ! np)) = 0"
    and "E' (process (f (ptable x ! np)), tgid (f (ptable x ! np)), process (ptable x ! p), tgid (ptable x ! p))"
  shows "own p np E' (upd_proc np f x)"
proof -
  have t: "tg (ptable x)" "np < length (ptable x)" "pstate (ptable x ! np) = EMBRYO"
    using assms(1) by (auto simp: own_def tg_ok_def)
  then have "members (ptable x) np = 0" by (intro members_idle) simp_all
  moreover have "threadcount (ptable x ! np) = 0" using tgD(2)[OF t(1,2)] calculation by (simp add: unat_eq_zero)
  ultimately have "tg ((ptable x)[np := f (ptable x ! np)])"
    using t assms(2,4) by (intro tg_upd_idle) auto
  then show ?thesis using assms t(2) by (auto simp: own_def tg_ok_def upd_proc_def)
qed

lemma trip_setp_own:
  assumes "\<And>r. pstate r = EMBRYO \<Longrightarrow> pstate (f r) = EMBRYO"
    and "\<And>r. threadcount (f r) = threadcount r \<or> threadcount (f r) = 0"
    and "\<And>r c d. E (process r, tgid r, c, d) \<Longrightarrow> E' (process (f r), tgid (f r), c, d)"
  shows "trip (sets_up p np E) (setp np f) (\<lambda>_. sets_up p np E') J"
proof (rule trip_setp)
  fix s assume s: "sets_up p np E s"
  have "own p np E (sh s)" using s by (simp add: thr_def thr_at_def)
  then have "own p np E' (upd_proc np f (sh s))"
    using assms sets_up_ne[OF s] by (intro own_upd) (auto simp: own_def)
  then show "sets_up p np E' (s\<lparr>sh := upd_proc np f (sh s)\<rparr>)"
    using sets_up_ne[OF s] by (intro thr_upd[OF s] spares_env) auto
qed

lemma pres_setp_own:
  assumes "\<And>r. pstate (f r) = pstate r" "\<And>r. process (f r) = process r" "\<And>r. tgid (f r) = tgid r"
    "\<And>r. threadcount (f r) = threadcount r \<or> threadcount (f r) = 0"
  shows "pres (sets_up p np E) J (setp np f)"
  unfolding pres_trip using assms by (intro trip_setp_own) simp_all

text \<open>Handing the slot back.\<close>

lemma trip_setp_drop:
  assumes "\<And>r. \<not> live (pstate (f r))" and "\<And>r. threadcount (f r) = threadcount r"
  shows "trip (sets_up p np E) (setp np f) (\<lambda>_. grouped p) J"
proof (rule trip_setp)
  fix s assume s: "sets_up p np E s"
  have t: "tg (ptable (sh s))" "np < length (ptable (sh s))" "pstate (ptable (sh s) ! np) = EMBRYO"
    using s by (auto simp: thr_def thr_at_def own_def tg_ok_def)
  then have "tg_ok (upd_proc np f (sh s))"
    using assms members_idle[of "ptable (sh s)" np] by (auto simp: tg_ok_def upd_proc_def intro!: tg_upd_idle)
  then show "grouped p (s\<lparr>sh := upd_proc np f (sh s)\<rparr>)"
    using sets_up_ne[OF s] by (intro thr_upd[OF s]) (auto simp: spares_def)
qed

section \<open>allocproc\<close>

lemma alloc_slot_None:
  "grouped p s \<Longrightarrow> alloc_slot s = Ok None t \<Longrightarrow> grouped p t"
  using thr_interfere[of tg_ok "\<lambda>_. True" p s]
  by (auto simp: alloc_slot_def kdefs split: if_splits option.splits)

lemma alloc_slot_awake: "alloc_slot s \<noteq> Asleep t"
  by (auto simp: alloc_slot_def kdefs split: option.splits)

lemma slot_found: "scan P xs = Some i \<Longrightarrow> i < length xs \<and> P (xs ! i)"
  by (induction xs arbitrary: i) (auto split: if_splits)

lemma alloc_slot_Some:
  assumes "grouped p s" and a: "alloc_slot s = Ok (Some np) t" and "\<forall>f\<in>set (others t). spares p np f"
  shows "sets_up p np (\<lambda>_. True) t"
proof -
  let ?x = "sh (interfere s)"
  let ?f = "\<lambda>r. r\<lparr>pstate := EMBRYO, pid := nextpid ?x\<rparr>"
  have i: "grouped p (interfere s)" using assms(1) by (rule thr_interfere)
  have n: "scan (\<lambda>r. pstate r = UNUSED) (ptable ?x) = Some np"
    and t: "sh t = (upd_proc np ?f ?x)\<lparr>nextpid := nextpid ?x + 1\<rparr>" "curp t = curp (interfere s)"
    using a by (auto simp: alloc_slot_def kdefs split: if_splits option.splits)
  have u: "np < length (ptable ?x)" "pstate (ptable ?x ! np) = UNUSED" using slot_found[OF n] by simp_all
  have g: "tg (ptable ?x)" "p < length (ptable ?x)" "curp (interfere s) = Some p" "pstate (ptable ?x ! p) = RUNNING"
    using i by (simp_all add: thr_def thr_at_def tg_ok_def)
  have "members (ptable ?x) np = 0" using members_idle[OF g(1)] u(2) by simp
  then have "tg ((ptable ?x)[np := ?f (ptable ?x ! np)])" using g(1) u by (intro tg_upd_idle) simp_all
  then have "own p np (\<lambda>_. True) (sh t)" using t(1) u(1) g(2) by (simp add: own_def tg_ok_def upd_proc_def)
  moreover have "p \<noteq> np" using g(4) u(2) by auto
  ultimately show ?thesis using t g assms(3) by (auto simp: thr_def thr_at_def nth_upd_proc spares_env)
qed

text \<open>Steps that keep the slot as it is, in front of a triple.\<close>

lemma sets_up_pres:
  assumes "pres (sets_up p np E) (rest (own p np E)) m"
  shows "trip (sets_up p np E) m (\<lambda>_. sets_up p np E) (rest tg_ok)"
  by (rule trip_pres[OF assms rest_own])

lemma sets_up_bnd:
  assumes "pres (sets_up p np E) (rest (own p np E)) m" and "\<And>x. trip (sets_up p np E) (f x) Q (rest tg_ok)"
  shows "trip (sets_up p np E) (bnd m f) Q (rest tg_ok)"
  by (rule trip_bnd[OF trip_pres[OF assms(1) rest_own] assms(2)])

lemma sets_up_sq:
  assumes "pres (sets_up p np E) (rest (own p np E)) m" and "trip (sets_up p np E) k Q (rest tg_ok)"
  shows "trip (sets_up p np E) (sq m k) Q (rest tg_ok)"
  unfolding sq_def using assms by (rule sets_up_bnd)

lemma trip_seqs: "trip P m (\<lambda>_. Q) J \<Longrightarrow> trip Q (seqs ms) R J \<Longrightarrow> trip P (seqs (m # ms)) R J"
  unfolding seqs.simps by (rule trip_bnd)

lemma trip_ret_same: "trip P (ret x) (\<lambda>_. P) J"
  by (rule trip_ret)

lemma grouped_pres:
  assumes "pres (grouped p) (rest tg_ok) m"
  shows "trip (grouped p) m (\<lambda>_. grouped p) (rest tg_ok)"
  using assms by (simp add: pres_trip)

lemmas own_steps = pres_intros pres_setp_own own.pres_modsh_frame

lemma trip_alloc_stack:
  "trip (sets_up p np E) (alloc_stack np) (\<lambda>r s. case r of None \<Rightarrow> grouped p s | Some i \<Rightarrow> i = np \<and> sets_up p np E s) (rest tg_ok)"
    (is "trip ?P _ ?Q ?J")
  unfolding alloc_stack_def Let_def
proof (rule sets_up_bnd[OF own.pres_kalloc], rule sets_up_sq, goal_cases)
  case (1 ks)
  show ?case by (rule pres_setp_own) simp_all
next
  case (2 ks)
  have "trip ?P (sq (setp np (\<lambda>p. p\<lparr>pstate := UNUSED\<rparr>)) (ret None)) ?Q ?J"
    by (rule trip_sq[OF trip_setp_drop trip_ret]) simp_all
  moreover have "trip ?P (sq (seqs [setp np (\<lambda>p. p\<lparr>tf := a\<rparr>), st32 b c, setp np (\<lambda>p. p\<lparr>context_p := d\<rparr>),
      modsh (\<lambda>x. x\<lparr>contexts := f x\<rparr>)]) (ret (Some np))) ?Q ?J" for a b c d f
    by (rule sets_up_sq[OF _ trip_ret], (intro own_steps; simp), simp)
  ultimately show ?case by (intro trip_if sets_up_bnd[OF pres_getsh])
qed

section \<open>fork\<close>

definition new_group :: "nat \<Rightarrow> nat option \<times> int \<times> nat option \<times> int \<Rightarrow> bool" where
  "new_group np v \<longleftrightarrow> fst v = Some np"

lemma trip_fork_finish:
  "trip (sets_up p np (new_group np)) (fork_finish p q np) (\<lambda>_. grouped p) (rest tg_ok)"
  unfolding fork_finish_def
proof (rule sets_up_sq, goal_cases)
  case 1
  show ?case unfolding dup_files_def settf_def by (intro own_steps; simp)
next
  case 2
  let ?f = "\<lambda>r. r\<lparr>pstate := RUNNABLE, threadcount := 1\<rparr>"
  have f: "trip (sets_up p np (new_group np)) (setp np ?f) (\<lambda>_. grouped p) (rest tg_ok)"
  proof (rule trip_setp)
    fix s assume s: "sets_up p np (new_group np) s"
    have t: "tg (ptable (sh s))" "np < length (ptable (sh s))" "pstate (ptable (sh s) ! np) = EMBRYO"
        "process (ptable (sh s) ! np) = Some np"
      using s by (auto simp: thr_def thr_at_def own_def tg_ok_def new_group_def)
    then have "tg_ok (upd_proc np ?f (sh s))"
      by (auto simp: tg_ok_def upd_proc_def intro!: tg_start)
    then show "grouped p (s\<lparr>sh := upd_proc np ?f (sh s)\<rparr>)"
      using sets_up_ne[OF s] by (intro thr_upd[OF s]) (auto simp: spares_def)
  qed
  have "trip (sets_up p np (new_group np))
      (seqs [acquire PtableLock, setp np ?f, release PtableLock]) (\<lambda>_. grouped p) (rest tg_ok)"
    unfolding seqs.simps by (intro sets_up_bnd[OF pres_acquire] trip_bnd[OF f] grouped_pres pres_intros)
  then show ?case by (intro sets_up_bnd[OF pres_getp] trip_sq[OF _ trip_ret])
qed

lemma trip_fork_child: "trip (sets_up p np (\<lambda>_. True)) (fork_child p np) (\<lambda>_. grouped p) (rest tg_ok)"
proof -
  let ?E = "new_group np"
  let ?P = "sets_up p np ?E"
  have a: "trip (sets_up p np (\<lambda>_. True)) (setp np (\<lambda>r. r\<lparr>tgid := i\<rparr>)) (\<lambda>_. sets_up p np (\<lambda>_. True)) (rest tg_ok)" for i
    by (rule trip_setp_own) simp_all
  have b: "trip (sets_up p np (\<lambda>_. True)) (setp np (\<lambda>r. r\<lparr>process := Some np, lostwakeup := 0\<rparr>)) (\<lambda>_. ?P) (rest tg_ok)"
    by (rule trip_setp_own) (simp_all add: new_group_def)
  have 1: "trip (sets_up p np (\<lambda>_. True)) (seqs [
      bnd (getp np pid) (\<lambda>i. setp np (\<lambda>r. r\<lparr>tgid := i\<rparr>)),
      setp np (\<lambda>r. r\<lparr>process := Some np, lostwakeup := 0\<rparr>), initlock (VLock np)]) (\<lambda>_. ?P) (rest tg_ok)"
    unfolding seqs.simps bnd_assoc
    by (intro sets_up_bnd[OF pres_getp] trip_bnd[OF a] trip_bnd[OF b] sets_up_bnd[OF pres_initlock] trip_ret_same)
  have c: "trip ?P (setp np (\<lambda>r. r\<lparr>kstack := 0, pstate := UNUSED\<rparr>)) (\<lambda>_. grouped p) (rest tg_ok)"
    by (rule trip_setp_drop) simp_all
  have 2: "trip ?P (seqs [bnd (getp np kstack) kfree, setp np (\<lambda>r. r\<lparr>kstack := 0, pstate := UNUSED\<rparr>),
      release (VLock q)]) (\<lambda>_. grouped p) (rest tg_ok)" for q
    unfolding seqs.simps bnd_assoc
    by (intro sets_up_bnd[OF pres_getp] sets_up_bnd[OF own.pres_kfree] trip_bnd[OF c] grouped_pres pres_intros)
  have 3: "pres ?P (rest (own p np ?E)) (seqs [bnd (getp q sz) (\<lambda>n. setp np (\<lambda>r. r\<lparr>sz := n\<rparr>)), release (VLock q)])" for q
    by (intro own_steps) simp_all
  have 4: "pres ?P (rest (own p np ?E)) (setp np (\<lambda>r. r\<lparr>pgdir := d\<rparr>))" for d
    by (intro own_steps) simp_all
  have 5: "trip ?P (if d = 0 then sq (seqs [bnd (getp np kstack) kfree, setp np (\<lambda>r. r\<lparr>kstack := 0, pstate := UNUSED\<rparr>),
        release (VLock q)]) (ret (- 1)) else sq (seqs [bnd (getp q sz) (\<lambda>n. setp np (\<lambda>r. r\<lparr>sz := n\<rparr>)), release (VLock q)])
        (fork_finish p q np)) (\<lambda>_. grouped p) (rest tg_ok)" for d :: u32 and q
    by (intro trip_if trip_sq[OF 2 trip_ret] sets_up_sq[OF 3 trip_fork_finish])
  show ?thesis unfolding fork_child_def bnd_assoc
    by (intro trip_sq[OF 1] sets_up_bnd[OF pres_getp] trip_deref sets_up_sq[OF pres_acquire]
        sets_up_bnd[OF own.pres_copyuvm] sets_up_sq[OF 4 5])
qed

text \<open>What a call of \<open>allocproc\<close> does to the groups, when the others leave the slot it finds alone.\<close>

lemma alloc_then:
  assumes g: "grouped p s" and "\<And>np t. alloc_slot s = Ok (Some np) t \<Longrightarrow> \<forall>f\<in>set (others t). spares p np f"
    and k: "\<And>np. trip (sets_up p np (\<lambda>_. True)) (k np) (\<lambda>_. grouped p) (rest tg_ok)"
  shows "case bnd allocproc (\<lambda>r. case r of None \<Rightarrow> ret e | Some np \<Rightarrow> k np) s of
      Ok r t \<Rightarrow> grouped p t | Asleep t \<Rightarrow> tg_ok (sh t) | Panic m \<Rightarrow> True | Fault m \<Rightarrow> True"
proof (cases "alloc_slot s")
  case (Ok r t)
  show ?thesis
  proof (cases r)
    case None
    then show ?thesis using Ok alloc_slot_None[OF g] by (simp add: allocproc_def bnd_def ret_def)
  next
    case (Some np)
    then have "sets_up p np (\<lambda>_. True) t" using alloc_slot_Some[OF g] assms(2) Ok by blast
    moreover have "trip (sets_up p np (\<lambda>_. True)) (bnd (alloc_stack np) (\<lambda>r. case r of None \<Rightarrow> ret e | Some np \<Rightarrow> k np))
        (\<lambda>_. grouped p) (rest tg_ok)"
    proof (rule trip_bnd[OF trip_alloc_stack])
      fix r show "trip (\<lambda>s. case r of None \<Rightarrow> grouped p s | Some i \<Rightarrow> i = np \<and> sets_up p np (\<lambda>_. True) s)
          (case r of None \<Rightarrow> ret e | Some np \<Rightarrow> k np) (\<lambda>_. grouped p) (rest tg_ok)"
        using k by (cases r) (auto simp: trip_ret intro: trip_pre)
    qed
    ultimately show ?thesis using Ok Some
      by (simp add: allocproc_def bnd_assoc bnd_def[of alloc_slot] trip_def rest_def split: res.splits)
  qed
next
  case (Asleep t)
  then show ?thesis by (simp add: alloc_slot_awake)
qed (simp_all add: allocproc_def bnd_def)

lemma bnd_curproc: "thr W R p s \<Longrightarrow> bnd curproc f s = f p s"
  by (simp add: thr_def thr_at_def kdefs)

lemma trip_curproc: "trip (thr W R p) (f p) Q J \<Longrightarrow> trip (thr W R p) (bnd curproc f) Q J"
  by (simp add: trip_def bnd_curproc)

lemma grouped_seqs:
  assumes "pres (grouped p) (rest tg_ok) m" and "trip (grouped p) (seqs ms) Q (rest tg_ok)"
  shows "trip (grouped p) (seqs (m # ms)) Q (rest tg_ok)"
  using assms(2) by (rule trip_seqs[OF grouped_pres[OF assms(1)]])

section \<open>clone\<close>

definition same_group :: "nat option \<times> int \<times> nat option \<times> int \<Rightarrow> bool" where
  "same_group v \<longleftrightarrow> fst v = fst (snd (snd v)) \<and> fst (snd v) = snd (snd (snd v))"

definition same_tgid :: "nat option \<times> int \<times> nat option \<times> int \<Rightarrow> bool" where
  "same_tgid v \<longleftrightarrow> fst (snd v) = snd (snd (snd v))"

lemma trip_clone_group:
  assumes "\<And>r. pstate (f v r) = pstate r" "\<And>r. threadcount (f v r) = threadcount r"
    and "\<And>s :: kst. E (process (ptable (sh s) ! np), tgid (ptable (sh s) ! np), process (ptable (sh s) ! p), tgid (ptable (sh s) ! p)) \<Longrightarrow>
      v = g (ptable (sh s) ! p) \<Longrightarrow> E' (process (f v (ptable (sh s) ! np)), tgid (f v (ptable (sh s) ! np)),
        process (ptable (sh s) ! p), tgid (ptable (sh s) ! p))"
  shows "trip (\<lambda>s. sets_up p np E s \<and> v = g (ptable (sh s) ! p)) (setp np (f v)) (\<lambda>_. sets_up p np E') J"
proof (rule trip_setp)
  fix s assume s: "sets_up p np E s \<and> v = g (ptable (sh s) ! p)"
  then have o: "own p np E (sh s)" by (simp add: thr_def thr_at_def)
  have "own p np E' (upd_proc np (f v) (sh s))"
    using assms(1,2) assms(3)[of s] s o sets_up_ne[of p np E s] by (intro own_upd[OF o]) (simp_all add: own_def)
  then show "sets_up p np E' (s\<lparr>sh := upd_proc np (f v) (sh s)\<rparr>)"
    using s sets_up_ne[of p np E s] by (intro thr_upd[OF s[THEN conjunct1]] spares_env) auto
qed

lemma trip_clone_start:
  "trip (sets_up p np same_group) (bnd (getp p killed) (\<lambda>k.
      if k then setp np (\<lambda>r. r\<lparr>pstate := ZOMBIE\<rparr>)
      else sq (setp np (\<lambda>r. r\<lparr>pstate := RUNNABLE\<rparr>))
        (bnd (bnd (getp p process) deref) (\<lambda>q. setp q (\<lambda>r. r\<lparr>threadcount := threadcount r + 1\<rparr>)))))
     (\<lambda>_. grouped p) (rest tg_ok)"
proof (intro sets_up_bnd[OF pres_getp] trip_if)
  show "trip (sets_up p np same_group) (setp np (\<lambda>r. r\<lparr>pstate := ZOMBIE\<rparr>)) (\<lambda>_. grouped p) (rest tg_ok)"
    by (rule trip_setp_drop) simp_all
  show "trip (sets_up p np same_group) (sq (setp np (\<lambda>r. r\<lparr>pstate := RUNNABLE\<rparr>))
      (bnd (bnd (getp p process) deref) (\<lambda>q. setp q (\<lambda>r. r\<lparr>threadcount := threadcount r + 1\<rparr>)))) (\<lambda>_. grouped p) (rest tg_ok)"
    (is "trip _ ?m _ _")
  proof (rule tripI)
    fix s u t assume s: "sets_up p np same_group s" and m: "?m s = Ok u t"
    let ?x = "sh s"
    have t: "tg (ptable ?x)" "np < length (ptable ?x)" "pstate (ptable ?x ! np) = EMBRYO" "p < length (ptable ?x)"
        "pstate (ptable ?x ! p) = RUNNING" "process (ptable ?x ! np) = process (ptable ?x ! p)"
        "tgid (ptable ?x ! np) = tgid (ptable ?x ! p)" "p \<noteq> np"
      using s sets_up_ne[OF s] by (auto simp: thr_def thr_at_def own_def tg_ok_def same_group_def)
    obtain q where q: "process (ptable ?x ! p) = Some q"
        "t = s\<lparr>sh := upd_proc q (\<lambda>r. r\<lparr>threadcount := threadcount r + 1\<rparr>) (upd_proc np (\<lambda>r. r\<lparr>pstate := RUNNABLE\<rparr>) ?x)\<rparr>"
      using m t(4,8) by (cases "process (ptable ?x ! p)") (auto simp: kdefs nth_upd_proc)
    have "led (ptable ?x) (ptable ?x ! p)" using tgD(3)[OF t(1,4)] t(5) by simp
    then have nq: "np \<noteq> q" "q < length (ptable ?x)" using q(1) t(3) by (auto simp: led_def)
    have "tg ((ptable ?x)[np := (ptable ?x ! np)\<lparr>pstate := RUNNABLE\<rparr>,
        q := (ptable ?x ! q)\<lparr>threadcount := threadcount (ptable ?x ! q) + 1\<rparr>])"
      using t q(1) by (intro tg_enter[of _ _ p]) simp_all
    then have "tg_ok (sh t)" using nq by (simp add: q(2) tg_ok_def upd_proc_def)
    then show "grouped p t" using s t(4,5,8) q(2) nq
      by (auto simp: thr_def thr_at_def nth_upd_proc spares_def)
  qed (auto simp: kdefs split: option.splits)
qed

lemma trip_clone_thread:
  "trip (sets_up p np (\<lambda>_. True)) (clone_thread p np fn arg1 arg2 stack) (\<lambda>_. grouped p) (rest tg_ok)"
proof -
  let ?P = "sets_up p np same_group"
  have a: "trip (sets_up p np (\<lambda>_. True)) (bnd (getp p tgid) (\<lambda>g. setp np (\<lambda>r. r\<lparr>tgid := g\<rparr>))) (\<lambda>_. sets_up p np same_tgid) (rest tg_ok)"
    by (intro trip_getp trip_clone_group[where f = "\<lambda>g r. r\<lparr>tgid := g\<rparr>"]) (simp_all add: same_tgid_def)
  have b: "trip (sets_up p np same_tgid) (bnd (getp p process) (\<lambda>q. setp np (\<lambda>r. r\<lparr>process := q, lostwakeup := 0\<rparr>))) (\<lambda>_. ?P) (rest tg_ok)"
    by (intro trip_getp trip_clone_group[where f = "\<lambda>q r. r\<lparr>process := q, lostwakeup := 0\<rparr>"])
      (simp_all add: same_tgid_def same_group_def)
  have c: "trip ?P (bnd (getp np pid) (\<lambda>i. sq (seqs [acquire PtableLock, bnd (getp p killed) (\<lambda>k.
      if k then setp np (\<lambda>r. r\<lparr>pstate := ZOMBIE\<rparr>)
      else sq (setp np (\<lambda>r. r\<lparr>pstate := RUNNABLE\<rparr>))
        (bnd (bnd (getp p process) deref) (\<lambda>q. setp q (\<lambda>r. r\<lparr>threadcount := threadcount r + 1\<rparr>)))),
      release PtableLock]) (ret i))) (\<lambda>_. grouped p) (rest tg_ok)"
    by (rule sets_up_bnd[OF pres_getp], rule trip_sq[OF _ trip_ret_same], rule trip_seqs[OF sets_up_pres[OF pres_acquire]],
        rule trip_seqs[OF trip_clone_start], rule grouped_pres) (intro pres_intros)
  show ?thesis unfolding clone_thread_def push_args_def dup_files_def settf_def
    by (rule trip_sq[OF _ c], rule trip_seqs[OF a], rule trip_seqs[OF b], rule sets_up_pres) (intro own_steps; simp)
qed

section \<open>exit\<close>

text \<open>While \<open>ptable.lock\<close> is held and nothing else is called, the table changes only as the code says.
  \<open>tbl qs s0 s\<close>: up to scheduling the table is \<open>qs\<close>, and the rest of the thread is as in \<open>s0\<close>.\<close>

definition tbl :: "proc list \<Rightarrow> kst \<Rightarrow> kst \<Rightarrow> bool" where
  "tbl qs s0 s \<longleftrightarrow> list_all2 grp_eq qs (ptable (sh s)) \<and> curp s = curp s0 \<and> others s = others s0"

lemma grp_eq_refl [simp]: "grp_eq r r"
  by (simp add: grp_eq_def)

lemma grp_eq_trans: "grp_eq a b \<Longrightarrow> grp_eq b c \<Longrightarrow> grp_eq a c"
  by (auto simp: grp_eq_def)

lemma trip_tbl_setp:
  assumes "\<And>r r'. grp_eq r r' \<Longrightarrow> grp_eq (g r) (f r')"
  shows "trip (tbl qs s0) (setp i f) (\<lambda>_. tbl (qs[i := g (qs ! i)]) s0) J"
proof (rule trip_setp)
  fix s assume "tbl qs s0 s"
  then show "tbl (qs[i := g (qs ! i)]) s0 (s\<lparr>sh := upd_proc i f (sh s)\<rparr>)"
    using assms by (cases "i < length qs") (auto simp: tbl_def upd_proc_def list_all2_conv_all_nth nth_list_update list_update_beyond)
qed

lemma pres_tbl_setp:
  assumes "\<And>r r'. grp_eq r r' \<Longrightarrow> grp_eq r (f r')"
  shows "pres (tbl qs s0) J (setp i f)"
  unfolding pres_trip using trip_tbl_setp[of "\<lambda>r. r" f qs s0 i J] assms by simp

lemma pres_tbl_wakeup1: "pres (tbl qs s0) J (wakeup1 ch)"
proof -
  have "list_all2 grp_eq qs (map (wake ch) ps)" if "list_all2 grp_eq qs ps" for ps
    using that by (auto simp: list_all2_conv_all_nth intro!: grp_eq_trans[OF _ sched_eq_grp[OF sched_eq_update(7)]])
  then show ?thesis by (auto simp: pres_def wakeup1_def kdefs tbl_def)
qed

lemma leave_group_tbl:
  assumes s: "grouped p s"
  shows "trip (tbl (ptable (sh s)) s) (leave_group p) (\<lambda>_. thr_at tg_ok (\<lambda>_. True) p) (rest tg_ok)"
proof -
  let ?ps = "ptable (sh s)"
  have t: "tg ?ps" "p < length ?ps" "pstate (ptable (sh s) ! p) = RUNNING"
    using s by (simp_all add: thr_def thr_at_def tg_ok_def)
  obtain q where q: "process (?ps ! p) = Some q"
    using tgD(3)[OF t(1,2)] t(3) by (auto simp: led_def split: option.splits)
  define qs where "qs = ?ps[q := (?ps ! q)\<lparr>threadcount := threadcount (?ps ! q) - 1\<rparr>]"
  have w: "pres (tbl ps s) (rest tg_ok) (bnd (getp p g) (\<lambda>q. bnd (getsh (ptr_addr q)) wakeup1))" for ps g
    by (intro pres_intros pres_tbl_wakeup1)
  have "trip (\<lambda>u. tbl ?ps s u \<and> v = process (ptable (sh u) ! p)) (bnd (deref v) (\<lambda>q. setp q (\<lambda>r. r\<lparr>threadcount := threadcount r - 1\<rparr>)))
      (\<lambda>_. tbl qs s) (rest tg_ok)" for v
  proof (rule trip_deref)
    fix l assume v: "v = Some l"
    have "trip (tbl ?ps s) (setp q (\<lambda>r. r\<lparr>threadcount := threadcount r - 1\<rparr>)) (\<lambda>_. tbl qs s) (rest tg_ok)"
      unfolding qs_def by (rule trip_tbl_setp) (auto simp: grp_eq_def)
    moreover have "tbl ?ps s u \<and> v = process (ptable (sh u) ! p) \<Longrightarrow> l = q" for u
      using v q t(2) by (auto simp: tbl_def list_all2_conv_all_nth grp_eq_def)
    ultimately show "trip (\<lambda>u. tbl ?ps s u \<and> v = process (ptable (sh u) ! p))
        (setp l (\<lambda>r. r\<lparr>threadcount := threadcount r - 1\<rparr>)) (\<lambda>_. tbl qs s) (rest tg_ok)"
      by (simp add: trip_def) blast
  qed
  then have c: "trip (tbl ?ps s) (bnd (bnd (getp p process) deref) (\<lambda>q. setp q (\<lambda>r. r\<lparr>threadcount := threadcount r - 1\<rparr>)))
      (\<lambda>_. tbl qs s) (rest tg_ok)"
    unfolding bnd_assoc by (rule trip_getp)
  have d: "pres (tbl qs s) (rest tg_ok) (seqs (map (reparent p) [0..<NPROC]))"
    unfolding reparent_def by (intro pres_intros pres_tbl_wakeup1 pres_tbl_setp) (simp add: grp_eq_def)
  have e: "trip (tbl qs s) (setp p (\<lambda>r. r\<lparr>pstate := ZOMBIE\<rparr>)) (\<lambda>_. tbl (qs[p := (qs ! p)\<lparr>pstate := ZOMBIE\<rparr>]) s) (rest tg_ok)"
    by (rule trip_tbl_setp) (auto simp: grp_eq_def)
  have f: "tg (qs[p := (qs ! p)\<lparr>pstate := ZOMBIE\<rparr>])"
    using t q by (intro tg_leave[OF t(1,2) _ q]) (simp_all add: qs_def)
  have g: "thr_at tg_ok (\<lambda>_. True) p t" if "tbl (qs[p := (qs ! p)\<lparr>pstate := ZOMBIE\<rparr>]) s t" for t
  proof -
    have "length (ptable (sh t)) = length ?ps" using that list_all2_lengthD by (fastforce simp: tbl_def qs_def)
    moreover have "tg_ok (sh t)" using f that tg_grp_eq by (auto simp: tbl_def tg_ok_def)
    ultimately show ?thesis using s that by (simp add: thr_def thr_at_def tbl_def)
  qed
  have "trip (tbl ?ps s) (leave_group p) (\<lambda>_. tbl (qs[p := (qs ! p)\<lparr>pstate := ZOMBIE\<rparr>]) s) (rest tg_ok)"
    unfolding leave_group_def
    by (intro trip_seqs[OF w[unfolded pres_trip]] trip_seqs[OF c] trip_seqs[OF d[unfolded pres_trip]] trip_seqs[OF e])
      (simp add: trip_ret_same)
  then show ?thesis by (rule trip_post) (simp_all add: g)
qed

lemma trip_leave_group: "trip (grouped p) (leave_group p) (\<lambda>_. thr_at tg_ok (\<lambda>_. True) p) (rest tg_ok)"
proof -
  have "tbl (ptable (sh s)) s s" for s by (simp add: tbl_def list_all2_conv_all_nth)
  then show ?thesis using leave_group_tbl unfolding trip_def by blast
qed

lemma pres_exit_prep: "pres (grouped p) (rest tg_ok) (exit_prep p)"
  unfolding exit_prep_def close_files_def by (intro pres_intros pres_setp_tg) (simp_all add: grp_eq_def)

lemma trip_exit: "trip (grouped p) exit (\<lambda>_ _. False) (rest tg_ok)"
  unfolding exit_def
proof (rule trip_curproc, rule trip_bnd[OF grouped_pres[OF pres_getsh]], rule trip_if, rule trip_panic,
    rule grouped_seqs[OF pres_exit_prep], goal_cases)
  case (1 ini)
  have 2: "trip P (seqs [panic e]) (\<lambda>_ _. False) J" for P J e
    by (simp add: trip_def kdefs)
  show ?case by (rule trip_seqs[OF trip_leave_group trip_seqs[OF tg.trip_sched 2]])
qed

section \<open>wait and join\<close>

text \<open>What the table is up to scheduling: what the others may change while \<open>ptable.lock\<close> is held by a
  thread that waits for another lock.\<close>

definition like :: "proc list \<Rightarrow> shared \<Rightarrow> bool" where
  "like qs x \<longleftrightarrow> list_all2 sched_eq qs (ptable x)"

lemma sched_eq_trans: "sched_eq a b \<Longrightarrow> sched_eq b c \<Longrightarrow> sched_eq a c"
  by (auto simp: sched_eq_def)

lemma list_all2_sched_trans: "list_all2 sched_eq as bs \<Longrightarrow> list_all2 sched_eq bs cs \<Longrightarrow> list_all2 sched_eq as cs"
  by (rule list_all2_trans) (rule sched_eq_trans)

interpretation like: ptable_inv "like qs" for qs
  by unfold_locales (auto simp: like_def intro: list_all2_sched_trans)

definition steady :: "nat \<Rightarrow> (shared \<Rightarrow> shared) \<Rightarrow> bool" where
  "steady p f \<longleftrightarrow> (\<forall>x. list_all2 sched_eq (ptable x) (ptable (f x)) \<and>
     (p < length (ptable x) \<longrightarrow> pstate (ptable x ! p) = RUNNING \<longrightarrow> pstate (ptable (f x) ! p) = RUNNING))"

lemma steady_env: "steady p f \<Longrightarrow> env_ok (like qs) p f"
  unfolding steady_def env_ok_def like_def
  by (auto intro: list_all2_sched_trans) (metis list_all2_lengthD)

lemma sleep_loop_Ok: "sleep_loop test body s = Ok r t \<Longrightarrow> \<exists>u. test u = Ok (Some r) t"
  by (induction test body s rule: sleep_loop.induct)
    (subst (asm) sleep_loop.simps, auto split: res.splits option.splits if_splits)

lemma wait_scan_found:
  "wait_scan ps q ks b = Some (c, Some g) \<Longrightarrow> \<exists>i \<in> set ks. \<exists>l. parent (ps ! i) = q \<and> tgid (ps ! i) = g \<and>
     process (ps ! i) = Some l \<and> threadcount (ps ! l) = 0"
  by (induction ps q ks b rule: wait_scan.induct) (auto split: if_splits option.splits)

text \<open>The table after the slots of group \<open>g\<close> below \<open>n\<close> have been reaped.\<close>

definition reap_upto :: "int \<Rightarrow> nat \<Rightarrow> proc list \<Rightarrow> proc list" where
  "reap_upto g n ps = reap_all g (take n ps) @ drop n ps"

lemma reap_upto_Suc:
  assumes "n < length ps"
  shows "reap_upto g (Suc n) ps =
    (if tgid (ps ! n) = g then (reap_upto g n ps)[n := clear_slot (ps ! n)] else reap_upto g n ps)"
    and "reap_upto g n ps ! n = ps ! n"
proof -
  have l: "length (reap_all g (take n ps)) = n" using assms by (simp add: reap_all_def)
  have d: "drop n ps = ps ! n # drop (Suc n) ps" using assms by (simp add: Cons_nth_drop_Suc)
  show "reap_upto g n ps ! n = ps ! n" using l d by (simp add: reap_upto_def nth_append)
  have "reap_upto g (Suc n) ps = reap_all g (take n ps) @ (if tgid (ps ! n) = g then clear_slot (ps ! n) else ps ! n) # drop (Suc n) ps"
    using assms by (simp add: reap_upto_def take_Suc_conv_app_nth reap_all_def)
  then show "reap_upto g (Suc n) ps =
    (if tgid (ps ! n) = g then (reap_upto g n ps)[n := clear_slot (ps ! n)] else reap_upto g n ps)"
    using l d by (simp add: reap_upto_def list_update_append)
qed

lemma sched_eq_clear: "sched_eq r r' \<Longrightarrow> sched_eq (clear_slot r) (clear_slot r')"
proof -
  assume a: "sched_eq r r'"
  have "core (clear_slot x) = (core x)\<lparr>kstack := 0, context_p := 0, pid := 0, tgid := 0, parent := None,
     pname := (pname (core x))[0 := 0], process := None, pgdir := 0, threadcount := 0\<rparr>" for x
    by (simp add: core_def clear_slot_def)
  then show ?thesis using a by (simp add: sched_eq_def clear_slot_def)
qed

lemma trip_clear:
  assumes "i < length qs" and "qs ! i = r"
  shows "trip (thr (like qs) (steady p) p) (setp i clear_slot)
    (\<lambda>_ s. i \<noteq> p \<longrightarrow> thr (like (qs[i := clear_slot r])) (steady p) p s) (\<lambda>_. True)"
proof (rule trip_setp, rule impI)
  fix s assume s: "thr (like qs) (steady p) p s" and ne: "i \<noteq> p"
  have "like (qs[i := clear_slot r]) (upd_proc i clear_slot (sh s))"
    using s assms sched_eq_clear by (auto simp: thr_def thr_at_def like_def upd_proc_def list_all2_conv_all_nth nth_list_update)
  then show "thr (like (qs[i := clear_slot r])) (steady p) p (s\<lparr>sh := upd_proc i clear_slot (sh s)\<rparr>)"
    using ne by (intro thr_upd[OF s] steady_env) auto
qed

lemma trip_reap:
  assumes i: "i < length qs" and "qs ! i = r"
  shows "trip (thr (like qs) (steady p) p) (reap g i)
    (\<lambda>_ s. (tgid r = g \<longrightarrow> pstate r = ZOMBIE) \<and>
      thr (like (if tgid r = g then qs[i := clear_slot r] else qs)) (steady p) p s) (\<lambda>_. True)"
  unfolding reap_def
proof (rule trip_getp, intro trip_if)
  fix v
  let ?P = "\<lambda>s. thr (like qs) (steady p) p s \<and> v = id (ptable (sh s) ! i)"
  let ?Q = "\<lambda>_ s. (tgid r = g \<longrightarrow> pstate r = ZOMBIE) \<and>
      thr (like (if tgid r = g then qs[i := clear_slot r] else qs)) (steady p) p s"
  have e: "sched_eq r v" if "?P s" for s
    using that assms by (auto simp: thr_def thr_at_def like_def list_all2_conv_all_nth)
  have eg: "tgid v = tgid r" "pstate v = ZOMBIE \<Longrightarrow> pstate r = ZOMBIE" if "?P s" for s
    using sched_eq_grp[OF e[OF that]] by (auto simp: grp_eq_def)
  show "trip ?P (ret ()) ?Q (\<lambda>_. True)" if "tgid v \<noteq> g"
    using that eg by (intro trip_ret) auto
  show "trip ?P (panic ''undead'') ?Q (\<lambda>_. True)" by (rule trip_panic)
  let ?m = "seqs [whenk (pid v = tgid v \<and> process v = Some i) (freevm (pgdir v)), bnd (getp i kstack) kfree, setp i clear_slot]"
  have k: "pres (thr (like qs) (steady p) p) (rest (like qs)) (whenk (pid v = tgid v \<and> process v = Some i) (freevm (pgdir v)))"
      "pres (thr (like qs) (steady p) p) (rest (like qs)) (bnd (getp i kstack) kfree)"
    by (intro pres_intros)+
  have m: "trip (thr (like qs) (steady p) p) ?m (\<lambda>_ s. i \<noteq> p \<longrightarrow> thr (like (qs[i := clear_slot r])) (steady p) p s) (\<lambda>_. True)"
    by (rule trip_seqs[OF trip_pres[OF k(1)]], rule TrueI, rule trip_seqs[OF trip_pres[OF k(2)]], rule TrueI, rule trip_seqs[OF trip_clear[OF assms]])
      (simp add: trip_ret_same)
  show "trip ?P ?m ?Q (\<lambda>_. True)" if "\<not> tgid v \<noteq> g" "pstate v = ZOMBIE"
  proof (rule tripI)
    fix s u t assume a: "?P s" "?m s = Ok u t"
    have "i \<noteq> p" using a(1) that(2) by (auto simp: thr_def)
    then show "?Q u t" using trip_Ok[OF m _ a(2)] a(1) eg[OF a(1)] that by auto
  qed simp
qed

lemma trip_reap_upto:
  assumes "n \<le> length qs"
  shows "trip (thr (like qs) (steady p) p) (seqs (map (reap g) [0..<n]))
    (\<lambda>_ s. (\<forall>r \<in> set (take n qs). tgid r = g \<longrightarrow> pstate r = ZOMBIE) \<and> thr (like (reap_upto g n qs)) (steady p) p s) (\<lambda>_. True)"
  using assms
proof (induction n)
  case 0
  then show ?case by (simp add: trip_ret reap_upto_def reap_all_def)
next
  case (Suc n)
  let ?Q = "\<lambda>n s. (\<forall>r \<in> set (take n qs). tgid r = g \<longrightarrow> pstate r = ZOMBIE) \<and> thr (like (reap_upto g n qs)) (steady p) p s"
  have n: "n < length qs" using Suc.prems by simp
  have l: "n < length (reap_upto g n qs)" using n by (simp add: reap_upto_def reap_all_def)
  have st: "trip (?Q n) (reap g n) (\<lambda>_. ?Q (Suc n)) (\<lambda>_. True)"
  proof (rule tripI)
    fix s u t assume "?Q n s" "reap g n s = Ok u t"
    then show "?Q (Suc n) t"
      using trip_Ok[OF trip_reap[OF l reap_upto_Suc(2)[OF n]]] n
      by (fastforce simp: reap_upto_Suc(1)[OF n] take_Suc_conv_app_nth)
  qed simp
  have "seqs (map (reap g) [0..<Suc n]) = sq (seqs (map (reap g) [0..<n])) (reap g n)"
    by (simp add: seqs_snoc)
  then show ?case using trip_sq[OF Suc.IH[OF less_imp_le_nat[OF n]] st] by (simp only:)
qed

lemma seqs_release_Ok:
  assumes "sq (seqs [m, release lk]) (ret h) u = Ok r t"
  obtains v where "m u = Ok () v" "r = h" "t = v\<lparr>held := remove1 lk (held v)\<rparr>"
  using assms by (auto simp: sq_def bnd_eq_Ok ret_def)

lemma wait_Ok:
  assumes g: "grouped p s" and w: "wait s = Ok r t"
    and q: "\<And>h u. wait_find p s = Ok (Some h) u \<Longrightarrow> \<forall>f\<in>set (others u). steady p f"
  shows "(r = - 1 \<and> grouped p t) \<or> (\<exists>u ps. wait_find p s = Ok (Some r) u \<and> ps = ptable (sh u) \<and> tg ps \<and>
     (\<forall>e \<in> set ps. tgid e = r \<longrightarrow> pstate e = ZOMBIE) \<and> list_all2 sched_eq (reap_all r ps) (ptable (sh t)) \<and> tg_ok (sh t))"
proof -
  have p: "pres (grouped p) (rest tg_ok) (wait_find p)"
    unfolding wait_find_def wait_test_def group_sleep_def by (intro pres_intros) (simp add: thr_def thr_at_def rest_def)
  obtain f u where f: "wait_find p s = Ok f u" and k: "(case f of None \<Rightarrow> sq (release PtableLock) (ret (- 1))
      | Some g \<Rightarrow> sq (seqs [seqs (map (reap g) [0..<NPROC]), release PtableLock]) (ret g)) u = Ok r t"
    using w unfolding wait_def bnd_curproc[OF g] bnd_eq_Ok by blast
  have gu: "grouped p u" using pres_Ok[OF p g f] .
  show ?thesis
  proof (cases f)
    case None
    then show ?thesis using k gu by (auto simp: sq_def bnd_eq_Ok ret_def)
  next
    case (Some h)
    let ?ps = "ptable (sh u)"
    have "\<forall>f\<in>set (others u). steady p f" using q f Some by blast
    then have lk: "thr (like ?ps) (steady p) p u"
      using gu by (auto simp: thr_def thr_at_def like_def list_all2_conv_all_nth steady_env)
    have n: "NPROC = length ?ps" "tg ?ps" using gu by (auto simp: thr_def thr_at_def tg_ok_def tg_def)
    obtain v where v: "seqs (map (reap h) [0..<NPROC]) u = Ok () v" "r = h" "t = v\<lparr>held := remove1 PtableLock (held v)\<rparr>"
      using k unfolding Some option.case by (rule seqs_release_Ok)
    have "(\<forall>e \<in> set (take NPROC ?ps). tgid e = h \<longrightarrow> pstate e = ZOMBIE) \<and> thr (like (reap_upto h NPROC ?ps)) (steady p) p v"
      by (rule trip_Ok[OF trip_reap_upto lk v(1)]) (simp only: n(1))
    then have d: "\<forall>e \<in> set ?ps. tgid e = h \<longrightarrow> pstate e = ZOMBIE" "list_all2 sched_eq (reap_all h ?ps) (ptable (sh v))"
      unfolding n(1) by (simp_all add: reap_upto_def thr_def thr_at_def like_def)
    have "tg (ptable (sh v))"
      using tg_grp_eq[OF tg_reap_all[OF n(2)] list_all2_mono[OF d(2) sched_eq_grp]] d(1) by blast
    then show ?thesis using f Some v d n(2) by (auto simp: tg_ok_def)
  qed
qed

lemma join_wait_zombie:
  "join_wait p i s = Ok (Some j) u \<Longrightarrow> pstate (ptable (sh u) ! j) = ZOMBIE"
proof -
  assume "join_wait p i s = Ok (Some j) u"
  then obtain v where "sleep_loop (join_test p j) (group_sleep p) v = Ok True u"
    by (auto simp: join_wait_def sq_def bnd_eq_Ok ret_def split: option.splits if_splits)
  from sleep_loop_Ok[OF this] obtain w where "join_test p j w = Ok (Some True) u" by (rule exE)
  then show ?thesis by (auto simp: join_test_def kdefs split: if_splits)
qed

lemma join_find_slot: "join_find p i s = Ok (Some j) t \<Longrightarrow> scan (\<lambda>r. pid r = i) (ptable (sh s)) = Some j"
  by (auto simp: join_find_def kdefs split: option.splits if_splits)

lemma join_wait_slot:
  assumes g: "grouped p s" and w: "join_wait p i s = Ok (Some j) u"
  shows "j < NPROC"
proof -
  obtain x v f w where a: "acquire PtableLock s = Ok x v" and f: "join_find p i v = Ok f w" and
    k: "(case f of None \<Rightarrow> ret None
      | Some j \<Rightarrow> bnd (sleep_loop (join_test p j) (group_sleep p)) (\<lambda>dead. ret (if dead then Some j else None))) w = Ok (Some j) u"
    using w unfolding join_wait_def sq_def bnd_eq_Ok by (elim exE conjE)
  have "f = Some j" using k by (auto simp: ret_def bnd_eq_Ok split: option.splits if_splits)
  then have "scan (\<lambda>r. pid r = i) (ptable (sh v)) = Some j" using f join_find_slot by simp
  moreover have "pres (grouped p) (rest tg_ok) (acquire PtableLock)" by (intro pres_intros)
  then have "grouped p v" using g a by (rule pres_Ok)
  then have "length (ptable (sh v)) = NPROC" by (simp only: thr_def thr_at_def tg_ok_def tg_def)
  ultimately show ?thesis using slot_found by metis
qed

lemma sched_eq_fields:
  assumes "sched_eq r r'"
  shows "pid r = pid r'" "tgid r = tgid r'" "process r = process r'" "parent r = parent r'"
proof -
  have "core r = core r'" using assms by (simp add: sched_eq_def)
  then have "pid (core r) = pid (core r') \<and> tgid (core r) = tgid (core r') \<and> process (core r) = process (core r') \<and>
      parent (core r) = parent (core r')" by simp
  then show "pid r = pid r'" "tgid r = tgid r'" "process r = process r'" "parent r = parent r'" by (simp_all add: core_def)
qed

lemma trip_join_reap:
  assumes "j < length qs" and "qs ! j = r"
  shows "trip (thr (like qs) (steady p) p) (join_reap j) (\<lambda>_ s. j \<noteq> p \<longrightarrow>
    thr (like (if tgid r \<noteq> pid r \<and> process r \<noteq> Some j then qs[j := clear_slot r] else qs)) (steady p) p s) (\<lambda>_. True)"
  unfolding join_reap_def
proof (rule trip_getp)
  fix v
  let ?P = "\<lambda>s. thr (like qs) (steady p) p s \<and> v = id (ptable (sh s) ! j)"
  have e: "tgid v = tgid r" "pid v = pid r" "process v = process r" if "?P s" for s
    using that assms sched_eq_fields[of r v] by (auto simp: thr_def thr_at_def like_def list_all2_conv_all_nth)
  have k: "pres (thr (like qs) (steady p) p) (rest (like qs)) (bnd (getp j kstack) kfree)"
    by (intro pres_intros)
  have "trip (thr (like qs) (steady p) p) (seqs [bnd (getp j kstack) kfree, setp j clear_slot])
      (\<lambda>_ s. j \<noteq> p \<longrightarrow> thr (like (qs[j := clear_slot r])) (steady p) p s) (\<lambda>_. True)"
    by (rule trip_seqs[OF trip_pres[OF k]], rule TrueI, rule trip_seqs[OF trip_clear[OF assms]]) (simp add: trip_ret_same)
  then show "trip ?P (whenk (tgid v \<noteq> pid v \<and> process v \<noteq> Some j) (seqs [bnd (getp j kstack) kfree, setp j clear_slot]))
     (\<lambda>_ s. j \<noteq> p \<longrightarrow> thr (like (if tgid r \<noteq> pid r \<and> process r \<noteq> Some j then qs[j := clear_slot r] else qs)) (steady p) p s) (\<lambda>_. True)"
    using e by (auto simp: trip_def whenk_def ret_def split: res.splits)
qed

lemma tg_clear:
  assumes "tg ps" and j: "j < length ps" and "pstate (ps ! j) = ZOMBIE" and "process (ps ! j) \<noteq> Some j"
  shows "tg (ps[j := clear_slot (ps ! j)])"
proof -
  have m: "members ps j = 0"
  proof (rule ccontr)
    assume "members ps j \<noteq> 0"
    then obtain r where "r \<in> set ps" "process r = Some j" "live (pstate r)"
      by (auto simp: members_def filter_empty_conv)
    then show False using assms(1,4) by (auto simp: tg_def led_def)
  qed
  then have "threadcount (ps ! j) = 0" using tgD(2)[OF assms(1) j] by (simp add: unat_eq_zero)
  then show ?thesis using assms m by (intro tg_upd_idle) (simp_all add: clear_slot_def)
qed

lemma join_Ok:
  assumes g: "grouped p s" and w: "join i s = Ok r t"
    and q: "\<And>j u. join_wait p i s = Ok (Some j) u \<Longrightarrow> \<forall>f\<in>set (others u). steady p f"
  shows "(r = - 1 \<and> grouped p t) \<or> (\<exists>j u ps. r = i \<and> join_wait p i s = Ok (Some j) u \<and> ps = ptable (sh u) \<and>
     j < length ps \<and> pstate (ps ! j) = ZOMBIE \<and> tg_ok (sh t) \<and>
     list_all2 sched_eq (if tgid (ps ! j) \<noteq> pid (ps ! j) \<and> process (ps ! j) \<noteq> Some j then ps[j := clear_slot (ps ! j)] else ps) (ptable (sh t)))"
proof -
  have p: "pres (grouped p) (rest tg_ok) (join_wait p i)"
    unfolding join_wait_def join_find_def join_test_def group_sleep_def
    by (intro pres_intros) (simp add: thr_def thr_at_def rest_def)
  obtain f u where f: "join_wait p i s = Ok f u" and k: "(case f of None \<Rightarrow> sq (release PtableLock) (ret (- 1))
      | Some j \<Rightarrow> sq (seqs [join_reap j, release PtableLock]) (ret i)) u = Ok r t"
    using w unfolding join_def bnd_curproc[OF g] bnd_eq_Ok by blast
  have gu: "grouped p u" using pres_Ok[OF p g f] .
  show ?thesis
  proof (cases f)
    case None
    then show ?thesis using k gu by (auto simp: sq_def bnd_eq_Ok ret_def)
  next
    case (Some j)
    let ?ps = "ptable (sh u)"
    have "\<forall>f\<in>set (others u). steady p f" using q f Some by blast
    then have lk: "thr (like ?ps) (steady p) p u"
      using gu by (auto simp: thr_def thr_at_def like_def list_all2_conv_all_nth steady_env)
    have z: "pstate (?ps ! j) = ZOMBIE" using join_wait_zombie f Some by simp
    obtain v where v: "join_reap j u = Ok () v" "r = i" "t = v\<lparr>held := remove1 PtableLock (held v)\<rparr>"
      using k unfolding Some option.case by (rule seqs_release_Ok)
    have "length ?ps = NPROC" using gu by (simp only: thr_def thr_at_def tg_ok_def tg_def)
    then have j: "j < length ?ps" using join_wait_slot[OF g] f Some by (simp del: NPROC_def)
    have ne: "j \<noteq> p" using z gu by (auto simp: thr_def)
    have d: "list_all2 sched_eq (if tgid (?ps ! j) \<noteq> pid (?ps ! j) \<and> process (?ps ! j) \<noteq> Some j then ?ps[j := clear_slot (?ps ! j)] else ?ps)
        (ptable (sh v))"
      using trip_Ok[OF trip_join_reap[OF j refl] lk v(1)] ne by (auto simp: thr_def thr_at_def like_def)
    have "tg ?ps" using gu by (simp add: thr_def thr_at_def tg_ok_def)
    then have "tg (ptable (sh v))"
      using tg_grp_eq[OF _ list_all2_mono[OF d sched_eq_grp]] tg_clear[of ?ps j] j z by (simp split: if_splits)
    then show ?thesis using f Some v(2,3) d j z by (auto simp: tg_ok_def)
  qed
qed

end
