(* ===== verification/Exit_Run.thy ===== *)
theory Exit_Run
  imports Lifecycle
begin

text \<open>
  The last part of \<open>exit\<close> (\<open>proc.c\<close>), under \<open>ptable.lock\<close>, as a function of the process table: what
  \<open>leave_group\<close> does to every entry, and what happens to a thread that calls \<open>sched\<close> as a zombie.
\<close>

section \<open>Waking\<close>

definition woken :: "proc \<Rightarrow> proc \<Rightarrow> bool" where
  "woken r r' \<longleftrightarrow> r' = r \<or> pstate r = SLEEPING \<and> r' = r\<lparr>pstate := RUNNABLE\<rparr>"

lemma woken_refl [simp]: "woken r r"
  by (simp add: woken_def)

lemma woken_wake [simp]: "woken r (wake c r)"
  by (simp add: woken_def wake_def)

lemma woken_trans: "woken a b \<Longrightarrow> woken b c \<Longrightarrow> woken a c"
  by (auto simp: woken_def)

lemma woken_parent: "woken r r' \<Longrightarrow> woken (r\<lparr>parent := q\<rparr>) (r'\<lparr>parent := q\<rparr>)"
  by (auto simp: woken_def)

lemma wokenD:
  assumes "woken r r'"
  shows "parent r' = parent r" "threadcount r' = threadcount r" "process r' = process r" "tgid r' = tgid r" "pid r' = pid r"
    "chan r' = chan r" "pstate r' = pstate r \<or> pstate r = SLEEPING \<and> pstate r' = RUNNABLE"
  using assms by (auto simp: woken_def)

lemma woken_quiet:
  "woken r r' \<Longrightarrow> \<not> (pstate r = SLEEPING \<and> chan r = c) \<Longrightarrow> \<not> (pstate r' = SLEEPING \<and> chan r' = c)"
  by (auto simp: woken_def)

definition woke :: "u32 \<Rightarrow> shared \<Rightarrow> shared" where
  "woke c x = x\<lparr>ptable := map (wake c) (ptable x)\<rparr>"

lemma woke_frame [simp]:
  "length (ptable (woke c x)) = length (ptable x)" "initproc (woke c x) = initproc x" "lay (woke c x) = lay x"
  "i < length (ptable x) \<Longrightarrow> ptable (woke c x) ! i = wake c (ptable x ! i)"
  by (simp_all add: woke_def)

lemma upd_proc_frame [simp]: "initproc (upd_proc i f x) = initproc x" "lay (upd_proc i f x) = lay x"
  by (simp_all add: upd_proc_def)

section \<open>Passing on the children\<close>

definition reparented :: "nat \<Rightarrow> nat \<Rightarrow> shared \<Rightarrow> shared" where
  "reparented p i x =
     (if parent (ptable x ! i) = Some p then
        let y = upd_proc i (\<lambda>r. r\<lparr>parent := initproc x\<rparr>) x in
        if pstate (ptable y ! i) = ZOMBIE then woke (ptr_addr (initproc x) y) y else y
      else x)"

lemma reparent_run: "reparent p i s = Ok () (s\<lparr>sh := reparented p i (sh s)\<rparr>)"
  by (simp add: reparent_def reparented_def kdefs woke_def Let_def)

lemma reparent_all_run: "seqs (map (reparent p) ks) s = Ok () (s\<lparr>sh := fold (reparented p) ks (sh s)\<rparr>)"
  by (induction ks arbitrary: s) (simp_all add: kdefs reparent_run)

definition passed :: "nat \<Rightarrow> nat option \<Rightarrow> proc \<Rightarrow> proc" where
  "passed p ini r = (if parent r = Some p then r\<lparr>parent := ini\<rparr> else r)"

lemma reparented_step:
  assumes "n < length (ptable x)"
  shows "length (ptable (reparented p n x)) = length (ptable x)" "initproc (reparented p n x) = initproc x"
    "lay (reparented p n x) = lay x"
    "i < length (ptable x) \<Longrightarrow> woken (if i = n then passed p (initproc x) (ptable x ! i) else ptable x ! i) (ptable (reparented p n x) ! i)"
  using assms by (auto simp: reparented_def passed_def nth_upd_proc Let_def)

lemma reparented_upto:
  assumes "n \<le> length (ptable x)"
  shows "length (ptable (fold (reparented p) [0..<n] x)) = length (ptable x) \<and> initproc (fold (reparented p) [0..<n] x) = initproc x \<and>
    lay (fold (reparented p) [0..<n] x) = lay x \<and>
    (\<forall>i < length (ptable x). woken (if i < n then passed p (initproc x) (ptable x ! i) else ptable x ! i)
       (ptable (fold (reparented p) [0..<n] x) ! i))"
  using assms
proof (induction n)
  case (Suc n)
  let ?y = "fold (reparented p) [0..<n] x"
  have y: "length (ptable ?y) = length (ptable x)" "initproc ?y = initproc x" "lay ?y = lay x"
    and w: "\<And>i. i < length (ptable x) \<Longrightarrow> woken (if i < n then passed p (initproc x) (ptable x ! i) else ptable x ! i) (ptable ?y ! i)"
    using Suc by auto
  have n: "n < length (ptable ?y)" using Suc.prems y(1) by simp
  note st = reparented_step[OF n, where p = p]
  have "woken (if i < Suc n then passed p (initproc x) (ptable x ! i) else ptable x ! i) (ptable (reparented p n ?y) ! i)"
    if i: "i < length (ptable x)" for i
  proof (cases "i = n")
    case True
    have "woken (passed p (initproc x) (ptable x ! n)) (passed p (initproc x) (ptable ?y ! n))"
      using w[of n] True i wokenD(1)[OF w[of n]] woken_parent by (auto simp: passed_def)
    then show ?thesis using st(4)[where i = n] n True y(2) woken_trans[of "passed p (initproc x) (ptable x ! n)"] by simp
  next
    case False
    then show ?thesis using st(4)[where i = i] y(1) i w[OF i] woken_trans[OF w[OF i]] by (simp add: less_Suc_eq)
  qed
  then show ?case using st(1-3) y by simp
qed simp

section \<open>Leaving the group\<close>

lemma bnd_Ok: "m s = Ok x t \<Longrightarrow> bnd m f s = f x t"
  by (simp add: bnd_def)


lemma leave_group_run:
  assumes q: "process (ptable x ! p) = Some q" and l: "length (ptable x) = NPROC" "p < NPROC" "pstate (ptable x ! p) = RUNNING"
    and x: "x = sh u"
  shows "\<exists>y. leave_group p u = Ok () (u\<lparr>sh := y\<rparr>) \<and> length (ptable y) = NPROC \<and> pstate (ptable y ! p) = ZOMBIE \<and>
    (\<forall>i < NPROC. let r = ptable x ! i; r' = ptable y ! i in
       pid r' = pid r \<and> tgid r' = tgid r \<and> process r' = process r \<and>
       parent r' = (if parent r = Some p then initproc x else parent r) \<and>
       threadcount r' = (if i = q then threadcount r - 1 else threadcount r) \<and>
       (i \<noteq> p \<longrightarrow> pstate r' = pstate r \<or> pstate r = SLEEPING \<and> pstate r' = RUNNABLE) \<and>
       \<not> (pstate r' = SLEEPING \<and> chan r' \<in> {ptr_addr (parent (ptable x ! p)) x, ptr_addr (Some q) x}))"
proof -
  let ?c1 = "ptr_addr (parent (ptable x ! p)) x" and ?c2 = "ptr_addr (Some q) x"
  let ?f = "\<lambda>r. r\<lparr>threadcount := threadcount r - 1\<rparr>" and ?z = "\<lambda>r. r\<lparr>pstate := ZOMBIE\<rparr>"
  let ?x2 = "woke ?c2 (woke ?c1 x)"
  let ?x3 = "upd_proc q ?f ?x2"
  let ?x4 = "fold (reparented p) [0..<NPROC] ?x3"
  let ?y = "upd_proc p ?z ?x4"
  have len: "length (ptable ?x3) = NPROC" using l(1) by simp
  have lp: "p < length (ptable x)" using l by simp
  have ptr: "ptr_addr a (woke c z) = ptr_addr a z" for a c z by (cases a) (simp_all add: ptr_addr_def)
  have pr: "process (ptable (woke ?c1 x) ! p) = Some q" "process (ptable ?x2 ! p) = Some q" using q lp by (simp_all add: wake_def)
  have w: "bnd (getp p g) (\<lambda>q. bnd (getsh (ptr_addr q)) wakeup1) v = Ok () (v\<lparr>sh := woke (ptr_addr (g (ptable (sh v) ! p)) (sh v)) (sh v)\<rparr>)" for g v
    by (simp add: kdefs woke_def)
  have c: "bnd (bnd (bnd (getp p process) deref) (\<lambda>q. setp q ?f)) g v = g () (v\<lparr>sh := upd_proc q ?f (sh v)\<rparr>)"
    if "process (ptable (sh v) ! p) = Some q" for g v
    using that by (simp add: kdefs)
  have z: "seqs [setp p ?z] v = Ok () (v\<lparr>sh := upd_proc p ?z (sh v)\<rparr>)" for v by (simp add: kdefs)
  have run: "leave_group p u = Ok () (u\<lparr>sh := ?y\<rparr>)"
    unfolding leave_group_def seqs.simps(2)[of _ "_ # _"] bnd_Ok[OF w] bnd_Ok[OF reparent_all_run] 
    using pr ptr q z by (simp add: c x[symmetric] bnd_Ok[OF reparent_all_run] del: NPROC_def seqs.simps woke_frame)
  have rp: "length (ptable ?x4) = NPROC"
      "\<And>i. i < NPROC \<Longrightarrow> woken (passed p (initproc x) (ptable ?x3 ! i)) (ptable ?x4 ! i)"
    using reparented_upto[of NPROC ?x3 p] len by (simp_all del: NPROC_def)
  have e3: "ptable ?x3 ! i = (if i = q then ?f else id) (wake ?c2 (wake ?c1 (ptable x ! i)))" if "i < NPROC" for i
    using that l(1) by (simp add: nth_upd_proc)
  have e: "let r = ptable x ! i; r' = ptable ?y ! i in
       pid r' = pid r \<and> tgid r' = tgid r \<and> process r' = process r \<and>
       parent r' = (if parent r = Some p then initproc x else parent r) \<and>
       threadcount r' = (if i = q then threadcount r - 1 else threadcount r) \<and>
       (i \<noteq> p \<longrightarrow> pstate r' = pstate r \<or> pstate r = SLEEPING \<and> pstate r' = RUNNABLE) \<and>
       \<not> (pstate r' = SLEEPING \<and> chan r' \<in> {?c1, ?c2})" if i: "i < NPROC" for i
  proof -
    let ?r = "wake ?c2 (wake ?c1 (ptable x ! i))"
    let ?r3 = "passed p (initproc x) ((if i = q then ?f else id) ?r)"
    have w3: "woken ?r3 (ptable ?x4 ! i)" using rp(2)[OF i] e3[OF i] by simp
    have y: "ptable ?y ! i = (if i = p then ?z (ptable ?x4 ! i) else ptable ?x4 ! i)"
      using i rp(1) by (simp add: nth_upd_proc)
    have wr: "woken (ptable x ! i) ?r" using woken_trans[OF woken_wake woken_wake] .
    have quiet: "\<not> (pstate ?r = SLEEPING \<and> chan ?r \<in> {?c1, ?c2})" by (auto simp: wake_def)
    have r3: "pid ?r3 = pid ?r" "tgid ?r3 = tgid ?r" "process ?r3 = process ?r" "pstate ?r3 = pstate ?r" "chan ?r3 = chan ?r"
        "parent ?r3 = (if parent ?r = Some p then initproc x else parent ?r)"
        "threadcount ?r3 = (if i = q then threadcount ?r - 1 else threadcount ?r)"
      by (simp_all add: passed_def)
    show ?thesis using y wokenD[OF w3] wokenD[OF wr] r3 quiet unfolding Let_def by (cases "i = p") auto
  qed
  have "length (ptable ?y) = NPROC" "pstate (ptable ?y ! p) = ZOMBIE" using rp(1) l(2) by (simp_all add: nth_upd_proc)
  with run e show ?thesis by (intro exI[of _ ?y]) (simp del: NPROC_def)
qed

section \<open>Never to return\<close>

text \<open>A thread that switches out as a zombie runs on only if the others make its slot \<open>RUNNABLE\<close>.\<close>

lemma resched_never:
  assumes "\<forall>f\<in>set fs. \<forall>x. pstate (ptable x ! p) \<noteq> RUNNABLE \<longrightarrow> pstate (ptable (f x) ! p) \<noteq> RUNNABLE"
    and "pstate (ptable (sh s) ! p) \<noteq> RUNNABLE"
  shows "resched p fs s = Asleep (s\<lparr>sh := fold (\<lambda>f. f) fs (sh s), others := []\<rparr>)"
  using assms by (induction fs arbitrary: s) (simp_all add: Let_def)

lemma sched_zombie:
  assumes "curp s = Some p" "held s = [PtableLock]" "pstate (ptable (sh s) ! p) = ZOMBIE" "p < length (ptable (sh s))"
  shows "sched s = swtch p s"
  using assms by (simp add: sched_def kdefs)

lemma fold_env:
  assumes "\<forall>f\<in>set fs. env_ok W p f" and "W x" "p < length (ptable x)"
  shows "W (fold (\<lambda>f. f) fs x)"
  using assms by (induction fs arbitrary: x) (simp_all add: env_ok_def)

end
