(* ===== verification/Process_Properties.thy ===== *)
theory Process_Properties
  imports Exit_Run
begin

text \<open>
  What \<open>fork\<close>, \<open>clone\<close>, \<open>exit\<close>, \<open>wait\<close> and \<open>join\<close> guarantee of the thread groups while other
  threads run: the count of a group leader stays the number of live threads of its group, a child
  is reaped only once all its threads have exited, and a thread that exits never runs again.
\<close>

section \<open>A family of processes\<close>

text \<open>Process 1 with two live threads (slots 0 and 1) and one thread that has exited (slot 3), and
  its child, process 3, that has exited.\<close>

definition family :: shared where
  "family = (zeroed sample_layout)\<lparr>ptable :=
     zeroed_proc\<lparr>pid := 1, tgid := 1, process := Some 0, pstate := RUNNING, threadcount := 2,
       kstack := 0x80400000, pgdir := 0x80401000\<rparr>
     # zeroed_proc\<lparr>pid := 2, tgid := 1, process := Some 0, pstate := SLEEPING, chan := 7,
       kstack := 0x80402000, pgdir := 0x80401000\<rparr>
     # zeroed_proc\<lparr>pid := 3, tgid := 3, process := Some 2, parent := Some 0, pstate := ZOMBIE,
       kstack := 0x80403000, pgdir := 0x80404000\<rparr>
     # zeroed_proc\<lparr>pid := 4, tgid := 1, process := Some 0, pstate := ZOMBIE,
       kstack := 0x80405000, pgdir := 0x80401000\<rparr>
     # replicate 60 zeroed_proc\<rparr>"

lemma tg_family: "tg_ok family"
proof -
  have "unat (threadcount (ptable family ! q)) = members (ptable family) q" if "q < 64" for q
  proof -
    consider "q = 0" | "q = 1" | "q = 2" | "q = 3" | "\<not> q < 4" by linarith
    then show ?thesis
      using that by cases (simp_all add: family_def members_def zeroed_proc_def nth_Cons')
  qed
  then show ?thesis
    by (simp add: tg_ok_def tg_def led_def family_def zeroed_proc_def)
qed

lemma steady_wakeup: "steady p (as_step q (wakeup ch))"
  by (auto simp: steady_def as_step_wakeup list.rel_map wake_def sched_eq_def core_def live_def intro!: list.rel_refl)

lemma steady_tg: "steady p f \<Longrightarrow> env_ok tg_ok p f"
  unfolding steady_def env_ok_def tg_ok_def
  by (metis list_all2_lengthD list_all2_mono sched_eq_grp tg_grp_eq)

lemma steady_spares:
  assumes "steady p f"
  shows "spares p np f"
proof -
  have "pstate (ptable (f x) ! np) = EMBRYO \<and>
     process (ptable (f x) ! np) = process (ptable x ! np) \<and> tgid (ptable (f x) ! np) = tgid (ptable x ! np) \<and>
     process (ptable (f x) ! p) = process (ptable x ! p) \<and> tgid (ptable (f x) ! p) = tgid (ptable x ! p)"
    if "own p np (\<lambda>_. True) x" for x
  proof -
    have l: "np < length (ptable x)" "p < length (ptable x)" "pstate (ptable x ! np) = EMBRYO"
      using that by (simp_all add: own_def)
    have e: "sched_eq (ptable x ! np) (ptable (f x) ! np)" "sched_eq (ptable x ! p) (ptable (f x) ! p)"
      using assms l(1,2) by (simp_all add: steady_def list_all2_conv_all_nth)
    then show ?thesis using l(3) sched_eq_fields[OF e(1)] sched_eq_fields[OF e(2)]
      by (auto simp: sched_eq_def live_def)
  qed
  then show ?thesis using steady_tg[OF assms] by (simp add: spares_def)
qed

text \<open>The first thread of the family while another thread runs \<open>wakeup\<close> twice.\<close>

definition first_thread :: kst where
  "first_thread = fresh_kst family (Some 0) [as_step (Some 1) (wakeup 7), as_step (Some 1) (wakeup 7)]"

lemma grouped_first: "grouped 0 first_thread"
  using tg_family steady_tg[OF steady_wakeup]
  by (simp add: thr_def thr_at_def first_thread_def) (simp add: family_def)

lemma steady_first: "f \<in> set (others first_thread) \<Longrightarrow> steady p f"
  by (simp add: first_thread_def steady_wakeup)

lemma steady_after:
  assumes "pres (thr tg_ok (steady 0) 0) (rest tg_ok) m" and "m first_thread = Ok r u"
  shows "\<forall>f\<in>set (others u). steady 0 f"
proof -
  have "thr tg_ok (steady 0) 0 first_thread" using grouped_first steady_first by (simp add: thr_def thr_at_def)
  from pres_Ok[OF assms(1) this assms(2)] show ?thesis by (simp add: thr_def thr_at_def)
qed

lemma alloc_slot_others: "alloc_slot s = Ok r t \<Longrightarrow> set (others t) \<subseteq> set (others s)"
  by (cases "others s") (auto simp: alloc_slot_def bnd_eq_Ok sq_def ret_def kdefs split: option.splits if_splits)

lemma spares_first: "alloc_slot first_thread = Ok r t \<Longrightarrow> \<forall>f\<in>set (others t). spares p np f"
  using alloc_slot_others steady_first steady_spares by blast

section \<open>Reaping\<close>

lemma freed_slot:
  assumes "sched_eq (clear_slot r) e"
  shows "pstate e = UNUSED \<and> pid e = 0 \<and> tgid e = 0 \<and> parent e = None \<and> process e = None \<and> kstack e = 0 \<and> pgdir e = 0 \<and>
    context_p e = 0 \<and> threadcount e = 0"
proof -
  have c: "core e = core (clear_slot r)" and "pstate e = UNUSED" using assms by (auto simp: sched_eq_def clear_slot_def)
  have "pid (core e) = 0" "tgid (core e) = 0" "parent (core e) = None" "process (core e) = None" "kstack (core e) = 0"
      "pgdir (core e) = 0" "context_p (core e) = 0" "threadcount (core e) = 0"
    unfolding c by (simp_all add: core_def clear_slot_def)
  then show ?thesis using \<open>pstate e = UNUSED\<close> by (simp add: core_def)
qed

lemma wait_find_child:
  assumes "wait_find p s = Ok (Some g) u"
  shows "\<exists>j l. j < NPROC \<and> parent (ptable (sh u) ! j) = process (ptable (sh u) ! p) \<and> tgid (ptable (sh u) ! j) = g \<and>
    process (ptable (sh u) ! j) = Some l \<and> threadcount (ptable (sh u) ! l) = 0"
proof -
  obtain v where "sleep_loop (wait_test p) (group_sleep p) v = Ok (Some g) u"
    using assms by (auto simp: wait_find_def sq_def bnd_eq_Ok)
  from sleep_loop_Ok[OF this] obtain w where w: "wait_test p w = Ok (Some (Some g)) u" by (rule exE)
  then have "\<exists>b. wait_scan (ptable (sh u)) (process (ptable (sh u) ! p)) [0..<NPROC] False = Some (b, Some g)"
    by (auto simp: wait_test_def kdefs split: option.splits if_splits prod.splits simp del: NPROC_def)
  then show ?thesis by (auto dest!: wait_scan_found simp del: NPROC_def)
qed

lemma join_wait_run:
  assumes "join_wait p i s = Ok (Some j) u"
  obtains v where "v = (interfere s)\<lparr>held := PtableLock # held s\<rparr>" "join_find p i v = Ok (Some j) v"
    "sleep_loop (join_test p j) (group_sleep p) v = Ok True u"
proof -
  obtain x v f w where a: "acquire PtableLock s = Ok x v" and f: "join_find p i v = Ok f w" and
    k: "(case f of None \<Rightarrow> ret None
      | Some j \<Rightarrow> bnd (sleep_loop (join_test p j) (group_sleep p)) (\<lambda>dead. ret (if dead then Some j else None))) w = Ok (Some j) u"
    using assms unfolding join_wait_def sq_def bnd_eq_Ok by (elim exE conjE)
  have "f = Some j" "sleep_loop (join_test p j) (group_sleep p) w = Ok True u"
    using k by (auto simp: ret_def bnd_eq_Ok split: option.splits if_splits)
  moreover have "w = v" using f by (auto simp: join_find_def kdefs split: option.splits if_splits)
  ultimately show ?thesis using that[of v] a f by auto
qed

lemma join_wait_found:
  assumes "join_wait p i s = Ok (Some j) u"
  shows "pid (ptable (sh (interfere s)) ! j) = i" "tgid (ptable (sh (interfere s)) ! j) = tgid (ptable (sh (interfere s)) ! p)"
    "process (ptable (sh (interfere s)) ! j) = process (ptable (sh (interfere s)) ! p)"
proof -
  obtain v where v: "v = (interfere s)\<lparr>held := PtableLock # held s\<rparr>" "join_find p i v = Ok (Some j) v"
    using join_wait_run[OF assms] by blast
  note f = join_find_slot[OF v(2)]
  show "pid (ptable (sh (interfere s)) ! j) = i" using scan_SomeD(2)[OF f] v(1) by simp
  show "tgid (ptable (sh (interfere s)) ! j) = tgid (ptable (sh (interfere s)) ! p)"
    "process (ptable (sh (interfere s)) ! j) = process (ptable (sh (interfere s)) ! p)"
    using v f by (auto simp: join_find_def kdefs split: if_splits)
qed

text \<open>A thread in slot \<open>p\<close> that watches slot \<open>j\<close>, which keeps its pid.\<close>

definition watch :: "nat \<Rightarrow> int \<Rightarrow> shared \<Rightarrow> bool" where
  "watch j i x \<longleftrightarrow> tg_ok x \<and> j < length (ptable x) \<and> pid (ptable x ! j) = i"

interpretation watch: ptable_inv "watch j i" for j i
proof unfold_locales
  fix x ps assume a: "watch j i x" "list_all2 sched_eq (ptable x) ps"
  have "tg_ok (x\<lparr>ptable := ps\<rparr>)" using a by (intro tg.stable) (simp_all add: watch_def)
  moreover have "j < length ps" "pid (ps ! j) = i"
    using a sched_eq_fields(1)[of "ptable x ! j" "ps ! j"] by (auto simp: watch_def list_all2_conv_all_nth)
  ultimately show "watch j i (x\<lparr>ptable := ps\<rparr>)" by (simp add: watch_def)
qed (auto simp: watch_def tg_ok_def)

lemma join_wait_pid:
  assumes g: "grouped p s" and w: "join_wait p i s = Ok (Some j) u"
    and k: "\<forall>f\<in>set (others s). \<forall>y. pid (ptable (f y) ! j) = pid (ptable y ! j)"
  shows "pid (ptable (sh u) ! j) = i"
proof -
  obtain v where v: "v = (interfere s)\<lparr>held := PtableLock # held s\<rparr>" "join_find p i v = Ok (Some j) v"
    "sleep_loop (join_test p j) (group_sleep p) v = Ok True u"
    using join_wait_run[OF w] by blast
  have gi: "grouped p (interfere s)" using g by (rule thr_interfere)
  have "env_ok (watch j i) p f" if "f \<in> set (others s)" for f
    using that g k by (auto simp: thr_def thr_at_def env_ok_def watch_def)
  then have "\<forall>f\<in>set (others v). env_ok (watch j i) p f" using v(1) by (cases "others s") auto
  moreover have "watch j i (sh v)"
    using gi v(1) join_wait_found(1)[OF w] scan_SomeD(1)[OF join_find_slot[OF v(2)]] by (simp add: watch_def thr_def thr_at_def)
  ultimately have t: "thr (watch j i) (\<lambda>_. True) p v" using gi v(1) by (simp add: thr_def thr_at_def)
  have "pres (thr (watch j i) (\<lambda>_. True) p) (rest (watch j i)) (sleep_loop (join_test p j) (group_sleep p))"
    unfolding join_test_def group_sleep_def by (intro pres_intros) (simp add: thr_def thr_at_def rest_def)
  from pres_Ok[OF this t v(3)] show ?thesis by (simp add: thr_def thr_at_def watch_def)
qed

section \<open>Properties\<close>

text \<open>C2: \<open>fork\<close> keeps the thread groups: whatever the other threads do that keeps them and leaves the
  slot under construction alone, when \<open>fork\<close> returns, with a child or with an error, the count of
  every leader is the number of live threads of its group and every live thread belongs to a
  group whose leader has not been reaped; so it is should the thread never get to run again.\<close>

theorem fork_keeps_groups:
  assumes "grouped p s" and "\<And>np t. alloc_slot s = Ok (Some np) t \<Longrightarrow> \<forall>f\<in>set (others t). spares p np f"
  shows "case fork s of Ok r t \<Rightarrow> grouped p t | Asleep t \<Rightarrow> tg_ok (sh t) | Panic m \<Rightarrow> True | Fault m \<Rightarrow> True"
  unfolding fork_def bnd_curproc[OF assms(1)]
  by (rule alloc_then[OF assms(1)]) (rule assms(2), assumption, rule trip_fork_child)

theorem fork_keeps_groups_witness:
  "grouped 0 first_thread \<and> (case fork first_thread of Ok r t \<Rightarrow> grouped 0 t
     | Asleep t \<Rightarrow> tg_ok (sh t) | Panic m \<Rightarrow> True | Fault m \<Rightarrow> True)"
  using fork_keeps_groups[OF grouped_first spares_first] grouped_first by (rule conjI[rotated])

text \<open>C3: \<open>clone\<close> keeps the thread groups in the same way: a new thread is counted by the leader of the
  group of its creator as soon as it can run.\<close>

theorem clone_keeps_groups:
  assumes "grouped p s" and "\<And>np t. alloc_slot s = Ok (Some np) t \<Longrightarrow> \<forall>f\<in>set (others t). spares p np f"
  shows "case clone fn arg1 arg2 stack s of Ok r t \<Rightarrow> grouped p t | Asleep t \<Rightarrow> tg_ok (sh t)
     | Panic m \<Rightarrow> True | Fault m \<Rightarrow> True"
proof -
  have "case bnd allocproc (\<lambda>r. case r of None \<Rightarrow> ret (- 1) | Some np \<Rightarrow> clone_thread p np fn arg1 arg2 stack) s of
      Ok r t \<Rightarrow> grouped p t | Asleep t \<Rightarrow> tg_ok (sh t) | Panic m \<Rightarrow> True | Fault m \<Rightarrow> True"
    by (rule alloc_then[OF assms(1)]) (rule assms(2), assumption, rule trip_clone_thread)
  then show ?thesis using assms(1) unfolding clone_def bnd_curproc[OF assms(1)]
    by (simp add: kdefs split: option.split)
qed

theorem clone_keeps_groups_witness:
  "grouped 0 first_thread \<and> (case clone 0x10 1 2 0x3000 first_thread of Ok r t \<Rightarrow> grouped 0 t
     | Asleep t \<Rightarrow> tg_ok (sh t) | Panic m \<Rightarrow> True | Fault m \<Rightarrow> True)"
  using clone_keeps_groups[OF grouped_first spares_first] grouped_first by (rule conjI[rotated])

text \<open>C4: \<open>exit\<close> never returns, and takes the thread out of its group.  Once it holds \<open>ptable.lock\<close>
  for the second time, and no other lock, the thread switches away for good (coming back would be
  the panic \<open>zombie exit\<close>), and at that moment: it is a \<open>ZOMBIE\<close>; the count of its group leader
  is one less, and again the number of live threads of the group; its children belong to \<open>init\<close>;
  nobody sleeps any more on the process of its parent or its own process, where \<open>wait\<close> and \<open>join\<close>
  sleep; and nothing else has changed in the group data of any slot.  If the others do not hand
  out its slot again, it is never resumed, and the thread groups stay in order.\<close>

theorem exit_leaves_group:
  assumes "grouped p s"
  shows "(\<forall>t. exit s \<noteq> Ok () t) \<and>
    (\<forall>u. initproc (sh s) \<noteq> Some p \<and> exit_prep p s = Ok () u \<and> held u = [PtableLock] \<longrightarrow>
      (\<exists>q v. process (ptable (sh u) ! p) = Some q \<and> exit s = sq (swtch p) (panic ''zombie exit'') v \<and>
        held v = [PtableLock] \<and> others v = others u \<and> tg_ok (sh v) \<and> pstate (ptable (sh v) ! p) = ZOMBIE \<and>
        (\<forall>i < NPROC. let r = ptable (sh u) ! i; r' = ptable (sh v) ! i in
          pid r' = pid r \<and> tgid r' = tgid r \<and> process r' = process r \<and>
          parent r' = (if parent r = Some p then initproc (sh u) else parent r) \<and>
          threadcount r' = (if i = q then threadcount r - 1 else threadcount r) \<and>
          (i \<noteq> p \<longrightarrow> pstate r' = pstate r \<or> pstate r = SLEEPING \<and> pstate r' = RUNNABLE) \<and>
          \<not> (pstate r' = SLEEPING \<and> chan r' \<in> {ptr_addr (parent (ptable (sh u) ! p)) (sh u), ptr_addr (Some q) (sh u)})) \<and>
        ((\<forall>f\<in>set (others u). \<forall>x. pstate (ptable x ! p) \<noteq> RUNNABLE \<longrightarrow> pstate (ptable (f x) ! p) \<noteq> RUNNABLE) \<longrightarrow>
          (\<exists>t. exit s = Asleep t \<and> sh t = fold (\<lambda>f. f) (others u) (sh v) \<and> tg_ok (sh t)))))"
proof (intro conjI allI impI, goal_cases)
  case (1 t)
  then show ?case using trip_exit[of p] assms unfolding trip_def by (auto split: res.splits)
next
  case (2 u)
  then have u: "initproc (sh s) \<noteq> Some p" "exit_prep p s = Ok () u" "held u = [PtableLock]" by auto
  have g: "grouped p u" using pres_Ok[OF pres_exit_prep assms u(2)] .
  then have gu: "tg (ptable (sh u))" "length (ptable (sh u)) = NPROC" "p < NPROC" "pstate (ptable (sh u) ! p) = RUNNING" "curp u = Some p"
      "\<forall>f\<in>set (others u). env_ok tg_ok p f"
    by (auto simp: thr_def thr_at_def tg_ok_def tg_def)
  obtain q where q: "process (ptable (sh u) ! p) = Some q"
    using tgD(3)[OF gu(1), of p] gu by (auto simp: led_def split: option.splits)
  from leave_group_run[OF q gu(2-4) refl] obtain y where y: "leave_group p u = Ok () (u\<lparr>sh := y\<rparr>)" "length (ptable y) = NPROC"
      "pstate (ptable y ! p) = ZOMBIE" and yi: "\<forall>i < NPROC. let r = ptable (sh u) ! i; r' = ptable y ! i in
          pid r' = pid r \<and> tgid r' = tgid r \<and> process r' = process r \<and>
          parent r' = (if parent r = Some p then initproc (sh u) else parent r) \<and>
          threadcount r' = (if i = q then threadcount r - 1 else threadcount r) \<and>
          (i \<noteq> p \<longrightarrow> pstate r' = pstate r \<or> pstate r = SLEEPING \<and> pstate r' = RUNNABLE) \<and>
          \<not> (pstate r' = SLEEPING \<and> chan r' \<in> {ptr_addr (parent (ptable (sh u) ! p)) (sh u), ptr_addr (Some q) (sh u)})"
    by (elim exE conjE)
  let ?v = "u\<lparr>sh := y\<rparr>"
  have ok: "tg_ok (sh ?v)" using trip_Ok[OF trip_leave_group g y(1)] by (simp add: thr_at_def)
  have sz: "sched ?v = swtch p ?v" using gu y u(3) by (intro sched_zombie) simp_all
  have ex: "exit s = sq (swtch p) (panic ''zombie exit'') ?v"
    unfolding exit_def bnd_curproc[OF assms] using u(1,2) y(1) sz by (simp add: bnd_def getsh_def sq_def)
  have "\<exists>t. exit s = Asleep t \<and> sh t = fold (\<lambda>f. f) (others u) (sh ?v) \<and> tg_ok (sh t)"
    if n: "\<forall>f\<in>set (others u). \<forall>x. pstate (ptable x ! p) \<noteq> RUNNABLE \<longrightarrow> pstate (ptable (f x) ! p) \<noteq> RUNNABLE"
  proof -
    have "swtch p ?v = Asleep (?v\<lparr>sh := fold (\<lambda>f. f) (others u) y, others := []\<rparr>)"
      unfolding swtch_def using resched_never[of "others ?v" p ?v] n y(3) by simp
    moreover have "tg_ok (fold (\<lambda>f. f) (others u) y)" using fold_env[OF gu(6), of y] ok gu(3) y(2) by simp
    ultimately show ?thesis using ex by (simp add: sq_def bnd_def)
  qed
  then show ?case using q ex ok y(3) yi u(3) by (intro exI[of _ q] exI[of _ ?v]) (simp del: NPROC_def)
qed

lemma exit_prep_first:
  "\<exists>u. exit_prep 0 first_thread = Ok () u \<and> held u = [PtableLock] \<and> others u = [] \<and>
     process (ptable (sh u) ! 0) = Some 0 \<and> threadcount (ptable (sh u) ! 0) = 2"
proof -
  have c: "seqs (map (\<lambda>fd. bnd (getp 0 (\<lambda>r. ofile r ! fd)) (\<lambda>f. case f of None \<Rightarrow> ret ()
      | Some f \<Rightarrow> seqs [fileclose f, setp 0 (\<lambda>r. r\<lparr>ofile := (ofile r)[fd := None]\<rparr>)])) ks) s = Ok () s"
    if "\<forall>fd \<in> set ks. ofile (ptable (sh s) ! 0) ! fd = None" for ks s
    using that by (induction ks) (simp_all add: kdefs)
  have cf: "close_files 0 first_thread = Ok () first_thread"
    unfolding close_files_def by (rule c) (simp add: first_thread_def family_def zeroed_proc_def)
  have w: "process (ptable (as_step q (wakeup 7) x) ! 0) = Some 0 \<and> threadcount (ptable (as_step q (wakeup 7) x) ! 0) = 2 \<and>
      ptable (as_step q (wakeup 7) x) \<noteq> []"
    if "process (ptable x ! 0) = Some 0 \<and> threadcount (ptable x ! 0) = 2 \<and> ptable x \<noteq> []" for q x
    using that by (simp add: as_step_wakeup wake_def)
  have "process (ptable family ! 0) = Some 0 \<and> threadcount (ptable family ! 0) = 2 \<and> ptable family \<noteq> []" by (simp add: family_def)
  from w[OF this] w[OF w[OF this]] show ?thesis
    unfolding exit_prep_def seqs.simps(2)[of "close_files 0"] bnd_Ok[where m = "close_files 0", OF cf]
    by (simp add: kdefs first_thread_def interfere_def)
qed

theorem exit_leaves_group_witness:
  "\<exists>t. exit first_thread = Asleep t \<and> tg_ok (sh t) \<and> pstate (ptable (sh t) ! 0) = ZOMBIE \<and> threadcount (ptable (sh t) ! 0) = 1"
proof -
  obtain u where u: "exit_prep 0 first_thread = Ok () u" "held u = [PtableLock]" "others u = []"
      "process (ptable (sh u) ! 0) = Some 0" "threadcount (ptable (sh u) ! 0) = 2"
    using exit_prep_first by blast
  have i: "initproc (sh first_thread) \<noteq> Some 0" by (simp add: first_thread_def family_def zeroed_def)
  note e = conjunct2[OF exit_leaves_group[OF grouped_first], rule_format, OF conjI[OF i conjI[OF u(1,2)]]]
  from e show ?thesis
  proof (elim exE conjE, goal_cases)
    case (1 q v)
    have "threadcount (ptable (sh v) ! 0) = 1" using 1(1) 1(7)[rule_format, of 0] u(4,5) by (simp add: Let_def)
    then show ?case using 1(6,8) u(3) by auto
  qed
qed

text \<open>C5: \<open>wait\<close> reaps exactly the thread group of a dead child: when it returns \<open>g\<close> and not -1, then
  at the end of its search some slot of group \<open>g\<close> was a child of the caller's process and its leader
  had no live thread left; all slots of group \<open>g\<close> were zombies and are free now, with pid, group,
  parent, leader, kernel stack, page table, context and count cleared; every other slot is as it
  was, up to wakeups; and the thread groups are in order.  While the thread holds
  \<open>ptable.lock\<close> for reaping, other CPUs only run the scheduler.\<close>

theorem wait_reaps_dead_group:
  assumes "grouped p s" and "\<And>h u. wait_find p s = Ok (Some h) u \<Longrightarrow> \<forall>f\<in>set (others u). steady p f"
  shows "case wait s of
      Ok r t \<Rightarrow> (r = - 1 \<and> grouped p t) \<or> (\<exists>u ps. wait_find p s = Ok (Some r) u \<and> ps = ptable (sh u) \<and>
        (\<exists>j l. j < NPROC \<and> parent (ps ! j) = process (ps ! p) \<and> tgid (ps ! j) = r \<and>
           process (ps ! j) = Some l \<and> threadcount (ps ! l) = 0) \<and>
        (\<forall>i < NPROC. let e = ps ! i; e' = ptable (sh t) ! i in
           if tgid e = r then pstate e = ZOMBIE \<and> pstate e' = UNUSED \<and> pid e' = 0 \<and> tgid e' = 0 \<and> parent e' = None \<and>
             process e' = None \<and> kstack e' = 0 \<and> pgdir e' = 0 \<and> context_p e' = 0 \<and> threadcount e' = 0
           else sched_eq e e') \<and> tg_ok (sh t))
    | _ \<Rightarrow> True"
proof (cases "wait s")
  case (Ok r t)
  have "(r = - 1 \<and> grouped p t) \<or> (\<exists>u ps. wait_find p s = Ok (Some r) u \<and> ps = ptable (sh u) \<and> tg ps \<and>
     (\<forall>e \<in> set ps. tgid e = r \<longrightarrow> pstate e = ZOMBIE) \<and> list_all2 sched_eq (reap_all r ps) (ptable (sh t)) \<and> tg_ok (sh t))"
    by (rule wait_Ok[OF assms(1) Ok]) (rule assms(2))
  then show ?thesis
  proof (elim disjE exE conjE)
    fix u ps assume u: "wait_find p s = Ok (Some r) u" "ps = ptable (sh u)" "tg ps" "\<forall>e \<in> set ps. tgid e = r \<longrightarrow> pstate e = ZOMBIE"
      "list_all2 sched_eq (reap_all r ps) (ptable (sh t))" "tg_ok (sh t)"
    have l: "length ps = NPROC" using tgD(1)[OF u(3)] .
    have "let e = ps ! i; e' = ptable (sh t) ! i in
           if tgid e = r then pstate e = ZOMBIE \<and> pstate e' = UNUSED \<and> pid e' = 0 \<and> tgid e' = 0 \<and> parent e' = None \<and>
             process e' = None \<and> kstack e' = 0 \<and> pgdir e' = 0 \<and> context_p e' = 0 \<and> threadcount e' = 0
           else sched_eq e e'" if i: "i < NPROC" for i
    proof -
      have e: "sched_eq (if tgid (ps ! i) = r then clear_slot (ps ! i) else ps ! i) (ptable (sh t) ! i)"
        using u(5) i l by (auto simp: list_all2_conv_all_nth reap_all_def)
      then show ?thesis using freed_slot[of "ps ! i" "ptable (sh t) ! i"] u(4) i l by (auto simp: Let_def)
    qed
    then show ?thesis unfolding Ok res.case using u(1,2,6) wait_find_child[OF u(1)] by blast
  qed (simp add: Ok)
qed simp_all

text \<open>The table when the first thread has \<open>ptable.lock\<close>.\<close>

abbreviation family' :: shared where
  "family' \<equiv> as_step (Some 1) (wakeup 7) family"

lemma wait_find_first: "\<exists>u. wait_find 0 first_thread = Ok (Some 3) u \<and> sh u = family' \<and> held u = [PtableLock]"
proof -
  have l: "[0..<NPROC] = 0 # 1 # 2 # [3..<64]" by (simp add: upt_conv_Cons)
  have "wait_scan (ptable family') (Some 0) [0..<NPROC] False = Some (True, Some 3)"
    unfolding l by (simp add: as_step_wakeup family_def wake_def zeroed_proc_def)
  moreover have "\<not> killed (ptable family' ! 0)" "process (ptable family' ! 0) = Some 0"
    by (simp_all add: as_step_wakeup family_def wake_def zeroed_proc_def)
  ultimately have "wait_test 0 s = Ok (Some (Some 3)) s" if "sh s = family'" for s
    using that by (simp add: wait_test_def kdefs del: NPROC_def wait_scan.simps)
  then show ?thesis unfolding wait_find_def first_thread_def
    by (simp add: sq_def bnd_def acquire_def interfere_def del: NPROC_def) (subst sleep_loop.simps, simp add: ret_def)
qed

lemma kfree_go:
  assumes "page_ok (sh s) v" and "\<not> use_lock (kmem (sh s))"
  shows "\<exists>m k. kfree v s = Ok () (s\<lparr>sh := (sh s)\<lparr>mem := m, kmem := k\<rparr>\<rparr>) \<and> \<not> use_lock k"
  using assms by (simp add: kfree_def kdefs) (rule exI, rule exI, rule conjI, rule refl, simp)

lemma reap_others: "(\<forall>i \<in> set ks. tgid (ptable (sh s) ! i) \<noteq> g) \<Longrightarrow> seqs (map (reap g) ks) s = Ok () s"
  by (induction ks) (simp_all add: reap_def kdefs)

lemma wait_first: "\<exists>t. wait first_thread = Ok 3 t"
proof -
  obtain u where u: "wait_find 0 first_thread = Ok (Some 3) u" "sh u = family'" "held u = [PtableLock]"
    using wait_find_first by blast
  have f: "length (ptable family') = 64" "mem family' = (\<lambda>_. 0)" "kmem family' = \<lparr>use_lock = False, freelist = 0\<rparr>" "lay family' = sample_layout"
      "\<And>i. i < 64 \<Longrightarrow> tgid (ptable family' ! i) = (if i = 2 then 3 else if i < 4 then 1 else 0)"
      "pstate (ptable family' ! 2) = ZOMBIE" "pid (ptable family' ! 2) = 3" "process (ptable family' ! 2) = Some 2"
      "pgdir (ptable family' ! 2) = 0x80404000" "kstack (ptable family' ! 2) = 0x80403000"
    by (simp_all add: as_step_wakeup family_def wake_def zeroed_proc_def zeroed_def nth_Cons')
  have ok: "page_ok x 0x80404000" "page_ok x 0x80403000" if "lay x = sample_layout" for x
    using that by (simp_all add: page_ok_def sample_layout_def V2P_def)
  have "freevm 0x80404000 u = kfree 0x80404000 u"
    using u(2) f(2) by (intro freevm_empty) (simp_all add: rd32_def bytes_def join32_def present_def upt_rec)
  then obtain m k where a: "freevm 0x80404000 u = Ok () (u\<lparr>sh := family'\<lparr>mem := m, kmem := k\<rparr>\<rparr>)" "\<not> use_lock k"
    using kfree_go[of u "0x80404000"] ok f u(2) by auto
  let ?v = "u\<lparr>sh := family'\<lparr>mem := m, kmem := k\<rparr>\<rparr>"
  obtain m' k' where b: "kfree 0x80403000 ?v = Ok () (?v\<lparr>sh := family'\<lparr>mem := m', kmem := k'\<rparr>\<rparr>)"
    using kfree_go[of ?v "0x80403000"] ok f a(2) by auto
  let ?w = "u\<lparr>sh := upd_proc 2 clear_slot (family'\<lparr>mem := m', kmem := k'\<rparr>)\<rparr>"
  have r: "reap 3 2 u = Ok () ?w"
    using f u(2) a(1) b by (simp add: reap_def kdefs)
  have l: "[0..<NPROC] = [0, 1] @ 2 # [3..<64]" by (simp add: upt_conv_Cons)
  have s: "seqs (ms @ ms') s = bnd (seqs ms) (\<lambda>_. seqs ms') s" for ms ms' and s :: kst
    by (induction ms arbitrary: s) (simp_all add: bnd_def ret_def split: res.split)
  have "seqs (map (reap 3) [0, 1]) u = Ok () u" using f(5) u(2) by (intro reap_others) auto
  moreover have "seqs (map (reap 3) [3..<64]) ?w = Ok () ?w" using f(1,5) by (intro reap_others) (auto simp: nth_upd_proc)
  ultimately have "seqs (map (reap 3) [0..<NPROC]) u = Ok () ?w"
    unfolding l map_append s list.map(2) using r by (simp add: bnd_def)
  then show ?thesis unfolding wait_def bnd_curproc[OF grouped_first]
    using u(1,3) by (simp add: bnd_def sq_def release_def ret_def del: NPROC_def)
qed


theorem wait_reaps_dead_group_witness:
  "\<exists>t. wait first_thread = Ok 3 t \<and> pstate (ptable (sh t) ! 2) = UNUSED \<and> kstack (ptable (sh t) ! 2) = 0"
proof -
  obtain t where t: "wait first_thread = Ok 3 t" using wait_first by blast
  have st: "\<forall>f\<in>set (others u). steady 0 f" if w: "wait_find 0 first_thread = Ok (Some h) u" for h u
    by (rule steady_after[where m = "wait_find 0", OF _ w], unfold wait_find_def wait_test_def group_sleep_def, intro pres_intros)
      (simp add: thr_def thr_at_def rest_def)
  obtain u where u: "wait_find 0 first_thread = Ok (Some 3) u" "sh u = family'" using wait_find_first by blast
  have "tgid (ptable family' ! 2) = 3" by (simp add: as_step_wakeup family_def wake_def)
  then have "pstate (ptable (sh t) ! 2) = UNUSED \<and> kstack (ptable (sh t) ! 2) = 0"
    using wait_reaps_dead_group[OF grouped_first st] u unfolding t res.case by (auto simp: Let_def)
  then show ?thesis using t by blast
qed

text \<open>C6: \<open>join(i)\<close> waits for a thread to exit and reaps it: when it returns \<open>i\<close> and not -1, it had found a
  slot that held pid \<open>i\<close>, in the caller's own group, when it took \<open>ptable.lock\<close>; the slot was a
  zombie at the end of its wait, still with pid \<open>i\<close> unless somebody gave the slot to another thread
  meanwhile; if that thread is not the leader of its group, the slot is free now, with pid, group,
  parent, leader, kernel stack, page table, context and count cleared; every other slot is as it
  was, up to wakeups; and the thread groups are in order.\<close>

theorem join_reaps_thread:
  assumes "grouped p s" and "\<And>j u. join_wait p i s = Ok (Some j) u \<Longrightarrow> \<forall>f\<in>set (others u). steady p f"
  shows "case join i s of
      Ok r t \<Rightarrow> (r = - 1 \<and> grouped p t) \<or> (\<exists>j u x ps. r = i \<and> join_wait p i s = Ok (Some j) u \<and>
        x = ptable (sh (interfere s)) \<and> ps = ptable (sh u) \<and> j < NPROC \<and>
        pid (x ! j) = i \<and> tgid (x ! j) = tgid (x ! p) \<and> process (x ! j) = process (x ! p) \<and> pstate (ps ! j) = ZOMBIE \<and>
        ((\<forall>f\<in>set (others s). \<forall>y. pid (ptable (f y) ! j) = pid (ptable y ! j)) \<longrightarrow> pid (ps ! j) = i) \<and>
        (\<forall>k < NPROC. let e = ps ! k; e' = ptable (sh t) ! k in
           if k = j \<and> tgid e \<noteq> pid e \<and> process e \<noteq> Some j then
             pstate e' = UNUSED \<and> pid e' = 0 \<and> tgid e' = 0 \<and> parent e' = None \<and>
             process e' = None \<and> kstack e' = 0 \<and> pgdir e' = 0 \<and> context_p e' = 0 \<and> threadcount e' = 0
           else sched_eq e e') \<and> tg_ok (sh t))
    | _ \<Rightarrow> True"
proof (cases "join i s")
  case (Ok r t)
  have "(r = - 1 \<and> grouped p t) \<or> (\<exists>j u ps. r = i \<and> join_wait p i s = Ok (Some j) u \<and> ps = ptable (sh u) \<and>
     j < length ps \<and> pstate (ps ! j) = ZOMBIE \<and> tg_ok (sh t) \<and>
     list_all2 sched_eq (if tgid (ps ! j) \<noteq> pid (ps ! j) \<and> process (ps ! j) \<noteq> Some j then ps[j := clear_slot (ps ! j)] else ps) (ptable (sh t)))"
    by (rule join_Ok[OF assms(1) Ok]) (rule assms(2))
  then show ?thesis
  proof (elim disjE exE conjE)
    fix j u ps assume u: "r = i" "join_wait p i s = Ok (Some j) u" "ps = ptable (sh u)" "j < length ps" "pstate (ps ! j) = ZOMBIE"
      "tg_ok (sh t)"
      "list_all2 sched_eq (if tgid (ps ! j) \<noteq> pid (ps ! j) \<and> process (ps ! j) \<noteq> Some j then ps[j := clear_slot (ps ! j)] else ps) (ptable (sh t))"
    have l: "length ps = NPROC" using list_all2_lengthD[OF u(7)] u(6) by (auto simp: tg_ok_def tg_def split: if_splits)
    have "let e = ps ! k; e' = ptable (sh t) ! k in
           if k = j \<and> tgid e \<noteq> pid e \<and> process e \<noteq> Some j then
             pstate e' = UNUSED \<and> pid e' = 0 \<and> tgid e' = 0 \<and> parent e' = None \<and>
             process e' = None \<and> kstack e' = 0 \<and> pgdir e' = 0 \<and> context_p e' = 0 \<and> threadcount e' = 0
           else sched_eq e e'" if k: "k < NPROC" for k
    proof -
      let ?C = "k = j \<and> tgid (ps ! k) \<noteq> pid (ps ! k) \<and> process (ps ! k) \<noteq> Some j"
      have e: "sched_eq (if ?C then clear_slot (ps ! k) else ps ! k) (ptable (sh t) ! k)"
        using u(7) k l by (auto simp: list_all2_conv_all_nth nth_list_update split: if_splits)
      show ?thesis
      proof (cases ?C)
        case True
        show ?thesis using freed_slot[OF e[unfolded if_P[OF True]]] unfolding Let_def if_P[OF True] .
      next
        case False
        show ?thesis using e[unfolded if_not_P[OF False]] unfolding Let_def if_not_P[OF False] .
      qed
    qed
    moreover have "j < NPROC" using u(4) l by (simp del: NPROC_def)
    ultimately show ?thesis unfolding Ok res.case using u(1-3,5,6) join_wait_found[OF u(2)] join_wait_pid[OF assms(1) u(2)] by blast
  qed (simp add: Ok)
qed simp_all

lemma join_wait_first: "\<exists>u. join_wait 0 4 first_thread = Ok (Some 3) u \<and> sh u = family' \<and> held u = [PtableLock]"
proof -
  have f: "scan (\<lambda>r. pid r = 4) (ptable family') = Some 3" "pstate (ptable family' ! 3) = ZOMBIE"
      "tgid (ptable family' ! 3) = tgid (ptable family' ! 0)" "process (ptable family' ! 3) = process (ptable family' ! 0)"
    by (simp_all add: as_step_wakeup family_def wake_def zeroed_proc_def)
  then have "join_test 0 3 s = Ok (Some True) s" "join_find 0 4 s = Ok (Some 3) s" if "sh s = family'" for s
    using that by (simp_all add: join_test_def join_find_def kdefs del: NPROC_def scan.simps)
  then show ?thesis unfolding join_wait_def first_thread_def
    by (simp add: sq_def bnd_def acquire_def interfere_def ret_def del: NPROC_def) (subst sleep_loop.simps, simp add: ret_def)
qed

lemma join_first: "\<exists>t. join 4 first_thread = Ok 4 t"
proof -
  obtain u where u: "join_wait 0 4 first_thread = Ok (Some 3) u" "sh u = family'" "held u = [PtableLock]"
    using join_wait_first by blast
  have f: "kmem family' = \<lparr>use_lock = False, freelist = 0\<rparr>" "lay family' = sample_layout"
      "tgid (ptable family' ! 3) = 1" "pid (ptable family' ! 3) = 4" "process (ptable family' ! 3) = Some 0" "kstack (ptable family' ! 3) = 0x80405000"
    by (simp_all add: as_step_wakeup family_def wake_def zeroed_proc_def zeroed_def)
  have "page_ok family' 0x80405000" using f(2) by (simp add: page_ok_def sample_layout_def V2P_def)
  then obtain m k where a: "kfree 0x80405000 u = Ok () (u\<lparr>sh := family'\<lparr>mem := m, kmem := k\<rparr>\<rparr>)"
    using kfree_go[of u "0x80405000"] f u(2) by auto
  then have "join_reap 3 u = Ok () (u\<lparr>sh := upd_proc 3 clear_slot (family'\<lparr>mem := m, kmem := k\<rparr>)\<rparr>)"
    using f u(2) by (simp add: join_reap_def kdefs)
  then show ?thesis unfolding join_def bnd_curproc[OF grouped_first]
    using u(1,3) by (simp add: bnd_def sq_def release_def ret_def)
qed

theorem join_reaps_thread_witness:
  "\<exists>t. join 4 first_thread = Ok 4 t \<and> pstate (ptable (sh t) ! 3) = UNUSED \<and> kstack (ptable (sh t) ! 3) = 0"
proof -
  obtain t where t: "join 4 first_thread = Ok 4 t" using join_first by blast
  have st: "\<forall>f\<in>set (others u). steady 0 f" if w: "join_wait 0 4 first_thread = Ok (Some j) u" for j u
    by (rule steady_after[where m = "join_wait 0 4", OF _ w], unfold join_wait_def join_find_def join_test_def group_sleep_def, intro pres_intros)
      (simp add: thr_def thr_at_def rest_def)
  obtain u where u: "join_wait 0 4 first_thread = Ok (Some 3) u" "sh u = family'" using join_wait_first by blast
  have "tgid (ptable family' ! 3) \<noteq> pid (ptable family' ! 3)" "process (ptable family' ! 3) \<noteq> Some 3"
    by (simp_all add: as_step_wakeup family_def wake_def)
  then have "pstate (ptable (sh t) ! 3) = UNUSED \<and> kstack (ptable (sh t) ! 3) = 0"
    using join_reaps_thread[of 0 first_thread 4, OF grouped_first st] u unfolding t res.case by (auto simp: Let_def)
  then show ?thesis using t by blast
qed

end
