(* ===== verification/Exec.thy ===== *)
theory Exec
  imports Proc
begin

text \<open>
  \<open>exec\<close> (\<open>exec.c\<close>, \<open>elf.h\<close>): the other threads of the group are killed, the caller takes over the
  group's pid, the program is loaded from an ELF file into a new page table, the arguments are
  pushed on its stack, and the new image is committed.
\<close>

section \<open>ELF files\<close>

definition ELF_MAGIC :: u32 where "ELF_MAGIC = 0x464C457F"
definition ELF_PROG_LOAD :: u32 where "ELF_PROG_LOAD = 1"

text \<open>The fields \<open>exec\<close> reads.\<close>

record elfhdr =
  e_magic :: u32
  e_entry :: u32
  e_phoff :: u32
  e_phnum :: u16

record proghdr =
  ph_type :: u32
  ph_off :: u32
  ph_vaddr :: u32
  ph_filesz :: u32
  ph_memsz :: u32

definition elfhdr_of :: "u8 list \<Rightarrow> elfhdr" where
  "elfhdr_of bs = \<lparr>e_magic = get32 bs 0, e_entry = get32 bs 24, e_phoff = get32 bs 28, e_phnum = get16 bs 44\<rparr>"

definition proghdr_of :: "u8 list \<Rightarrow> proghdr" where
  "proghdr_of bs = \<lparr>ph_type = get32 bs 0, ph_off = get32 bs 4, ph_vaddr = get32 bs 8, ph_filesz = get32 bs 16,
     ph_memsz = get32 bs 20\<rparr>"

section \<open>Ending the other threads\<close>

definition kill_one :: "nat \<Rightarrow> nat \<Rightarrow> unit km" where
  "kill_one p i = bnd (getp p id) (\<lambda>c. bnd (getp i id) (\<lambda>r. whenk (tgid r = tgid c \<and> pid r \<noteq> pid c)
     (setp i (\<lambda>r. r\<lparr>killed := True, pstate := if pstate r = SLEEPING then RUNNABLE else pstate r\<rparr>))))"

definition others_gone :: "nat \<Rightarrow> unit option km" where
  "others_gone p = bnd (getsh ptable) (\<lambda>ps. ret (if \<exists>i \<in> set [0..<NPROC]. tgid (ps ! i) = tgid (ps ! p) \<and> i \<noteq> p \<and>
       pstate (ps ! i) \<noteq> ZOMBIE then None else Some ()))"

text \<open>Taking over the group: \<open>curproc->process\<close> is read anew in each statement, after the writes before
  it.\<close>

definition take_over :: "nat \<Rightarrow> unit km" where
  "take_over p = seqs [
     bnd (bnd (getp p process) deref) (\<lambda>q. bnd (getp p pid) (\<lambda>i. setp q (\<lambda>r. r\<lparr>pid := i\<rparr>))),
     bnd (getp p tgid) (\<lambda>g. setp p (\<lambda>r. r\<lparr>pid := g\<rparr>)),
     bnd (bnd (getp p process) deref) (\<lambda>q. seqs [
       setp q (\<lambda>r. r\<lparr>threadcount := 1\<rparr>),
       initlock (VLock q),
       initlock (CwdLock q),
       setp q (\<lambda>r. r\<lparr>lostwakeup := 0\<rparr>)])]"

section \<open>Loading\<close>

text \<open>The program headers left to load; \<open>None\<close> is \<open>goto bad\<close>.\<close>

fun load_segs :: "nat \<Rightarrow> u32 \<Rightarrow> nat \<Rightarrow> u32 \<Rightarrow> u32 \<Rightarrow> u32 option km" where
  "load_segs ip pd 0 off siz = ret (Some siz)"
| "load_segs ip pd (Suc n) off siz = bnd (readi ip ToLocal off 32) (\<lambda>(r, bs).
     if r \<noteq> 32 then ret None
     else let ph = proghdr_of bs in
       if ph_type ph \<noteq> ELF_PROG_LOAD then load_segs ip pd n (off + 32) siz
       else if ph_memsz ph < ph_filesz ph then ret None
       else if ph_vaddr ph + ph_memsz ph < ph_vaddr ph then ret None
       else bnd (allocuvm pd siz (ph_vaddr ph + ph_memsz ph)) (\<lambda>siz'.
         if siz' = 0 then ret None
         else if ph_vaddr ph mod PGSIZE \<noteq> 0 then ret None
         else bnd (loaduvm pd (ph_vaddr ph) ip (ph_off ph) (ph_filesz ph)) (\<lambda>r.
           if r < 0 then ret None else load_segs ip pd n (off + 32) siz')))"

section \<open>Arguments\<close>

definition MAXARG :: nat where [simp]: "MAXARG = 32"

text \<open>\<open>strlen\<close> on a user string: the error is a page fault, or the overflow of the \<open>int\<close> counter.\<close>

function ustrlen_from :: "mem \<Rightarrow> u32 \<Rightarrow> u32 \<Rightarrow> nat \<Rightarrow> bool + nat" where
  "ustrlen_from m pd s n = (case uload m pd (s + of_nat n) of
     None \<Rightarrow> Inl True
   | Some c \<Rightarrow> if c = 0 then Inr n else if n + 1 < 2 ^ 31 then ustrlen_from m pd s (n + 1) else Inl False)"
  by pat_completeness auto
termination
  by (relation "measure (\<lambda>(m, pd, s, n). 2 ^ 31 - n)") auto

declare ustrlen_from.simps [simp del]

definition ustrlen :: "u32 \<Rightarrow> nat km" where
  "ustrlen s = bnd page_dir (\<lambda>pd. bnd (getsh mem) (\<lambda>m. case ustrlen_from m pd s 0 of
     Inr n \<Rightarrow> ret n | Inl flt \<Rightarrow> if flt then panic ''trap'' else fault ''integer overflow''))"

text \<open>The strings are pushed one after the other; the result is the stack pointer and the addresses of the
  strings in the new image.\<close>

fun push_strings :: "u32 \<Rightarrow> u32 list \<Rightarrow> nat \<Rightarrow> u32 \<Rightarrow> (u32 \<times> u32 list) option km" where
  "push_strings pd [] argc sp = ret (Some (sp, []))"
| "push_strings pd (a # as) argc sp =
     (if argc \<ge> MAXARG then ret None
      else bnd (ustrlen a) (\<lambda>n. let sp' = (sp - (of_nat n + 1)) AND NOT 3 in
        bnd (read_user a (n + 1)) (\<lambda>bs. bnd (copyout pd sp' bs) (\<lambda>r.
          if r < 0 then ret None
          else bnd (push_strings pd as (argc + 1) sp') (\<lambda>x. ret (map_option (\<lambda>(e, us). (e, sp' # us)) x))))))"

text \<open>The words at the top of the stack: a return address, \<open>argc\<close>, \<open>argv\<close>, and the array \<open>argv\<close> points
  to.\<close>

definition ustack :: "u32 \<Rightarrow> u32 list \<Rightarrow> u32 list" where
  "ustack sp us = [0xffffffff, of_nat (length us), sp - (of_nat (length us) + 1) * 4] @ us @ [0]"

definition push_argv :: "u32 \<Rightarrow> u32 \<Rightarrow> u32 list \<Rightarrow> u32 option km" where
  "push_argv pd sp us = (let sp' = sp - (3 + of_nat (length us) + 1) * 4 in
     bnd (copyout pd sp' (concat (map split32 (ustack sp us)))) (\<lambda>r. ret (if r < 0 then None else Some sp')))"

text \<open>What follows the last slash.\<close>

fun last_elem :: "u8 list \<Rightarrow> u8 list \<Rightarrow> u8 list" where
  "last_elem l [] = l"
| "last_elem l (c # cs) = last_elem (if c = SLASH then cs else l) cs"

section \<open>exec\<close>

definition exec_bad :: "u32 \<Rightarrow> nat option \<Rightarrow> int km" where
  "exec_bad pd ip = sq (seqs [
     whenk (pd \<noteq> 0) (freevm pd),
     (case ip of None \<Rightarrow> ret () | Some i \<Rightarrow> seqs [iunlockput i, end_op])]) (ret (- 1))"

definition exec_commit :: "nat \<Rightarrow> u8 list \<Rightarrow> u32 \<Rightarrow> u32 \<Rightarrow> u32 \<Rightarrow> u32 \<Rightarrow> int km" where
  "exec_commit p path pd siz entry sp = sq (seqs [
     setp p (\<lambda>r. r\<lparr>pname := copy_name (last_elem path path @ [0]) (pname r)\<rparr>),
     initlock (VLock p),
     acquire (VLock p),
     bnd (getp p pgdir) (\<lambda>old. seqs [
       setp p (\<lambda>r. r\<lparr>pgdir := pd, sz := siz\<rparr>),
       release (VLock p),
       bnd (getp p tf) (\<lambda>a. settf a (\<lambda>t. t\<lparr>tf_eip := entry, tf_esp := sp\<rparr>)),
       switchuvm (Some p),
       freevm old])]) (ret 0)"

definition exec_stack :: "nat \<Rightarrow> u8 list \<Rightarrow> u32 list \<Rightarrow> u32 \<Rightarrow> u32 \<Rightarrow> u32 \<Rightarrow> int km" where
  "exec_stack p path argv pd entry siz0 = (let siz1 = PGROUNDUP siz0 in
     bnd (allocuvm pd siz1 (siz1 + 2 * PGSIZE)) (\<lambda>siz.
       if siz = 0 then exec_bad pd None
       else sq (clearpteu pd (siz - 2 * PGSIZE)) (bnd (push_strings pd argv 0 siz) (\<lambda>x. case x of
           None \<Rightarrow> exec_bad pd None
         | Some (sp, us) \<Rightarrow> bnd (push_argv pd sp us) (\<lambda>y. case y of
             None \<Rightarrow> exec_bad pd None
           | Some sp' \<Rightarrow> exec_commit p path pd siz entry sp')))))"

definition exec_image :: "nat \<Rightarrow> u8 list \<Rightarrow> u32 list \<Rightarrow> nat \<Rightarrow> int km" where
  "exec_image p path argv ip = bnd (readi ip ToLocal 0 52) (\<lambda>(r, bs).
     let elf = elfhdr_of bs in
     if r \<noteq> 52 then exec_bad 0 (Some ip)
     else if e_magic elf \<noteq> ELF_MAGIC then exec_bad 0 (Some ip)
     else bnd setupkvm (\<lambda>pd.
       if pd = 0 then exec_bad 0 (Some ip)
       else bnd (load_segs ip pd (unat (e_phnum elf)) (e_phoff elf) 0) (\<lambda>x. case x of
           None \<Rightarrow> exec_bad pd (Some ip)
         | Some siz \<Rightarrow> sq (seqs [iunlockput ip, end_op]) (exec_stack p path argv pd (e_entry elf) siz))))"

definition exec :: "u8 list \<Rightarrow> u32 list \<Rightarrow> int km" where
  "exec path argv = bnd curproc (\<lambda>p. sq (acquire PtableLock) (bnd (getp p killed) (\<lambda>k.
     if k then sq (release PtableLock) (ret (- 1))
     else sq (seqs [
         seqs (map (kill_one p) [0..<NPROC]),
         release PtableLock,
         acquire PtableLock,
         sleep_loop (others_gone p) (group_sleep p),
         release PtableLock,
         take_over p,
         begin_op])
       (bnd (namei path) (\<lambda>ip0. case ip0 of
           None \<Rightarrow> sq (seqs [end_op, cprintf (Some (str ''exec: fail'' @ [10])) []]) (ret (- 1))
         | Some ip \<Rightarrow> sq (ilock (Some ip)) (exec_image p path argv ip))))))"

end
