(* ===== verification/Sysfile.thy ===== *)
theory Sysfile
  imports Exec
begin

text \<open>
  The file system calls (\<open>sysfile.c\<close>).  The arguments are fetched in the order of the C
  conditions, and a call that fails does not evaluate what comes after it.
\<close>

section \<open>File descriptors\<close>

text \<open>The descriptor and the file; \<open>None\<close> is -1.\<close>

definition argfd :: "u32 \<Rightarrow> (nat \<times> nat) option km" where
  "argfd n = bnd (argint n) (\<lambda>r. case r of
     None \<Rightarrow> ret None
   | Some fd \<Rightarrow>
       if fd <s 0 \<or> sint fd \<ge> int NOFILE then ret None
       else bnd curproc (\<lambda>p. bnd (getp p (\<lambda>r. ofile r ! unat fd)) (\<lambda>f.
         ret (map_option (\<lambda>f. (unat fd, f)) f))))"

definition fdalloc :: "nat \<Rightarrow> nat option km" where
  "fdalloc f = bnd curproc (\<lambda>p. bnd (getp p (\<lambda>r. scan (\<lambda>x. x = None) (take NOFILE (ofile r)))) (\<lambda>r. case r of
     None \<Rightarrow> ret None
   | Some fd \<Rightarrow> sq (setp p (\<lambda>r. r\<lparr>ofile := (ofile r)[fd := Some f]\<rparr>)) (ret (Some fd))))"

definition fd_result :: "nat option \<Rightarrow> int" where
  "fd_result r = (case r of None \<Rightarrow> - 1 | Some fd \<Rightarrow> int fd)"

definition sys_dup :: "int km" where
  "sys_dup = bnd (argfd 0) (\<lambda>r. case r of
     None \<Rightarrow> ret (- 1)
   | Some (_, f) \<Rightarrow> bnd (fdalloc f) (\<lambda>fd. case fd of
       None \<Rightarrow> ret (- 1)
     | Some fd \<Rightarrow> sq (bnd (filedup f) (\<lambda>_. ret ())) (ret (int fd))))"

text \<open>The arguments of \<open>read\<close> and \<open>write\<close>: the file, the user buffer and its length.\<close>

definition rw_args :: "(nat \<times> u32 \<times> u32) option km" where
  "rw_args = bnd (argfd 0) (\<lambda>r. case r of None \<Rightarrow> ret None | Some (_, f) \<Rightarrow>
     bnd (argint 2) (\<lambda>r. case r of None \<Rightarrow> ret None | Some n \<Rightarrow>
       bnd (argptr 1 n) (\<lambda>r. case r of None \<Rightarrow> ret None | Some a \<Rightarrow> ret (Some (f, a, n)))))"

definition sys_read :: "int km" where
  "sys_read = bnd rw_args (\<lambda>r. case r of
     None \<Rightarrow> ret (- 1)
   | Some (f, a, n) \<Rightarrow> sq (seqs (replicate 100 yield)) (fileread f a n))"

definition sys_write :: "int km" where
  "sys_write = bnd rw_args (\<lambda>r. case r of
     None \<Rightarrow> ret (- 1)
   | Some (f, a, n) \<Rightarrow> filewrite f a n)"

definition sys_close :: "int km" where
  "sys_close = bnd (argfd 0) (\<lambda>r. case r of
     None \<Rightarrow> ret (- 1)
   | Some (fd, f) \<Rightarrow> sq (seqs [
       bnd curproc (\<lambda>p. setp p (\<lambda>r. r\<lparr>ofile := (ofile r)[fd := None]\<rparr>)),
       fileclose f]) (ret 0))"

definition sys_fstat :: "int km" where
  "sys_fstat = bnd (argfd 0) (\<lambda>r. case r of None \<Rightarrow> ret (- 1) | Some (_, f) \<Rightarrow>
     bnd (argptr 1 20) (\<lambda>r. case r of None \<Rightarrow> ret (- 1) | Some a \<Rightarrow>
       filestat f a))"

section \<open>Links\<close>

definition fail_op :: "int km" where
  "fail_op = sq end_op (ret (- 1))"

text \<open>The label \<open>bad\<close> of \<open>sys_link\<close>.\<close>

definition link_bad :: "nat \<Rightarrow> int km" where
  "link_bad ip = sq (seqs [
     ilock (Some ip),
     seti ip (\<lambda>r. r\<lparr>nlink := nlink r - 1\<rparr>),
     iupdate ip,
     iunlockput ip,
     end_op]) (ret (- 1))"

definition link_entry :: "nat \<Rightarrow> u8 list \<Rightarrow> int km" where
  "link_entry ip snew = bnd (bnd (cstring snew) nameiparent) (\<lambda>d. case d of
     None \<Rightarrow> link_bad ip
   | Some (dp, name) \<Rightarrow> sq (ilock (Some dp)) (bnd (geti dp idev) (\<lambda>d1. bnd (geti ip idev) (\<lambda>d2.
       bnd (if d1 \<noteq> d2 then ret (- 1) else bnd (geti ip inum) (\<lambda>i. dirlink dp name i)) (\<lambda>r.
         if r < 0 then sq (iunlockput dp) (link_bad ip)
         else sq (seqs [iunlockput dp, iput ip, end_op]) (ret 0))))))"

definition sys_link :: "int km" where
  "sys_link = bnd (argstr 0) (\<lambda>r. case r of None \<Rightarrow> ret (- 1) | Some (_, old) \<Rightarrow>
     bnd (argstr 1) (\<lambda>r. case r of None \<Rightarrow> ret (- 1) | Some (_, new) \<Rightarrow>
     bnd (copy_path old) (\<lambda>r. case r of None \<Rightarrow> ret (- 1) | Some sold \<Rightarrow>
     bnd (copy_path new) (\<lambda>r. case r of None \<Rightarrow> ret (- 1) | Some snew \<Rightarrow>
       sq begin_op (bnd (bnd (cstring sold) namei) (\<lambda>i. case i of
         None \<Rightarrow> fail_op
       | Some ip \<Rightarrow> sq (ilock (Some ip)) (bnd (geti ip itype) (\<lambda>t.
           if t = T_DIR then sq (iunlockput ip) fail_op
           else sq (seqs [
               seti ip (\<lambda>r. r\<lparr>nlink := nlink r + 1\<rparr>),
               iupdate ip,
               iunlock (Some ip)])
             (link_entry ip snew)))))))))"

function isdirempty_loop :: "nat \<Rightarrow> u32 \<Rightarrow> bool km" where
  "isdirempty_loop dp off = bnd (geti dp isz) (\<lambda>n.
     if off < n then bnd (readi dp ToLocal off 16) (\<lambda>(r, bs).
       if r \<noteq> 16 then panic ''isdirempty: readi''
       else if de_inum (dirent_of bs) \<noteq> 0 then ret False
       else if off + 16 \<le> off then Asleep else isdirempty_loop dp (off + 16))
     else ret True)"
  by pat_completeness auto
termination
  by (relation "measure (\<lambda>(dp, off). 2 ^ 32 - unat off)") (simp_all add: no_wrap_measure)

declare isdirempty_loop.simps [simp del]

definition isdirempty :: "nat \<Rightarrow> bool km" where
  "isdirempty dp = isdirempty_loop dp (2 * 16)"

definition unlink_bad :: "nat \<Rightarrow> int km" where
  "unlink_bad dp = sq (iunlockput dp) fail_op"

definition unlink_entry :: "nat \<Rightarrow> nat \<Rightarrow> u32 \<Rightarrow> int km" where
  "unlink_entry dp ip off = bnd (writei dp (FromLocal (replicate 16 0)) off 16) (\<lambda>r.
     if r \<noteq> 16 then panic ''unlink: writei''
     else sq (seqs [
       bnd (geti ip itype) (\<lambda>t. whenk (t = T_DIR) (seqs [seti dp (\<lambda>r. r\<lparr>nlink := nlink r - 1\<rparr>), iupdate dp])),
       iunlockput dp,
       seti ip (\<lambda>r. r\<lparr>nlink := nlink r - 1\<rparr>),
       iupdate ip,
       iunlockput ip,
       end_op]) (ret 0))"

definition unlink_name :: "nat \<Rightarrow> u8 list \<Rightarrow> int km" where
  "unlink_name dp name = sq (ilock (Some dp))
     (if namecmp name (str ''.'') = 0 \<or> namecmp name (str ''..'') = 0 then unlink_bad dp
      else bnd (dirlookup dp name) (\<lambda>e. case e of
        None \<Rightarrow> unlink_bad dp
      | Some (ip, off) \<Rightarrow> sq (ilock (Some ip)) (bnd (geti ip id) (\<lambda>r.
          if nlink r <s 1 then panic ''unlink: nlink < 1''
          else bnd (if itype r = T_DIR then isdirempty ip else ret True) (\<lambda>empty.
            if \<not> empty then sq (iunlockput ip) (unlink_bad dp)
            else unlink_entry dp ip off)))))"

definition sys_unlink :: "int km" where
  "sys_unlink = bnd (argstr 0) (\<lambda>r. case r of None \<Rightarrow> ret (- 1) | Some (_, a) \<Rightarrow>
     bnd (copy_path a) (\<lambda>r. case r of None \<Rightarrow> ret (- 1) | Some spath \<Rightarrow>
       sq begin_op (bnd (bnd (cstring spath) nameiparent) (\<lambda>d. case d of
         None \<Rightarrow> fail_op
       | Some (dp, name) \<Rightarrow> unlink_name dp name))))"

section \<open>Creating and opening\<close>

text \<open>The entries \<open>.\<close> and \<open>..\<close> of a new directory.\<close>

definition create_dots :: "nat \<Rightarrow> nat \<Rightarrow> unit km" where
  "create_dots dp ip = seqs [
     seti dp (\<lambda>r. r\<lparr>nlink := nlink r + 1\<rparr>),
     iupdate dp,
     bnd (bnd (geti ip inum) (dirlink ip (str ''.''))) (\<lambda>r.
       if r < 0 then panic ''create dots''
       else bnd (bnd (geti dp inum) (dirlink ip (str ''..''))) (\<lambda>r.
         if r < 0 then panic ''create dots'' else ret ()))]"

definition create_new :: "nat \<Rightarrow> u8 list \<Rightarrow> u16 \<Rightarrow> u16 \<Rightarrow> u16 \<Rightarrow> nat option km" where
  "create_new dp name ty mj mn = bnd (geti dp idev) (\<lambda>dev. bnd (ialloc dev ty) (\<lambda>ip. sq (seqs [
     ilock (Some ip),
     seti ip (\<lambda>r. r\<lparr>major := mj, minor := mn, nlink := 1\<rparr>),
     iupdate ip,
     whenk (ty = T_DIR) (create_dots dp ip),
     bnd (bnd (geti ip inum) (dirlink dp name)) (\<lambda>r. if r < 0 then panic ''create: dirlink'' else ret ()),
     iunlockput dp]) (ret (Some ip))))"

definition create :: "u8 list \<Rightarrow> u16 \<Rightarrow> u16 \<Rightarrow> u16 \<Rightarrow> nat option km" where
  "create path ty mj mn = bnd (nameiparent path) (\<lambda>d. case d of
     None \<Rightarrow> ret None
   | Some (dp, name) \<Rightarrow> sq (ilock (Some dp)) (bnd (dirlookup dp name) (\<lambda>e. case e of
       Some (ip, off) \<Rightarrow> sq (seqs [iunlockput dp, ilock (Some ip)]) (bnd (geti ip itype) (\<lambda>t.
         if ty = T_FILE \<and> t = T_FILE then ret (Some ip) else sq (iunlockput ip) (ret None)))
     | None \<Rightarrow> create_new dp name ty mj mn)))"

definition O_RDONLY :: u32 where "O_RDONLY = 0x000"
definition O_WRONLY :: u32 where "O_WRONLY = 0x001"
definition O_RDWR :: u32 where "O_RDWR = 0x002"
definition O_CREATE :: u32 where "O_CREATE = 0x200"

text \<open>The inode to open, locked.\<close>

definition open_inode :: "u8 list \<Rightarrow> u32 \<Rightarrow> nat option km" where
  "open_inode spath omode =
     (if omode AND O_CREATE \<noteq> 0 then bnd (cstring spath) (\<lambda>p. create p T_FILE 0 0)
      else bnd (bnd (cstring spath) namei) (\<lambda>i. case i of
        None \<Rightarrow> ret None
      | Some ip \<Rightarrow> sq (ilock (Some ip)) (bnd (geti ip itype) (\<lambda>t.
          if t = T_DIR \<and> omode \<noteq> O_RDONLY then sq (iunlockput ip) (ret None) else ret (Some ip)))))"

definition open_file :: "nat \<Rightarrow> u32 \<Rightarrow> int km" where
  "open_file ip omode = bnd filealloc (\<lambda>f. case f of
     None \<Rightarrow> sq (iunlockput ip) fail_op
   | Some f \<Rightarrow> bnd (fdalloc f) (\<lambda>fd. case fd of
       None \<Rightarrow> sq (seqs [fileclose f, iunlockput ip]) fail_op
     | Some fd \<Rightarrow> sq (seqs [
         iunlock (Some ip),
         end_op,
         setf f (\<lambda>g. g\<lparr>ftype := FD_INODE, fip := Some ip, foff := 0, readable := (omode AND O_WRONLY = 0),
           writable := (omode AND O_WRONLY \<noteq> 0 \<or> omode AND O_RDWR \<noteq> 0)\<rparr>)]) (ret (int fd))))"

definition sys_open :: "int km" where
  "sys_open = bnd (argstr 0) (\<lambda>r. case r of None \<Rightarrow> ret (- 1) | Some (_, a) \<Rightarrow>
     bnd (argint 1) (\<lambda>r. case r of None \<Rightarrow> ret (- 1) | Some omode \<Rightarrow>
     bnd (copy_path a) (\<lambda>r. case r of None \<Rightarrow> ret (- 1) | Some spath \<Rightarrow>
       sq begin_op (bnd (open_inode spath omode) (\<lambda>i. case i of
         None \<Rightarrow> fail_op
       | Some ip \<Rightarrow> open_file ip omode)))))"

text \<open>The common end of \<open>mkdir\<close> and \<open>mknod\<close>.\<close>

definition made :: "nat option \<Rightarrow> int km" where
  "made i = (case i of None \<Rightarrow> fail_op | Some ip \<Rightarrow> sq (seqs [iunlockput ip, end_op]) (ret 0))"

definition sys_mkdir :: "int km" where
  "sys_mkdir = sq begin_op (bnd (argstr 0) (\<lambda>r. case r of None \<Rightarrow> fail_op | Some (_, a) \<Rightarrow>
     bnd (copy_path a) (\<lambda>r. case r of None \<Rightarrow> fail_op | Some spath \<Rightarrow>
       bnd (bnd (cstring spath) (\<lambda>p. create p T_DIR 0 0)) made)))"

definition sys_mknod :: "int km" where
  "sys_mknod = sq begin_op (bnd (argstr 0) (\<lambda>r. case r of None \<Rightarrow> fail_op | Some (_, a) \<Rightarrow>
     bnd (argint 1) (\<lambda>r. case r of None \<Rightarrow> fail_op | Some mj \<Rightarrow>
     bnd (argint 2) (\<lambda>r. case r of None \<Rightarrow> fail_op | Some mn \<Rightarrow>
     bnd (copy_path a) (\<lambda>r. case r of None \<Rightarrow> fail_op | Some spath \<Rightarrow>
       bnd (bnd (cstring spath) (\<lambda>p. create p T_DEV (ucast mj) (ucast mn))) made)))))"

definition change_dir :: "nat \<Rightarrow> nat \<Rightarrow> int km" where
  "change_dir p ip = bnd (bnd (getp p process) deref) (\<lambda>q. sq (acquire (CwdLock q)) (bnd (getp q cwd) (\<lambda>old. sq (seqs [
     release (CwdLock q),
     bnd (deref old) iput,
     end_op,
     acquire (CwdLock q),
     setp q (\<lambda>r. r\<lparr>cwd := Some ip\<rparr>),
     release (CwdLock q)]) (ret 0))))"

definition sys_chdir :: "int km" where
  "sys_chdir = bnd curproc (\<lambda>p. sq begin_op (bnd (argstr 0) (\<lambda>r. case r of None \<Rightarrow> fail_op | Some (_, a) \<Rightarrow>
     bnd (copy_path a) (\<lambda>r. case r of None \<Rightarrow> fail_op | Some spath \<Rightarrow>
     bnd (bnd (cstring spath) namei) (\<lambda>i. case i of None \<Rightarrow> fail_op | Some ip \<Rightarrow>
       sq (ilock (Some ip)) (bnd (geti ip itype) (\<lambda>t.
         if t \<noteq> T_DIR then sq (iunlockput ip) fail_op
         else sq (iunlock (Some ip)) (change_dir p ip))))))))"

section \<open>exec and pipe\<close>

text \<open>The pointers of \<open>argv\<close> from entry \<open>i\<close> on, at most \<open>n\<close> of them before the terminating null.\<close>

fun fetch_argv :: "u32 \<Rightarrow> nat \<Rightarrow> nat \<Rightarrow> u32 list option km" where
  "fetch_argv uargv i 0 = ret None"
| "fetch_argv uargv i (Suc n) = bnd (fetchint (uargv + 4 * of_nat i)) (\<lambda>r. case r of
     None \<Rightarrow> ret None
   | Some uarg \<Rightarrow>
       if uarg = 0 then ret (Some [])
       else bnd (fetchstr uarg) (\<lambda>r. case r of
         None \<Rightarrow> ret None
       | Some (_, a) \<Rightarrow> bnd (fetch_argv uargv (i + 1) n) (\<lambda>r. ret (map_option (\<lambda>as. a # as) r))))"

definition sys_exec :: "int km" where
  "sys_exec = bnd (argstr 0) (\<lambda>r. case r of None \<Rightarrow> ret (- 1) | Some (_, a) \<Rightarrow>
     bnd (argint 1) (\<lambda>r. case r of None \<Rightarrow> ret (- 1) | Some uargv \<Rightarrow>
     bnd (copy_path a) (\<lambda>r. case r of None \<Rightarrow> ret (- 1) | Some spath \<Rightarrow>
     bnd (fetch_argv uargv 0 MAXARG) (\<lambda>r. case r of None \<Rightarrow> ret (- 1) | Some argv \<Rightarrow>
       bnd (cstring spath) (\<lambda>p. exec p argv)))))"

definition sys_pipe :: "int km" where
  "sys_pipe = bnd (argptr 0 8) (\<lambda>r. case r of None \<Rightarrow> ret (- 1) | Some a \<Rightarrow>
     bnd pipealloc (\<lambda>r. case r of None \<Rightarrow> ret (- 1) | Some (rfile, wfile) \<Rightarrow>
     bnd (fdalloc rfile) (\<lambda>fd0. case fd0 of
       None \<Rightarrow> sq (seqs [fileclose rfile, fileclose wfile]) (ret (- 1))
     | Some fd0 \<Rightarrow> bnd (fdalloc wfile) (\<lambda>fd1. case fd1 of
         None \<Rightarrow> sq (seqs [
           bnd curproc (\<lambda>p. setp p (\<lambda>r. r\<lparr>ofile := (ofile r)[fd0 := None]\<rparr>)),
           fileclose rfile,
           fileclose wfile]) (ret (- 1))
       | Some fd1 \<Rightarrow> sq (seqs [
           write_user a (split32 (of_nat fd0)),
           write_user (a + 4) (split32 (of_nat fd1))]) (ret 0)))))"

end
