(* ===== verification/Syscall.thy ===== *)
theory Syscall
  imports Sysfile
begin

text \<open>
  The process system calls (\<open>sysproc.c\<close>), the table of system calls (\<open>syscall.c\<close>, \<open>syscall.h\<close>) and the
  trap handler (\<open>trap.c\<close>, \<open>traps.h\<close>).
\<close>

section \<open>Process system calls\<close>

definition sys_fork :: "int km" where
  "sys_fork = fork"

definition sys_clone :: "int km" where
  "sys_clone =
     bnd (argptr 0 0) (\<lambda>r. case r of None \<Rightarrow> ret (- 1) | Some fn \<Rightarrow>
     bnd (argptr 1 0) (\<lambda>r. case r of None \<Rightarrow> ret (- 1) | Some arg1 \<Rightarrow>
     bnd (argptr 2 0) (\<lambda>r. case r of None \<Rightarrow> ret (- 1) | Some arg2 \<Rightarrow>
     bnd (argint 3) (\<lambda>r. case r of None \<Rightarrow> ret (- 1) | Some stack \<Rightarrow>
     bnd (argint 4) (\<lambda>r. case r of None \<Rightarrow> ret (- 1) | Some flags \<Rightarrow>
       if stack > KERNBASE \<or> stack - 4096 \<ge> KERNBASE then ret (- 1)
       else clone fn arg1 arg2 stack)))))"

definition sys_park :: "int km" where
  "sys_park = bnd (argint 0) (\<lambda>r. case r of None \<Rightarrow> ret (- 1) | Some ch \<Rightarrow> park ch)"

definition sys_unpark :: "int km" where
  "sys_unpark = bnd (argint 0) (\<lambda>r. case r of None \<Rightarrow> ret (- 1) | Some i \<Rightarrow>
     bnd (argint 1) (\<lambda>r. case r of None \<Rightarrow> ret (- 1) | Some ch \<Rightarrow> unpark (sint i) ch))"

definition sys_join :: "int km" where
  "sys_join = bnd (argint 0) (\<lambda>r. case r of None \<Rightarrow> ret (- 1) | Some i \<Rightarrow> join (sint i))"

definition sys_exit :: "int km" where
  "sys_exit = sq exit (ret 0)"

definition sys_wait :: "int km" where
  "sys_wait = wait"

definition sys_kill :: "int km" where
  "sys_kill = bnd (argint 0) (\<lambda>r. case r of None \<Rightarrow> ret (- 1) | Some i \<Rightarrow> kill (sint i))"

definition sys_getpid :: "int km" where
  "sys_getpid = bnd curproc (\<lambda>p. getp p pid)"

definition sys_sbrk :: "int km" where
  "sys_sbrk = bnd (argint 0) (\<lambda>r. case r of None \<Rightarrow> ret (- 1) | Some n \<Rightarrow>
     bnd curprocess (\<lambda>q. bnd (getp q sz) (\<lambda>addr. bnd (growproc n) (\<lambda>r.
       ret (if r < 0 then - 1 else sint addr)))))"

text \<open>\<open>ticks - ticks0 < n\<close> compares unsigned numbers.\<close>

definition ticks_passed :: "u32 \<Rightarrow> u32 \<Rightarrow> bool option km" where
  "ticks_passed ticks0 n = bnd (getsh ticks) (\<lambda>t.
     if t - ticks0 < n then bnd (bnd curproc (\<lambda>p. getp p killed)) (\<lambda>k. ret (if k then Some False else None))
     else ret (Some True))"

definition ticks_sleep :: "unit km" where
  "ticks_sleep = bnd (getsh (\<lambda>x. ticks_addr (lay x))) (\<lambda>a. sleep a (Some TicksLock))"

definition sys_sleep :: "int km" where
  "sys_sleep = bnd (argint 0) (\<lambda>r. case r of None \<Rightarrow> ret (- 1) | Some n \<Rightarrow>
     sq (acquire TicksLock) (bnd (getsh ticks) (\<lambda>ticks0.
       bnd (sleep_loop (ticks_passed ticks0 n) ticks_sleep) (\<lambda>ok.
         sq (release TicksLock) (ret (if ok then 0 else - 1))))))"

definition sys_uptime :: "int km" where
  "sys_uptime = sq (acquire TicksLock) (bnd (getsh ticks) (\<lambda>t. sq (release TicksLock) (ret (sint t))))"

section \<open>The table\<close>

definition syscalls :: "(int km) option list" where
  "syscalls = [None, Some sys_fork, Some sys_exit, Some sys_wait, Some sys_pipe, Some sys_read, Some sys_kill,
     Some sys_exec, Some sys_fstat, Some sys_chdir, Some sys_dup, Some sys_getpid, Some sys_sbrk, Some sys_sleep,
     Some sys_uptime, Some sys_open, Some sys_write, Some sys_mknod, Some sys_unlink, Some sys_link, Some sys_mkdir,
     Some sys_close, Some sys_clone, Some sys_join, Some sys_park, Some sys_unpark]"

definition syscall :: "unit km" where
  "syscall = bnd curproc (\<lambda>p. bnd mytf (\<lambda>f. let num = sint (tf_eax f) in
     case (if 0 < num \<and> num < int (length syscalls) then syscalls ! nat num else None) of
       Some call \<Rightarrow> bnd call (\<lambda>r. bnd (getp p tf) (\<lambda>a. settf a (\<lambda>t. t\<lparr>tf_eax := of_int r\<rparr>)))
     | None \<Rightarrow> bnd (getp p id) (\<lambda>r. seqs [
         cprintf (Some (str ''%d %s: unknown sys call %d'' @ [10]))
           [Num (of_int (pid r)), Str (Some (takeWhile (\<lambda>c. c \<noteq> 0) (pname r))), Num (tf_eax f)],
         bnd (getp p tf) (\<lambda>a. settf a (\<lambda>t. t\<lparr>tf_eax := - 1\<rparr>))])))"

section \<open>Traps\<close>

definition T_SYSCALL :: u32 where "T_SYSCALL = 64"
definition T_TLBFLUSH :: u32 where "T_TLBFLUSH = 65"
definition T_IRQ0 :: u32 where "T_IRQ0 = 32"
definition IRQ_TIMER :: u32 where "IRQ_TIMER = 0"
definition IRQ_KBD :: u32 where "IRQ_KBD = 1"
definition IRQ_COM1 :: u32 where "IRQ_COM1 = 4"
definition IRQ_IDE :: u32 where "IRQ_IDE = 14"
definition IRQ_SPURIOUS :: u32 where "IRQ_SPURIOUS = 31"
definition DPL_USER :: u16 where "DPL_USER = 3"

text \<open>What the handler reads from the hardware: the number and APIC id of the CPU, the faulting address,
  and the input waiting at the keyboard or the serial port.\<close>

record hw =
  hw_cpuid :: nat
  hw_apicid :: u32
  hw_cr2 :: u32
  hw_keys :: "nat list"

definition frame :: "u32 \<Rightarrow> trapframe km" where
  [kdefs]: "frame a = getsh (\<lambda>x. trapframes x a)"

definition tvinit :: "unit km" where
  "tvinit = initlock TicksLock"

definition clock_tick :: "unit km" where
  "clock_tick = seqs [
     acquire TicksLock,
     modsh (\<lambda>x. x\<lparr>ticks := ticks x + 1\<rparr>),
     bnd (getsh (\<lambda>x. ticks_addr (lay x))) wakeup,
     release TicksLock]"

definition bad_trap :: "hw \<Rightarrow> trapframe \<Rightarrow> unit km" where
  "bad_trap h f = bnd myproc (\<lambda>q. case (if tf_cs f AND 3 = 0 then None else q) of
     None \<Rightarrow> sq (cprintf (Some (str ''unexpected trap %d from cpu %d eip %x (cr2=0x%x)'' @ [10]))
         [Num (tf_trapno f), Num (of_nat (hw_cpuid h)), Num (tf_eip f), Num (hw_cr2 h)]) (panic ''trap'')
   | Some p \<Rightarrow> bnd (getp p id) (\<lambda>r. seqs [
       cprintf (Some (str ''pid %d %s: trap %d err %d on cpu %d eip 0x%x addr 0x%x--kill proc'' @ [10]))
         [Num (of_int (pid r)), Str (Some (takeWhile (\<lambda>c. c \<noteq> 0) (pname r))), Num (tf_trapno f), Num (tf_err f),
          Num (of_nat (hw_cpuid h)), Num (tf_eip f), Num (hw_cr2 h)],
       setp p (\<lambda>r. r\<lparr>killed := True\<rparr>)]))"

definition interrupt :: "hw \<Rightarrow> trapframe \<Rightarrow> unit km" where
  "interrupt h f = (let no = tf_trapno f in
     if no = T_IRQ0 + IRQ_TIMER then whenk (hw_cpuid h = 0) clock_tick
     else if no = T_IRQ0 + IRQ_IDE then ret ()
     else if no = T_IRQ0 + IRQ_IDE + 1 then ret ()
     else if no = T_IRQ0 + IRQ_KBD then consoleintr (hw_keys h)
     else if no = T_IRQ0 + IRQ_COM1 then consoleintr (hw_keys h)
     else if no = T_TLBFLUSH then cprintf (Some (str ''I got shot! %d'' @ [10])) [Num (hw_apicid h)]
     else if no = T_IRQ0 + 7 \<or> no = T_IRQ0 + IRQ_SPURIOUS then
       cprintf (Some (str ''cpu%d: spurious interrupt at %x:%x'' @ [10])) [Num (of_nat (hw_cpuid h)), Num (ucast (tf_cs f)), Num (tf_eip f)]
     else bad_trap h f)"

text \<open>\<open>if(myproc() && myproc()->killed && (tf->cs&3) == DPL_USER) exit();\<close>\<close>

definition exit_if_killed :: "u32 \<Rightarrow> unit km" where
  "exit_if_killed a = bnd myproc (\<lambda>q. case q of
     None \<Rightarrow> ret ()
   | Some p \<Rightarrow> bnd (getp p killed) (\<lambda>k. bnd (frame a) (\<lambda>f. whenk (k \<and> tf_cs f AND 3 = DPL_USER) exit)))"

definition preempt :: "u32 \<Rightarrow> unit km" where
  "preempt a = bnd myproc (\<lambda>q. case q of
     None \<Rightarrow> ret ()
   | Some p \<Rightarrow> bnd (getp p pstate) (\<lambda>st. bnd (frame a) (\<lambda>f.
       whenk (st = RUNNING \<and> tf_trapno f = T_IRQ0 + IRQ_TIMER) yield)))"

definition exit_killed :: "unit km" where
  "exit_killed = bnd curproc (\<lambda>p. bnd (getp p killed) (\<lambda>k. whenk k exit))"

definition trap :: "hw \<Rightarrow> u32 \<Rightarrow> unit km" where
  "trap h a = bnd (frame a) (\<lambda>f.
     if tf_trapno f = T_SYSCALL then seqs [
       exit_killed,
       bnd curproc (\<lambda>p. setp p (\<lambda>r. r\<lparr>tf := a\<rparr>)),
       syscall,
       exit_killed]
     else seqs [interrupt h f, exit_if_killed a, preempt a, exit_if_killed a])"

end
