(* ===== verification/Trap_Properties.thy ===== *)
theory Trap_Properties
  imports Process_Properties Syscall Sysfile
begin

text \<open>
  System calls, interrupts and faults as they enter the kernel keep the thread groups: the trap
  handler composed with every handler behind it.
\<close>

section \<open>System calls one by one\<close>

lemma pres_settf [pres_intros]: "pres (thr tg_ok R p) (rest tg_ok) (settf a f)"
  unfolding settf_def by (rule tg.pres_modsh_frame) simp_all

lemma pres_set_slot [pres_intros]:
  "pres (thr tg_ok R p) (rest tg_ok) (setp i (\<lambda>r. r\<lparr>ofile := g r\<rparr>))"
  "pres (thr tg_ok R p) (rest tg_ok) (setp i (\<lambda>r. r\<lparr>cwd := d\<rparr>))"
  "pres (thr tg_ok R p) (rest tg_ok) (setp i (\<lambda>r. r\<lparr>sz := n\<rparr>))"
  "pres (thr tg_ok R p) (rest tg_ok) (setp i (\<lambda>r. r\<lparr>tf := a\<rparr>))"
  "pres (thr tg_ok R p) (rest tg_ok) (setp i (\<lambda>r. r\<lparr>killed := True\<rparr>))"
  by (rule pres_setp_tg; simp add: grp_eq_def)+

lemma pres_argfd [pres_intros]: "pres (thr tg_ok R p) (rest tg_ok) (argfd n)"
  unfolding argfd_def by (intro pres_intros)

lemma pres_fdalloc [pres_intros]: "pres (thr tg_ok R p) (rest tg_ok) (fdalloc f)"
  unfolding fdalloc_def by (intro pres_intros)

lemma pres_rw_args [pres_intros]: "pres (thr tg_ok R p) (rest tg_ok) rw_args"
  unfolding rw_args_def by (intro pres_intros)

lemma pres_fail_op [pres_intros]: "pres (thr tg_ok R p) (rest tg_ok) fail_op"
  unfolding fail_op_def by (intro pres_intros)

lemma pres_seti_tg [pres_intros]: "pres (thr tg_ok R p) (rest tg_ok) (seti i f)"
  by (intro pres_intros)

lemma pres_sys_dup: "pres (thr tg_ok R p) (rest tg_ok) sys_dup"
  unfolding sys_dup_def by (intro pres_intros)

lemma pres_sys_read: "pres (thr tg_ok R p) (rest tg_ok) sys_read"
  unfolding sys_read_def by (intro pres_intros)

lemma pres_sys_write: "pres (thr tg_ok R p) (rest tg_ok) sys_write"
  unfolding sys_write_def by (intro pres_intros)

lemma pres_sys_close: "pres (thr tg_ok R p) (rest tg_ok) sys_close"
  unfolding sys_close_def by (intro pres_intros)

lemma pres_sys_fstat: "pres (thr tg_ok R p) (rest tg_ok) sys_fstat"
  unfolding sys_fstat_def by (intro pres_intros)

lemma pres_link_bad [pres_intros]: "pres (thr tg_ok R p) (rest tg_ok) (link_bad ip)"
  unfolding link_bad_def by (intro pres_intros)

lemma pres_sys_link: "pres (thr tg_ok R p) (rest tg_ok) sys_link"
  unfolding sys_link_def link_entry_def by (intro pres_intros)

lemma pres_isdirempty [pres_intros]: "pres (thr tg_ok R p) (rest tg_ok) (isdirempty dp)"
proof -
  have "pres (thr tg_ok R p) (rest tg_ok) (isdirempty_loop dp off)" for off
  proof (induction dp off rule: isdirempty_loop.induct)
    case 1
    show ?case by (subst isdirempty_loop.simps) (intro pres_intros, rule 1; (assumption | rule refl))
  qed
  then show ?thesis unfolding isdirempty_def .
qed

lemma pres_sys_unlink: "pres (thr tg_ok R p) (rest tg_ok) sys_unlink"
  unfolding sys_unlink_def unlink_name_def unlink_entry_def unlink_bad_def by (intro pres_intros)

lemma pres_create [pres_intros]: "pres (thr tg_ok R p) (rest tg_ok) (create path ty mj mn)"
  unfolding create_def create_new_def create_dots_def by (intro pres_intros)

lemma pres_sys_open: "pres (thr tg_ok R p) (rest tg_ok) sys_open"
  unfolding sys_open_def open_inode_def open_file_def by (intro pres_intros)

lemma pres_sys_mkdir: "pres (thr tg_ok R p) (rest tg_ok) sys_mkdir"
  unfolding sys_mkdir_def made_def by (intro pres_intros)

lemma pres_sys_mknod: "pres (thr tg_ok R p) (rest tg_ok) sys_mknod"
  unfolding sys_mknod_def made_def by (intro pres_intros)

lemma pres_sys_chdir: "pres (thr tg_ok R p) (rest tg_ok) sys_chdir"
  unfolding sys_chdir_def change_dir_def by (intro pres_intros)

lemma pres_sys_pipe: "pres (thr tg_ok R p) (rest tg_ok) sys_pipe"
  unfolding sys_pipe_def by (intro pres_intros)

lemma pres_sys_park: "pres (thr tg_ok R p) (rest tg_ok) sys_park"
  unfolding sys_park_def by (intro pres_intros)

lemma pres_sys_unpark: "pres (thr tg_ok R p) (rest tg_ok) sys_unpark"
  unfolding sys_unpark_def by (intro pres_intros)

lemma pres_sys_kill: "pres (thr tg_ok R p) (rest tg_ok) sys_kill"
  unfolding sys_kill_def by (intro pres_intros)

lemma pres_sys_getpid: "pres (thr tg_ok R p) (rest tg_ok) sys_getpid"
  unfolding sys_getpid_def by (intro pres_intros)

lemma pres_switchuvm [pres_intros]: "pres (thr tg_ok R p) (rest tg_ok) (switchuvm q)"
  unfolding switchuvm_def by (intro pres_intros pres_modify) simp_all

lemma pres_sys_sbrk: "pres (thr tg_ok R p) (rest tg_ok) sys_sbrk"
  unfolding sys_sbrk_def growproc_def by (intro pres_intros)

lemma pres_sys_sleep: "pres (thr tg_ok R p) (rest tg_ok) sys_sleep"
  unfolding sys_sleep_def ticks_passed_def ticks_sleep_def
  by (intro pres_intros) (simp add: thr_def thr_at_def rest_def)

lemma pres_sys_uptime: "pres (thr tg_ok R p) (rest tg_ok) sys_uptime"
  unfolding sys_uptime_def by (intro pres_intros)

section \<open>The trap handler\<close>

lemma pres_exit: "pres (grouped p) (rest tg_ok) exit"
  using trip_exit[of p] by (auto simp: pres_def trip_def split: res.splits)

lemma pres_sys_exit: "pres (grouped p) (rest tg_ok) sys_exit"
  unfolding sys_exit_def by (intro pres_intros pres_exit)

text \<open>The system calls that create threads, reap them or replace the program have theorems of their own.\<close>

definition own_theorem :: "int \<Rightarrow> bool" where
  "own_theorem n \<longleftrightarrow> n \<in> {1, 3, 7, 22, 23}"

lemmas pres_sys = pres_sys_exit pres_sys_pipe pres_sys_read pres_sys_kill pres_sys_fstat pres_sys_chdir pres_sys_dup
  pres_sys_getpid pres_sys_sbrk pres_sys_sleep pres_sys_uptime pres_sys_open pres_sys_write pres_sys_mknod pres_sys_unlink
  pres_sys_link pres_sys_mkdir pres_sys_close pres_sys_park pres_sys_unpark

lemma pres_syscalls:
  assumes "i < length syscalls" and "\<not> own_theorem (int i)" and "syscalls ! i = Some m"
  shows "pres (grouped p) (rest tg_ok) m"
proof -
  have "\<forall>(n, c) \<in> set (enumerate 0 syscalls). \<forall>m. c = Some m \<longrightarrow> own_theorem (int n) \<or> pres (grouped p) (rest tg_ok) m"
    by (simp add: syscalls_def own_theorem_def pres_sys)
  moreover have "(i, syscalls ! i) \<in> set (enumerate 0 syscalls)"
    using assms(1) by (auto simp: in_set_enumerate_eq)
  ultimately show ?thesis using assms(2,3) by (auto split: prod.splits)
qed

lemma pres_interrupt: "pres (grouped p) (rest tg_ok) (interrupt h f)"
  unfolding interrupt_def clock_tick_def bad_trap_def Let_def by (intro pres_intros tg.pres_modsh_frame) simp_all

lemma pres_exit_if_killed: "pres (grouped p) (rest tg_ok) (exit_if_killed a)"
  unfolding exit_if_killed_def frame_def by (intro pres_intros pres_exit)

lemma pres_preempt: "pres (grouped p) (rest tg_ok) (preempt a)"
  unfolding preempt_def frame_def by (intro pres_intros)

lemma pres_exit_killed: "pres (grouped p) (rest tg_ok) exit_killed"
  unfolding exit_killed_def by (intro pres_intros pres_exit)

text \<open>The system call number in the trap frame at \<open>a\<close>.\<close>

definition call_no :: "u32 \<Rightarrow> kst \<Rightarrow> int" where
  "call_no a s = sint (tf_eax (trapframes (sh s) a))"

lemma syscall_grouped:
  assumes g: "grouped p s" and a: "tf (ptable (sh s) ! p) = a" and n: "\<not> own_theorem (call_no a s)"
  shows "case syscall s of Ok r t \<Rightarrow> grouped p t | Asleep t \<Rightarrow> rest tg_ok t | _ \<Rightarrow> True"
proof -
  let ?f = "trapframes (sh s) a" let ?n = "sint (tf_eax ?f)"
  let ?k = "\<lambda>c. case c of
       Some call \<Rightarrow> bnd call (\<lambda>r. bnd (getp p tf) (\<lambda>a. settf a (\<lambda>t. t\<lparr>tf_eax := of_int r\<rparr>)))
     | None \<Rightarrow> bnd (getp p id) (\<lambda>r. seqs [
         cprintf (Some (str ''%d %s: unknown sys call %d'' @ [10]))
           [Num (of_int (pid r)), Str (Some (takeWhile (\<lambda>c. c \<noteq> 0) (pname r))), Num (tf_eax ?f)],
         bnd (getp p tf) (\<lambda>a. settf a (\<lambda>t. t\<lparr>tf_eax := - 1\<rparr>))])"
  let ?c = "if 0 < ?n \<and> ?n < int (length syscalls) then syscalls ! nat ?n else None"
  have c: "curp s = Some p" using g by (simp add: thr_def thr_at_def)
  have e: "syscall s = ?k ?c s"
    unfolding syscall_def bnd_curproc[OF g] using c a by (simp add: mytf_def curproc_def myproc_def bnd_def gets_def deref_def ret_def getp_def getsh_def Let_def)
  have "pres (grouped p) (rest tg_ok) (?k ?c)"
  proof (cases ?c)
    case None
    show ?thesis unfolding None option.case by (intro pres_intros)
  next
    case (Some m)
    then have "nat ?n < length syscalls" "\<not> own_theorem (int (nat ?n))" "syscalls ! nat ?n = Some m"
      using n by (auto simp: call_no_def split: if_splits)
    then have "pres (grouped p) (rest tg_ok) m" by (rule pres_syscalls)
    then show ?thesis unfolding Some option.case by (intro pres_intros)
  qed
  then show ?thesis unfolding e pres_def using g by (metis (no_types, lifting))
qed

lemma trip_exit_killed:
  assumes "grouped p s"
  shows "trip (\<lambda>t. t = s) exit_killed (\<lambda>_ t. t = s) (rest tg_ok)"
proof (cases "killed (ptable (sh s) ! p)")
  case True
  then have "exit_killed s = exit s" using assms unfolding exit_killed_def bnd_curproc[OF assms] by (simp add: bnd_def getp_def getsh_def whenk_def)
  then show ?thesis using trip_exit[of p] assms by (auto simp: trip_def split: res.splits)
next
  case False
  then have "exit_killed s = Ok () s" using assms unfolding exit_killed_def bnd_curproc[OF assms]
    by (simp add: bnd_def getp_def getsh_def whenk_def ret_def)
  then show ?thesis by (simp add: trip_def)
qed

lemma trap_syscall_grouped:
  assumes g: "grouped p s" and n: "\<not> own_theorem (call_no a s)"
  shows "trip (\<lambda>t. t = s) (seqs [exit_killed, bnd curproc (\<lambda>p. setp p (\<lambda>r. r\<lparr>tf := a\<rparr>)), syscall, exit_killed])
    (\<lambda>_. grouped p) (rest tg_ok)"
proof (rule trip_seqs[OF trip_exit_killed[OF g]], rule trip_seqs)
  let ?Q = "\<lambda>t. grouped p t \<and> tf (ptable (sh t) ! p) = a \<and> call_no a t = call_no a s"
  let ?t = "s\<lparr>sh := upd_proc p (\<lambda>r. r\<lparr>tf := a\<rparr>) (sh s)\<rparr>"
  have "pres (grouped p) (rest tg_ok) (setp p (\<lambda>r. r\<lparr>tf := a\<rparr>))" by (intro pres_intros)
  from pres_Ok[OF this g, of "()" ?t] have "grouped p ?t" by (simp add: setp_def modsh_def)
  moreover have "tf (ptable (sh ?t) ! p) = a" using g by (simp add: nth_upd_proc thr_def thr_at_def)
  moreover have "call_no a ?t = call_no a s" by (simp add: call_no_def upd_proc_def)
  moreover have "bnd curproc (\<lambda>p. setp p (\<lambda>r. r\<lparr>tf := a\<rparr>)) s = Ok () ?t"
    unfolding bnd_curproc[OF g] by (simp add: setp_def modsh_def)
  ultimately show "trip (\<lambda>t. t = s) (bnd curproc (\<lambda>p. setp p (\<lambda>r. r\<lparr>tf := a\<rparr>))) (\<lambda>_. ?Q) (rest tg_ok)"
    by (simp add: trip_def)
  show "trip ?Q (seqs [syscall, exit_killed]) (\<lambda>_. grouped p) (rest tg_ok)"
  proof (rule trip_seqs)
    show "trip ?Q syscall (\<lambda>_. grouped p) (rest tg_ok)"
      using syscall_grouped[of p _ a] n unfolding trip_def by (auto split: res.splits)
    show "trip (grouped p) (seqs [exit_killed]) (\<lambda>_. grouped p) (rest tg_ok)"
      unfolding pres_trip[symmetric] by (intro pres_intros pres_exit_killed)
  qed
qed

text \<open>C7: Every trap keeps the thread groups: a clock tick, a keyboard, disk or spurious interrupt, a fault of
  the user program, and every system call but those with theorems of their own, whatever the
  other threads do meanwhile that keeps them.  This covers the exits of killed threads and the
  preemption on the clock tick; the unknown system call numbers are included.\<close>

theorem trap_keeps_groups:
  assumes "grouped p s" and "tf_trapno (trapframes (sh s) a) = T_SYSCALL \<Longrightarrow> \<not> own_theorem (call_no a s)"
  shows "case trap h a s of Ok r t \<Rightarrow> grouped p t | Asleep t \<Rightarrow> tg_ok (sh t) | Panic m \<Rightarrow> True | Fault m \<Rightarrow> True"
proof (cases "tf_trapno (trapframes (sh s) a) = T_SYSCALL")
  case True
  let ?m = "seqs [exit_killed, bnd curproc (\<lambda>p. setp p (\<lambda>r. r\<lparr>tf := a\<rparr>)), syscall, exit_killed]"
  have "trap h a s = ?m s" using True by (simp only: trap_def bnd_def frame_def getsh_def res.case simp_thms if_True)
  moreover have "case ?m s of Ok r t \<Rightarrow> grouped p t | Asleep t \<Rightarrow> rest tg_ok t | Panic m \<Rightarrow> True | Fault m \<Rightarrow> True"
    using trap_syscall_grouped[OF assms(1) assms(2)[OF True]] unfolding trip_def by blast
  ultimately show ?thesis by (simp only: rest_def)
next
  case False
  let ?m = "seqs [interrupt h (trapframes (sh s) a), exit_if_killed a, preempt a, exit_if_killed a]"
  have "pres (grouped p) (rest tg_ok) ?m"
    by (intro pres_intros pres_interrupt pres_exit_if_killed pres_preempt)
  then have "case ?m s of Ok r t \<Rightarrow> grouped p t | Asleep t \<Rightarrow> rest tg_ok t | Panic m \<Rightarrow> True | Fault m \<Rightarrow> True"
    using assms(1) unfolding pres_def by blast
  moreover have "trap h a s = ?m s" using False by (simp only: trap_def bnd_def frame_def getsh_def res.case if_False)
  ultimately show ?thesis by (simp only: rest_def)
qed

text \<open>The first thread of the family is preempted by the clock on CPU 0.\<close>

theorem trap_keeps_groups_witness:
  "case trap \<lparr>hw_cpuid = 0, hw_apicid = 0, hw_cr2 = 0, hw_keys = []\<rparr> 0x80400FB4
      (first_thread\<lparr>sh := family\<lparr>trapframes := (\<lambda>_. zeroed_tf\<lparr>tf_trapno := 32, tf_cs := 0x1B\<rparr>)\<rparr>\<rparr>) of
    Ok r t \<Rightarrow> grouped 0 t | Asleep t \<Rightarrow> tg_ok (sh t) | Panic m \<Rightarrow> True | Fault m \<Rightarrow> True"
proof (rule trap_keeps_groups)
  show "grouped 0 (first_thread\<lparr>sh := family\<lparr>trapframes := (\<lambda>_. zeroed_tf\<lparr>tf_trapno := 32, tf_cs := 0x1B\<rparr>)\<rparr>\<rparr>)"
    using grouped_first by (simp add: thr_def thr_at_def first_thread_def tg_ok_def)
qed (simp add: T_SYSCALL_def)

end
