(* ===== verification/Sleep_Wakeup.thy ===== *)
theory Sleep_Wakeup
  imports Sched
begin

text \<open>
  The statements of \<open>sleep\<close> (\<open>proc.c\<close>) interleaved with the other threads, one statement at a
  time.  A configuration is the list of statements the sleeper still has to run, its state, and
  whether another thread has called \<open>wakeup\<close> on its channel after the sleeper gave up \<open>lk\<close>.
  Locks are respected: the others run \<open>wakeup\<close> only while \<open>ptable.lock\<close> is free, which it is for
  them while the sleeper is switched out.  The main result is that no order of steps loses a
  wakeup.
\<close>

section \<open>Interleaving\<close>

datatype conf = Running "unit km list" kst bool | Switched "unit km list" kst bool

text \<open>What a step of another thread may do to the sleeper's entry: nothing, or wake it.\<close>

definition may_wake :: "nat \<Rightarrow> (shared \<Rightarrow> shared) \<Rightarrow> bool" where
  "may_wake p f \<longleftrightarrow> (\<forall>x. let r = ptable x ! p; r' = ptable (f x) ! p in
     length (ptable (f x)) = length (ptable x) \<and> kstack r' = kstack r \<and> pgdir r' = pgdir r \<and>
     (pstate r' = pstate r \<and> chan r' = chan r \<or> pstate r = SLEEPING \<and> pstate r' = RUNNABLE))"

text \<open>The sleeper runs its next statement; it switches out when that statement is a call of
  \<open>sched\<close> that does not return yet; the scheduler resumes it once it is \<open>RUNNABLE\<close>; another
  thread takes a step; another thread calls \<open>wakeup\<close> on the channel while the sleeper holds neither
  \<open>lk\<close> nor \<open>ptable.lock\<close>.\<close>

inductive interleave :: "nat \<Rightarrow> u32 \<Rightarrow> lockid \<Rightarrow> conf \<Rightarrow> conf \<Rightarrow> bool" for p ch lk where
  own: "m s = Ok () t \<Longrightarrow> interleave p ch lk (Running (m # ms) s w) (Running ms t w)"
| switch: "m s = Asleep t \<Longrightarrow> interleave p ch lk (Running (m # ms) s w) (Switched ms t w)"
| resume: "pstate (ptable (sh s) ! p) = RUNNABLE \<Longrightarrow> scheduler_run p s = Ok () t \<Longrightarrow>
    interleave p ch lk (Switched ms s w) (Running ms t w)"
| other: "may_wake p f \<Longrightarrow> interleave p ch lk (Running ms s w) (Running ms (s\<lparr>sh := f (sh s)\<rparr>) w)"
| other_switched: "may_wake p f \<Longrightarrow> interleave p ch lk (Switched ms s w) (Switched ms (s\<lparr>sh := f (sh s)\<rparr>) w)"
| wakeup: "lk \<notin> set (held s) \<Longrightarrow> PtableLock \<notin> set (held s) \<Longrightarrow>
    interleave p ch lk (Running ms s w) (Running ms (s\<lparr>sh := as_step q (wakeup ch) (sh s)\<rparr>) True)"
| wakeup_switched: "lk \<notin> set (held s) \<Longrightarrow>
    interleave p ch lk (Switched ms s w) (Switched ms (s\<lparr>sh := as_step q (wakeup ch) (sh s)\<rparr>) True)"

text \<open>The rest of the call when nobody interferes any more: a thread that is switched out needs
  to be \<open>RUNNABLE\<close>, or it sleeps on.\<close>

fun finish :: "nat \<Rightarrow> conf \<Rightarrow> (unit, kst) res" where
  "finish p (Running ms s w) = seqs ms s"
| "finish p (Switched ms s w) =
     (if pstate (ptable (sh s) ! p) = RUNNABLE then sq (scheduler_run p) (seqs ms) s else Asleep s)"

section \<open>The control points of sleep\<close>

definition entry_ok :: "nat \<Rightarrow> kst \<Rightarrow> bool" where
  "entry_ok p s \<longleftrightarrow> curp s = Some p \<and> others s = [] \<and> p < length (ptable (sh s)) \<and>
     kstack (ptable (sh s) ! p) \<noteq> 0 \<and> pgdir (ptable (sh s) ! p) \<noteq> 0"

definition dozing :: "nat \<Rightarrow> u32 \<Rightarrow> kst \<Rightarrow> bool" where
  "dozing p ch s \<longleftrightarrow> (let r = ptable (sh s) ! p in pstate r = SLEEPING \<and> chan r = ch \<or> pstate r = RUNNABLE)"

definition awake :: "nat \<Rightarrow> kst \<Rightarrow> bool" where
  "awake p s \<longleftrightarrow> pstate (ptable (sh s) ! p) = RUNNING"

text \<open>What holds before statement \<open>k\<close>.\<close>

definition point :: "nat \<Rightarrow> u32 \<Rightarrow> lockid \<Rightarrow> nat \<Rightarrow> kst \<Rightarrow> bool \<Rightarrow> bool" where
  "point p ch lk k s w \<longleftrightarrow> entry_ok p s \<and> k \<le> 8 \<and>
     held s = [[lk], [PtableLock, lk], [PtableLock], [PtableLock], [PtableLock], [PtableLock], [PtableLock], [], [lk]] ! k \<and>
     (if k = 4 then dozing p ch s else awake p s) \<and> (k \<le> 4 \<longrightarrow> \<not> w) \<and>
     (k = 3 \<longrightarrow> chan (ptable (sh s) ! p) = ch) \<and> (6 \<le> k \<longrightarrow> chan (ptable (sh s) ! p) = 0)"

fun conf_ok :: "nat \<Rightarrow> u32 \<Rightarrow> lockid \<Rightarrow> conf \<Rightarrow> bool" where
  "conf_ok p ch lk (Running ms s w) \<longleftrightarrow> (\<exists>k. ms = drop k (sleep_body p ch lk) \<and> point p ch lk k s w)"
| "conf_ok p ch lk (Switched ms s w) \<longleftrightarrow> ms = drop 5 (sleep_body p ch lk) \<and> entry_ok p s \<and> held s = [PtableLock] \<and>
     dozing p ch s \<and> (w \<longrightarrow> pstate (ptable (sh s) ! p) = RUNNABLE)"

lemma body_nth:
  assumes "lk \<noteq> PtableLock"
  shows "length (sleep_body p ch lk) = 8"
    "sleep_body p ch lk = [acquire PtableLock, release lk, setp p (\<lambda>r. r\<lparr>chan := ch\<rparr>), setp p (\<lambda>r. r\<lparr>pstate := SLEEPING\<rparr>),
       sched, setp p (\<lambda>r. r\<lparr>chan := 0\<rparr>), release PtableLock, acquire lk]"
  using assms by (simp_all add: sleep_body_def)

lemma body_drop:
  assumes "m # ms = drop k (sleep_body p ch lk)" and "lk \<noteq> PtableLock"
  shows "k < 8" "m = sleep_body p ch lk ! k" "ms = drop (Suc k) (sleep_body p ch lk)"
proof -
  note l = body_nth(1)[OF assms(2), of p ch]
  show k: "k < 8" using assms(1) l by (cases "k < 8") simp_all
  have "m # ms = sleep_body p ch lk ! k # drop (Suc k) (sleep_body p ch lk)"
    using assms(1) k l Cons_nth_drop_Suc[of k "sleep_body p ch lk"] by simp
  then show "m = sleep_body p ch lk ! k" "ms = drop (Suc k) (sleep_body p ch lk)" by simp_all
qed

lemma below_8: "(k :: nat) < 8 \<longleftrightarrow> k = 0 \<or> k = 1 \<or> k = 2 \<or> k = 3 \<or> k = 4 \<or> k = 5 \<or> k = 6 \<or> k = 7"
  by auto

lemma dozing_sched:
  assumes "entry_ok p s" and "held s = [PtableLock]" and "dozing p ch s"
  shows "sched s = (if pstate (ptable (sh s) ! p) = RUNNABLE then scheduler_run p s else Asleep s)"
proof -
  have o: "s\<lparr>others := []\<rparr> = s" using assms(1) by (simp add: entry_ok_def)
  show ?thesis using assms
    by (auto simp: sched_def swtch_def entry_ok_def dozing_def Let_def kdefs o simp del: scheduler_run_def)
qed

lemma resume_point:
  assumes "entry_ok p s" and "held s = [PtableLock]"
  shows "\<exists>t. scheduler_run p s = Ok () t \<and> point p ch lk 5 t w"
  using assms by (simp add: scheduler_run_go entry_ok_def point_def awake_def nth_upd_proc)

text \<open>A statement other than the call of \<open>sched\<close> returns and reaches the next point.\<close>

lemma own_point:
  assumes "point p ch lk k s w" and "k < 8" "k \<noteq> 4" and lk: "lk \<noteq> PtableLock"
  shows "\<exists>t. (sleep_body p ch lk ! k) s = Ok () t \<and> point p ch lk (Suc k) t w"
proof -
  have i: "interfere s = s" using assms(1) by (simp add: point_def entry_ok_def interfere_def)
  from assms(2,3) consider "k = 0" | "k = 1" | "k = 2" | "k = 3" | "k = 5" | "k = 6" | "k = 7"
    unfolding below_8 by blast
  then show ?thesis
    by cases (use assms(1) lk i in \<open>simp_all add: body_nth(2) point_def kdefs entry_ok_def awake_def dozing_def nth_upd_proc\<close>)
qed

lemma may_wake_ok:
  assumes "may_wake p f" and "entry_ok p s"
  shows "entry_ok p (s\<lparr>sh := f (sh s)\<rparr>)" "dozing p ch s \<Longrightarrow> dozing p ch (s\<lparr>sh := f (sh s)\<rparr>)"
    "awake p s \<Longrightarrow> awake p (s\<lparr>sh := f (sh s)\<rparr>) \<and> chan (ptable (f (sh s)) ! p) = chan (ptable (sh s) ! p)"
    "pstate (ptable (sh s) ! p) = RUNNABLE \<Longrightarrow> pstate (ptable (f (sh s)) ! p) = RUNNABLE"
  using assms(1)[unfolded may_wake_def, rule_format, of "sh s"] assms(2)
  by (auto simp: entry_ok_def dozing_def awake_def Let_def)

lemma may_wake_point: "may_wake p f \<Longrightarrow> point p ch lk k s w \<Longrightarrow> point p ch lk k (s\<lparr>sh := f (sh s)\<rparr>) w"
  unfolding point_def using may_wake_ok(1,3)[of p f s] may_wake_ok(2)[of p f s ch] by (simp split: if_splits)

lemma may_wake_wakeup:
  assumes "p < length (ptable x)"
  shows "ptable (as_step q (wakeup c) x) ! p = wake c (ptable x ! p)" "length (ptable (as_step q (wakeup c) x)) = length (ptable x)"
  using assms by (simp_all add: as_step_wakeup)

lemma wakeup_ok:
  assumes "entry_ok p s" and "s' = s\<lparr>sh := as_step q (wakeup ch) (sh s)\<rparr>"
  shows "entry_ok p s'" "dozing p ch s \<Longrightarrow> pstate (ptable (sh s') ! p) = RUNNABLE"
    "awake p s \<Longrightarrow> awake p s' \<and> ptable (sh s') ! p = ptable (sh s) ! p"
  using assms may_wake_wakeup[of p "sh s" q ch]
  by (auto simp: entry_ok_def dozing_def awake_def Let_def wake_def)

lemma interleave_ok:
  assumes "interleave p ch lk c c'" and "conf_ok p ch lk c" and lk: "lk \<noteq> PtableLock"
  shows "conf_ok p ch lk c'"
  using assms(1,2)
proof cases
  case (own m s t ms w)
  then obtain k where k: "m # ms = drop k (sleep_body p ch lk)" "point p ch lk k s w" using assms(2) by auto
  note k8 = body_drop(1)[OF k(1) lk] and m = body_drop(2,3)[OF k(1) lk]
  have "point p ch lk (Suc k) t w"
  proof (cases "k = 4")
    case True
    then have "sched s = Ok () t" using m own(3) lk by (simp add: body_nth(2))
    moreover have s: "entry_ok p s" "held s = [PtableLock]" "dozing p ch s" using k(2) True by (simp_all add: point_def)
    ultimately have "scheduler_run p s = Ok () t" using dozing_sched[OF s] by (simp split: if_splits)
    then show ?thesis using resume_point[OF s(1,2), of ch lk w] True by simp
  qed (use own_point[OF k(2) k8 _ lk] m own(3) in auto)
  then show ?thesis using own m by auto
next
  case (switch m s t ms w)
  then obtain k where k: "m # ms = drop k (sleep_body p ch lk)" "point p ch lk k s w" using assms(2) by auto
  note k8 = body_drop(1)[OF k(1) lk] and m = body_drop(2,3)[OF k(1) lk]
  have k4: "k = 4" using own_point[OF k(2) k8 _ lk] m(1) switch(3) by auto
  then have s: "entry_ok p s" "held s = [PtableLock]" "dozing p ch s" "\<not> w" using k(2) by (simp_all add: point_def)
  have "sched s = Asleep t" using m k4 switch(3) lk by (simp add: body_nth(2))
  then have "t = s" using dozing_sched[OF s(1-3)] by (simp split: if_splits)
  then show ?thesis using switch(2) m(2) k4 s by simp
next
  case (resume s t ms w)
  then show ?thesis using resume_point[of p s ch lk w] assms(2) by auto
next
  case (other f ms s w)
  then show ?thesis using may_wake_point assms(2) by auto
next
  case (other_switched f ms s w)
  then show ?thesis using may_wake_ok(1,4)[of p f s] may_wake_ok(2)[of p f s ch] assms(2) by auto
next
  case (wakeup s ms w q)
  let ?s = "s\<lparr>sh := as_step q (wakeup ch) (sh s)\<rparr>"
  obtain k where k: "ms = drop k (sleep_body p ch lk)" "point p ch lk k s w" using assms(2) wakeup(1) by auto
  then have "k \<le> 8" "held s = [[lk], [PtableLock, lk], [PtableLock], [PtableLock], [PtableLock], [PtableLock], [PtableLock], [], [lk]] ! k"
    by (simp_all add: point_def)
  then have k7: "k = 7" using wakeup(3,4) below_8[of k] by (cases "k = 8") auto
  then have "point p ch lk k ?s True" using k(2) wakeup_ok[of p s ?s q ch] by (simp add: point_def)
  then show ?thesis using wakeup(2) k(1) by auto
next
  case (wakeup_switched s ms w q)
  let ?s = "s\<lparr>sh := as_step q (wakeup ch) (sh s)\<rparr>"
  from wakeup_switched show ?thesis using wakeup_ok[of p s ?s q ch] assms(2) by (auto simp: dozing_def)
qed

lemma step_returns:
  assumes "m # ms = drop k (sleep_body p ch lk)" and "point p ch lk k s w" and lk: "lk \<noteq> PtableLock"
  shows "\<exists>t. m s = Ok () t \<or> m s = Asleep t"
proof (cases "k = 4")
  case True
  then have s: "entry_ok p s" "held s = [PtableLock]" "dozing p ch s" using assms(2) by (simp_all add: point_def)
  have "m = sched" using body_drop(2)[OF assms(1) lk] True lk by (simp add: body_nth(2))
  then show ?thesis using dozing_sched[OF s] resume_point[OF s(1,2), of ch lk w] by auto
qed (use own_point[OF assms(2) body_drop(1)[OF assms(1) lk] _ lk] body_drop(2)[OF assms(1) lk] in auto)

lemma interleaved_ok:
  assumes "(interleave p ch lk)\<^sup>*\<^sup>* c c'" and "conf_ok p ch lk c" and "lk \<noteq> PtableLock"
  shows "conf_ok p ch lk c'"
  using assms by (induction rule: rtranclp_induct) (auto intro: interleave_ok)

section \<open>Finishing\<close>

lemma finish_running:
  assumes "point p ch lk k s w" and "5 \<le> k" and lk: "lk \<noteq> PtableLock"
  shows "\<exists>t. seqs (drop k (sleep_body p ch lk)) s = Ok () t \<and> point p ch lk 8 t w"
  using assms(1,2)
proof (induction "8 - k" arbitrary: k s)
  case 0
  then have "k = 8" by (simp add: point_def)
  then show ?case using 0 body_nth(1)[OF lk, of p ch] by (simp add: kdefs)
next
  case (Suc n)
  then have k: "k < 8" "k \<noteq> 4" by auto
  obtain t where t: "(sleep_body p ch lk ! k) s = Ok () t" "point p ch lk (Suc k) t w"
    using own_point[OF Suc.prems(1) k lk] by blast
  then obtain u where "seqs (drop (Suc k) (sleep_body p ch lk)) t = Ok () u" "point p ch lk 8 u w"
    using Suc.hyps(1)[of "Suc k" t] Suc.hyps(2) Suc.prems(2) by force
  moreover have "drop k (sleep_body p ch lk) = sleep_body p ch lk ! k # drop (Suc k) (sleep_body p ch lk)"
    using k(1) body_nth(1)[OF lk, of p ch] by (simp add: Cons_nth_drop_Suc)
  ultimately show ?case using t(1) by (auto simp: bnd_def)
qed

lemma finish_ok:
  assumes "conf_ok p ch lk c" and lk: "lk \<noteq> PtableLock" and w: "case c of Running ms s w \<Rightarrow> w | Switched ms s w \<Rightarrow> w"
  shows "\<exists>t. finish p c = Ok () t \<and> point p ch lk 8 t True"
proof (cases c)
  case (Running ms s b)
  then obtain k where k: "ms = drop k (sleep_body p ch lk)" "point p ch lk k s True" using assms(1) w by auto
  then have "5 \<le> k" by (cases "k \<le> 4") (simp_all add: point_def)
  then show ?thesis using finish_running[OF k(2) _ lk] k(1) Running by simp
next
  case (Switched ms s b)
  then have s: "ms = drop 5 (sleep_body p ch lk)" "entry_ok p s" "held s = [PtableLock]" "pstate (ptable (sh s) ! p) = RUNNABLE"
    using assms(1) w by auto
  obtain t where t: "scheduler_run p s = Ok () t" "point p ch lk 5 t True" using resume_point[OF s(2,3)] by blast
  then show ?thesis using finish_running[OF t(2) _ lk] s(1,4) Switched by (simp add: sq_def bnd_def)
qed

section \<open>Properties\<close>

text \<open>C10: a thread that calls \<open>sleep(chan, lk)\<close> cannot miss a \<open>wakeup(chan)\<close> made after it gave up
  \<open>lk\<close>, however the statements of the two are interleaved with those of other threads.  In every
  configuration that can be reached from the call: the statement the sleeper is at does not panic;
  if the call is over, the sleeper is \<open>RUNNING\<close>, off the channel, and holds exactly \<open>lk\<close>; and if
  some thread called \<open>wakeup(chan)\<close> while the sleeper did not hold \<open>lk\<close>, the sleeper is not
  \<open>SLEEPING\<close>, and from here on it needs no further help to return from \<open>sleep\<close>.\<close>

theorem sleep_no_lost_wakeup:
  assumes "curp s = Some p" and "held s = [lk]" "lk \<noteq> PtableLock" and "others s = []"
    and "p < length (ptable (sh s))" "pstate (ptable (sh s) ! p) = RUNNING"
    and "kstack (ptable (sh s) ! p) \<noteq> 0" "pgdir (ptable (sh s) ! p) \<noteq> 0"
    and "(interleave p ch lk)\<^sup>*\<^sup>* (Running (sleep_body p ch lk) s False) c"
  shows "case c of
      Running ms u w \<Rightarrow>
        (case ms of
           m # _ \<Rightarrow> (\<exists>t. m u = Ok () t \<or> m u = Asleep t)
         | [] \<Rightarrow> held u = [lk] \<and> pstate (ptable (sh u) ! p) = RUNNING \<and> chan (ptable (sh u) ! p) = 0) \<and>
        (w \<longrightarrow> pstate (ptable (sh u) ! p) \<noteq> SLEEPING \<and>
          (\<exists>t. seqs ms u = Ok () t \<and> held t = [lk] \<and> pstate (ptable (sh t) ! p) = RUNNING \<and> chan (ptable (sh t) ! p) = 0))
    | Switched ms u w \<Rightarrow>
        w \<longrightarrow> pstate (ptable (sh u) ! p) = RUNNABLE \<and>
          (\<exists>t. sq (scheduler_run p) (seqs ms) u = Ok () t \<and>
            held t = [lk] \<and> pstate (ptable (sh t) ! p) = RUNNING \<and> chan (ptable (sh t) ! p) = 0)"
proof -
  have "point p ch lk 0 s False" using assms(1-8) by (simp add: point_def entry_ok_def awake_def)
  then have "conf_ok p ch lk (Running (sleep_body p ch lk) s False)" by (auto intro: exI[of _ 0])
  then have c: "conf_ok p ch lk c" by (rule interleaved_ok[OF assms(9) _ assms(3)])
  have e: "held t = [lk] \<and> pstate (ptable (sh t) ! p) = RUNNING \<and> chan (ptable (sh t) ! p) = 0" if "point p ch lk 8 t w" for t w
    using that by (simp add: point_def awake_def)
  show ?thesis
  proof (cases c)
    case (Running ms u w)
    then obtain k where k: "ms = drop k (sleep_body p ch lk)" "point p ch lk k u w" using c by auto
    have "case ms of m # _ \<Rightarrow> (\<exists>t. m u = Ok () t \<or> m u = Asleep t)
         | [] \<Rightarrow> held u = [lk] \<and> pstate (ptable (sh u) ! p) = RUNNING \<and> chan (ptable (sh u) ! p) = 0"
    proof (cases ms)
      case Nil
      then have "k = 8" using k body_nth(1)[OF assms(3), of p ch] by (simp add: point_def)
      then show ?thesis using Nil e k(2) by simp
    next
      case (Cons m ms')
      then show ?thesis using step_returns[OF _ k(2) assms(3)] k(1) by auto
    qed
    moreover have "pstate (ptable (sh u) ! p) \<noteq> SLEEPING" if w using k(2) that by (auto simp: point_def awake_def split: if_splits)
    moreover have "\<exists>t. seqs ms u = Ok () t \<and> point p ch lk 8 t True" if w using finish_ok[OF c assms(3)] Running that by simp
    ultimately show ?thesis using e Running by auto
  next
    case (Switched ms u w)
    then show ?thesis using finish_ok[OF c assms(3)] c e by auto
  qed
qed

definition ticks_sleeper :: kst where
  "ticks_sleeper = fresh_kst two_threads (Some 0) []\<lparr>held := [TicksLock]\<rparr>"

theorem sleep_no_lost_wakeup_witness:
  "\<exists>ms u t. (interleave 0 7 TicksLock)\<^sup>*\<^sup>* (Running (sleep_body 0 7 TicksLock) ticks_sleeper False) (Switched ms u True) \<and>
     sq (scheduler_run 0) (seqs ms) u = Ok () t \<and> held t = [TicksLock]"
proof -
  let ?R = "interleave 0 7 TicksLock" and ?b = "sleep_body 0 7 TicksLock"
  note b = body_nth(2)[of TicksLock 0 7, simplified]
  have s: "point 0 7 TicksLock 0 ticks_sleeper False"
    by (simp add: point_def entry_ok_def awake_def ticks_sleeper_def two_threads_def)
  have one: "\<exists>t. ?R (Running (drop k ?b) u False) (Running (drop (Suc k) ?b) t False) \<and> point 0 7 TicksLock (Suc k) t False"
    if "point 0 7 TicksLock k u False" "k < 4" for k u
    using own_point[OF that(1)] that(2) body_nth(1)[of TicksLock 0 7]
    by (auto intro!: interleave.own simp flip: Cons_nth_drop_Suc)
  have "\<exists>u. ?R\<^sup>*\<^sup>* (Running ?b ticks_sleeper False) (Running (drop k ?b) u False) \<and> point 0 7 TicksLock k u False" if "k \<le> 3" for k
    using that
  proof (induction k)
    case 0
    then show ?case using s by auto
  next
    case (Suc k)
    then show ?case using one by (fastforce intro: rtranclp.rtrancl_into_rtrancl)
  qed
  from this[of 3] obtain u where u: "?R\<^sup>*\<^sup>* (Running ?b ticks_sleeper False) (Running (drop 3 ?b) u False)" "point 0 7 TicksLock 3 u False"
    by auto
  let ?u = "u\<lparr>sh := upd_proc 0 (\<lambda>r. r\<lparr>pstate := SLEEPING\<rparr>) (sh u)\<rparr>"
  have v: "entry_ok 0 ?u" "held ?u = [PtableLock]" "dozing 0 7 ?u" "pstate (ptable (sh ?u) ! 0) = SLEEPING"
    using u(2) by (simp_all add: point_def entry_ok_def dozing_def nth_upd_proc)
  have "?R (Running (drop 3 ?b) u False) (Running (drop 4 ?b) ?u False)"
    using interleave.own[of "setp 0 (\<lambda>r. r\<lparr>pstate := SLEEPING\<rparr>)" u ?u] by (simp add: b kdefs)
  moreover have "?R (Running (drop 4 ?b) ?u False) (Switched (drop 5 ?b) ?u False)"
    using interleave.switch[of sched ?u ?u] dozing_sched[OF v(1-3)] v(4) by (simp add: b)
  moreover have "?R (Switched (drop 5 ?b) ?u False) (Switched (drop 5 ?b) (?u\<lparr>sh := as_step (Some 1) (wakeup 7) (sh ?u)\<rparr>) True)"
    using v(2) by (intro interleave.wakeup_switched) simp
  ultimately have c: "?R\<^sup>*\<^sup>* (Running ?b ticks_sleeper False) (Switched (drop 5 ?b) (?u\<lparr>sh := as_step (Some 1) (wakeup 7) (sh ?u)\<rparr>) True)"
    using u(1) by (meson rtranclp.rtrancl_into_rtrancl)
  have "curp ticks_sleeper = Some 0" "held ticks_sleeper = [TicksLock]" "others ticks_sleeper = []"
    "0 < length (ptable (sh ticks_sleeper))" "pstate (ptable (sh ticks_sleeper) ! 0) = RUNNING"
    "kstack (ptable (sh ticks_sleeper) ! 0) \<noteq> 0" "pgdir (ptable (sh ticks_sleeper) ! 0) \<noteq> 0"
    by (simp_all add: ticks_sleeper_def two_threads_def)
  note sleep_no_lost_wakeup[OF this(1,2) _ this(3-7) c]
  then show ?thesis using c by auto
qed

end
