(* ===== verification/User_Locks.thy ===== *)
theory User_Locks
  imports Prelude
begin

text \<open>
  The locks of the user-level thread library (\<open>ucthreads.c\<close>): the ticket lock and the spin lock.
  Any number of threads run the code at once; a step of the system is one access of one thread
  to the shared lock.  A thread is described by its program counter, which carries its local
  variables; a thread inside the critical section leaves it by calling the release function.
\<close>

section \<open>Atomic instructions\<close>

text \<open>What the instruction returns and what it leaves in memory.\<close>

definition xaddl :: "u32 \<Rightarrow> u32 \<Rightarrow> u32 \<times> u32" where
  "xaddl m v = (m, m + v)"

definition xchg :: "u32 \<Rightarrow> u32 \<Rightarrow> u32 \<times> u32" where
  "xchg m v = (m, v)"

section \<open>The ticket lock\<close>

record tlock =
  ticket :: u32
  turn :: u32

text \<open>\<open>TWait t\<close>: in the loop of \<open>tlock_acquire\<close> with ticket \<open>t\<close>.  \<open>TCrit t\<close>: in the critical section
  (the ticket is remembered only for the proofs).  \<open>TStore t v\<close>: in \<open>tlock_release\<close>, the sum \<open>v\<close>
  not yet written back.\<close>

datatype tl_pc = TIdle | TWait u32 | TCrit u32 | TStore u32 u32

definition tlock_init :: "tlock \<Rightarrow> tlock" where
  "tlock_init l = l\<lparr>turn := 0, ticket := 0\<rparr>"

fun tlock_acquire :: "tl_pc \<Rightarrow> tlock \<Rightarrow> tl_pc \<times> tlock" where
  "tlock_acquire TIdle l = (let (t, m) = xaddl (ticket l) 1 in (TWait t, l\<lparr>ticket := m\<rparr>))"
| "tlock_acquire (TWait t) l = (if turn l \<noteq> t then TWait t else TCrit t, l)"
| "tlock_acquire pc l = (pc, l)"

fun tlock_release :: "tl_pc \<Rightarrow> tlock \<Rightarrow> tl_pc \<times> tlock" where
  "tlock_release (TCrit t) l = (TStore t (turn l + 1), l)"
| "tlock_release (TStore t v) l = (TIdle, l\<lparr>turn := v\<rparr>)"
| "tlock_release pc l = (pc, l)"

record tl_sys =
  tl :: tlock
  tpc :: "nat \<Rightarrow> tl_pc"

definition tl_step :: "nat \<Rightarrow> tl_sys \<Rightarrow> tl_sys" where
  "tl_step i s = (let (pc, l) = (case tpc s i of
       TIdle \<Rightarrow> tlock_acquire (tpc s i) (tl s) | TWait t \<Rightarrow> tlock_acquire (tpc s i) (tl s)
     | _ \<Rightarrow> tlock_release (tpc s i) (tl s))
   in \<lparr>tl = l, tpc = (tpc s)(i := pc)\<rparr>)"

definition tl_start :: "tlock \<Rightarrow> tl_sys" where
  "tl_start l = \<lparr>tl = tlock_init l, tpc = \<lambda>_. TIdle\<rparr>"

inductive tl_reach :: "nat \<Rightarrow> tl_sys \<Rightarrow> bool" for n where
  start: "tl_reach n (tl_start l)"
| step: "tl_reach n s \<Longrightarrow> i < n \<Longrightarrow> tl_reach n (tl_step i s)"

subsection \<open>The invariant\<close>

definition critical :: "tl_pc \<Rightarrow> bool" where
  "critical pc = (case pc of TCrit _ \<Rightarrow> True | TStore _ _ \<Rightarrow> True | _ \<Rightarrow> False)"

lemma critical_simps [simp]:
  "\<not> critical TIdle" "\<not> critical (TWait t)" "critical (TCrit t)" "critical (TStore t v)"
  by (simp_all add: critical_def)

definition tick :: "tl_pc \<Rightarrow> u32" where
  "tick pc = (case pc of TWait t \<Rightarrow> t | TCrit t \<Rightarrow> t | TStore t _ \<Rightarrow> t | TIdle \<Rightarrow> 0)"

definition active :: "nat \<Rightarrow> tl_sys \<Rightarrow> nat set" where
  "active n s = {i. i < n \<and> tpc s i \<noteq> TIdle}"

text \<open>How many threads are ahead of thread \<open>i\<close>.\<close>

definition ahead :: "tl_sys \<Rightarrow> nat \<Rightarrow> nat" where
  "ahead s i = unat (tick (tpc s i) - turn (tl s))"

definition tl_inv :: "nat \<Rightarrow> tl_sys \<Rightarrow> bool" where
  "tl_inv n s \<longleftrightarrow> ticket (tl s) = turn (tl s) + of_nat (card (active n s)) \<and>
     inj_on (ahead s) (active n s) \<and> (\<forall>i \<in> active n s. ahead s i < card (active n s)) \<and>
     (\<forall>i. critical (tpc s i) \<longrightarrow> i < n \<and> ahead s i = 0) \<and> (\<forall>i t v. tpc s i = TStore t v \<longrightarrow> v = turn (tl s) + 1)"

lemma finite_active [simp]: "finite (active n s)"
  by (simp add: active_def)

lemma card_active: "card (active n s) \<le> n"
  using card_mono[of "{..<n}" "active n s"] by (auto simp: active_def)

lemma tl_inv_take:
  assumes "tl_inv n s" and "i < n" and "n < 2 ^ 32" and i: "tpc s i = TIdle"
  shows "tl_inv n (tl_step i s)"
proof -
  let ?s = "tl_step i s"
  have e: "tpc ?s = (tpc s)(i := TWait (ticket (tl s)))" "turn (tl ?s) = turn (tl s)" "ticket (tl ?s) = ticket (tl s) + 1"
    using i by (simp_all add: tl_step_def xaddl_def)
  have a: "active n ?s = insert i (active n s)" "i \<notin> active n s"
    using assms(2) i e(1) by (auto simp: active_def)
  then have "card (active n s) < n" using card_active[of n ?s] by simp
  then have c: "card (active n s) < 2 ^ 32" using assms(3) by simp
  have h: "ahead ?s i = card (active n s)" "\<And>j. j \<noteq> i \<Longrightarrow> ahead ?s j = ahead s j"
    using assms(1) e c by (simp_all add: ahead_def tick_def tl_inv_def)
  have "ticket (tl ?s) = turn (tl ?s) + of_nat (card (active n ?s))"
    using assms(1) e a by (simp add: tl_inv_def)
  moreover have "inj_on (ahead ?s) (active n ?s)" "\<forall>j \<in> active n ?s. ahead ?s j < card (active n ?s)"
    using assms(1) a h unfolding tl_inv_def inj_on_def by (metis insert_iff nat_neq_iff, metis card_insert_disjoint finite_active insert_iff less_Suc_eq)
  moreover have "\<forall>j. critical (tpc ?s j) \<longrightarrow> j < n \<and> ahead ?s j = 0" "\<forall>j t v. tpc ?s j = TStore t v \<longrightarrow> v = turn (tl ?s) + 1"
    using assms(1) e h by (auto simp: tl_inv_def critical_def)
  ultimately show ?thesis unfolding tl_inv_def by blast
qed

lemma tl_inv_stay:
  assumes "tl_inv n s" and "i < n" and "tl t = tl s" and "tpc t = (tpc s)(i := pc)"
    and "tpc s i \<noteq> TIdle" "pc \<noteq> TIdle" and "tick pc = tick (tpc s i)"
    and "critical pc \<Longrightarrow> tick pc = turn (tl s)" and "\<And>u v. pc = TStore u v \<Longrightarrow> v = turn (tl s) + 1"
  shows "tl_inv n t"
proof -
  have a: "active n t = active n s" using assms(4-6) by (auto simp: active_def)
  have h: "ahead t = ahead s" using assms(3,4,7) by (auto simp: ahead_def)
  have "critical (tpc t j) \<Longrightarrow> j < n \<and> ahead t j = 0" for j
    using assms by (cases "j = i") (auto simp: tl_inv_def ahead_def)
  moreover have "tpc t j = TStore u v \<Longrightarrow> v = turn (tl t) + 1" for j u v
    using assms by (cases "j = i") (auto simp: tl_inv_def)
  ultimately show ?thesis using assms(1,3) unfolding tl_inv_def a h by simp
qed

lemma tl_inv_next:
  assumes v: "tl_inv n s" and "i < n" and i: "tpc s i = TStore t w"
  shows "tl_inv n (tl_step i s)"
proof -
  let ?s = "tl_step i s"
  have w: "w = turn (tl s) + 1" "ahead s i = 0" using v i by (auto simp: tl_inv_def critical_def split: tl_pc.splits)
  have e: "tpc ?s = (tpc s)(i := TIdle)" "turn (tl ?s) = turn (tl s) + 1" "ticket (tl ?s) = ticket (tl s)"
    using i w by (simp_all add: tl_step_def)
  have a: "active n ?s = active n s - {i}" and m: "i \<in> active n s"
    using assms(2) i e(1) by (auto simp: active_def)
  then have c: "card (active n s) = Suc (card (active n ?s))" using card_Suc_Diff1[OF finite_active m] by simp
  have h: "ahead s j = Suc (ahead ?s j)" if "j \<in> active n ?s" for j
  proof -
    have "j \<in> active n s" "j \<noteq> i" using that a by auto
    then have "ahead s j \<noteq> 0" using v w(2) m unfolding tl_inv_def inj_on_def by metis
    then have "tick (tpc s j) \<noteq> turn (tl s)" by (auto simp: ahead_def)
    then show ?thesis using \<open>j \<noteq> i\<close> e by (simp add: ahead_def unat_minus_1)
  qed
  have alone: "\<not> critical (tpc ?s j)" for j
  proof
    assume j: "critical (tpc ?s j)"
    then have "j \<noteq> i" "critical (tpc s j)" using e by (auto simp: critical_def split: if_splits)
    then have "j < n" "ahead s j = 0" using v by (auto simp: tl_inv_def)
    moreover have "j \<in> active n ?s" using \<open>j < n\<close> j by (auto simp: active_def critical_def)
    ultimately show False using h by simp
  qed
  have "ticket (tl ?s) = turn (tl ?s) + of_nat (card (active n ?s))"
    using v e c by (simp add: tl_inv_def)
  moreover have "inj_on (ahead ?s) (active n ?s)"
    using v a h unfolding tl_inv_def inj_on_def by (metis Diff_iff)
  moreover have "\<forall>j \<in> active n ?s. ahead ?s j < card (active n ?s)"
    using v a h c unfolding tl_inv_def by (metis Diff_iff Suc_less_eq)
  moreover have "\<forall>j u v. tpc ?s j = TStore u v \<longrightarrow> v = turn (tl ?s) + 1"
    using alone by (metis critical_simps(4))
  ultimately show ?thesis using alone unfolding tl_inv_def by blast
qed

lemma tl_inv_step:
  assumes "tl_inv n s" and "i < n" and "n < 2 ^ 32"
  shows "tl_inv n (tl_step i s)"
proof (cases "tpc s i")
  case TIdle
  then show ?thesis using assms by (intro tl_inv_take)
next
  case (TWait t)
  then show ?thesis using assms
    by (intro tl_inv_stay[OF assms(1,2), where pc = "if turn (tl s) \<noteq> t then TWait t else TCrit t"])
      (auto simp: tl_step_def tick_def critical_def split: if_splits)
next
  case (TCrit t)
  moreover have "ahead s i = 0" using assms(1) TCrit by (auto simp: tl_inv_def critical_def)
  then have "t = turn (tl s)" using TCrit by (simp add: ahead_def tick_def unat_eq_zero)
  ultimately show ?thesis
    by (intro tl_inv_stay[OF assms(1,2), where pc = "TStore t (turn (tl s) + 1)"])
      (auto simp: tl_step_def tick_def critical_def)
next
  case (TStore t v)
  then show ?thesis using assms by (intro tl_inv_next)
qed

lemma tl_reach_inv: "tl_reach n s \<Longrightarrow> n < 2 ^ 32 \<Longrightarrow> tl_inv n s"
proof (induction rule: tl_reach.induct)
  case (start l)
  then show ?case by (simp add: tl_inv_def tl_start_def tlock_init_def active_def critical_def)
next
  case (step s i)
  then show ?case by (intro tl_inv_step)
qed

section \<open>The spin lock\<close>

datatype sl_pc = SIdle | SSpin | SCrit

definition slock_init :: "u32 \<Rightarrow> u32" where
  "slock_init l = 0"

fun slock_acquire :: "sl_pc \<Rightarrow> u32 \<Rightarrow> sl_pc \<times> u32" where
  "slock_acquire SSpin l = (let (old, m) = xchg l 1 in (if old \<noteq> 0 then SSpin else SCrit, m))"
| "slock_acquire SIdle l = (SSpin, l)"
| "slock_acquire SCrit l = (SCrit, l)"

fun slock_release :: "sl_pc \<Rightarrow> u32 \<Rightarrow> sl_pc \<times> u32" where
  "slock_release SCrit l = (SIdle, 0)"
| "slock_release pc l = (pc, l)"

record sl_sys =
  sl :: u32
  spc :: "nat \<Rightarrow> sl_pc"

definition sl_step :: "nat \<Rightarrow> sl_sys \<Rightarrow> sl_sys" where
  "sl_step i s = (let (pc, l) = (if spc s i = SCrit then slock_release else slock_acquire) (spc s i) (sl s)
   in \<lparr>sl = l, spc = (spc s)(i := pc)\<rparr>)"

inductive sl_reach :: "sl_sys \<Rightarrow> bool" where
  start: "sl_reach \<lparr>sl = slock_init l, spc = \<lambda>_. SIdle\<rparr>"
| step: "sl_reach s \<Longrightarrow> sl_reach (sl_step i s)"

lemma sl_inv: "sl_reach s \<Longrightarrow> (\<forall>i. spc s i = SCrit \<longrightarrow> sl s \<noteq> 0) \<and> (\<forall>i j. spc s i = SCrit \<longrightarrow> spc s j = SCrit \<longrightarrow> i = j) \<and>
    (sl s \<noteq> 0 \<longrightarrow> (\<exists>i. spc s i = SCrit))"
proof (induction rule: sl_reach.induct)
  case (step s i)
  then show ?case
    by (cases "spc s i") (auto simp: sl_step_def xchg_def split: if_splits, (metis sl_pc.distinct)+)
qed (simp add: slock_init_def)

section \<open>Properties\<close>

text \<open>C31: The ticket lock excludes: with fewer than \<open>2\<^sup>3\<^sup>2\<close> threads, however their steps interleave and
  however often the 32-bit counters wrap around, no two threads are between the end of
  \<open>tlock_acquire\<close> and the store of \<open>tlock_release\<close>.\<close>

theorem tlock_mutual_exclusion:
  assumes "tl_reach n s" and "n < 2 ^ 32" and "critical (tpc s i)" and "critical (tpc s j)"
  shows "i = j"
proof -
  have "tl_inv n s" using tl_reach_inv assms(1,2) .
  then have "ahead s i = ahead s j" "i \<in> active n s" "j \<in> active n s" "inj_on (ahead s) (active n s)"
    using assms(3,4) by (auto simp: tl_inv_def active_def)
  then show ?thesis by (simp add: inj_on_def)
qed

text \<open>C32: The ticket lock makes progress: whenever threads want the lock or have it, one of them has the
  ticket whose turn it is, so a free lock is always open to exactly one waiting thread, which
  its next look at \<open>turn\<close> lets in.\<close>

theorem tlock_progress:
  assumes "tl_reach n s" and "n < 2 ^ 32" and "k < n" and "tpc s k \<noteq> TIdle"
  shows "\<exists>i < n. critical (tpc s i) \<or> critical (tpc (tl_step i s) i)"
proof -
  have v: "tl_inv n s" using tl_reach_inv assms(1,2) .
  have k: "k \<in> active n s" using assms(3,4) by (simp add: active_def)
  have "ahead s ` active n s = {..<card (active n s)}"
    by (rule card_subset_eq) (use v in \<open>auto simp: tl_inv_def card_image\<close>)
  moreover have "0 < card (active n s)" using k by (auto simp: card_gt_0_iff)
  ultimately obtain i where i: "i \<in> active n s" "ahead s i = 0" by (metis imageE lessThan_iff)
  then have "tick (tpc s i) = turn (tl s)" by (simp add: ahead_def unat_eq_zero)
  then have "critical (tpc s i) \<or> critical (tpc (tl_step i s) i)"
    using i(1) by (cases "tpc s i") (auto simp: active_def tl_step_def tick_def)
  then show ?thesis using i(1) by (auto simp: active_def)
qed

definition two_lockers :: tl_sys where
  "two_lockers = fold tl_step [0, 1, 0, 1] (tl_start \<lparr>ticket = 9, turn = 7\<rparr>)"

lemma reach_two: "tl_reach 2 two_lockers"
  unfolding two_lockers_def by (simp only: fold.simps comp_apply id_apply) (intro tl_reach.intros; simp)

theorem tlock_mutual_exclusion_witness:
  "critical (tpc two_lockers 0) \<and> \<not> critical (tpc two_lockers 1)"
proof -
  have c: "critical (tpc two_lockers 0)" by (simp add: two_lockers_def tl_start_def tlock_init_def tl_step_def xaddl_def)
  then show ?thesis using tlock_mutual_exclusion[OF reach_two, of 0 1] by auto
qed

theorem tlock_progress_witness:
  "\<exists>i < 2. critical (tpc two_lockers i) \<or> critical (tpc (tl_step i two_lockers) i)"
  by (rule tlock_progress[OF reach_two, of 1])
    (simp_all add: two_lockers_def tl_start_def tlock_init_def tl_step_def xaddl_def)

text \<open>C33: The spin lock excludes: in every interleaving at most one thread is between the end of
  \<open>slock_acquire\<close> and the store of \<open>slock_release\<close>, and the lock word is zero exactly when none is.\<close>

theorem slock_mutual_exclusion:
  assumes "sl_reach s"
  shows "(\<forall>i j. spc s i = SCrit \<and> spc s j = SCrit \<longrightarrow> i = j) \<and> (sl s \<noteq> 0) = (\<exists>i. spc s i = SCrit)"
  using sl_inv[OF assms] by blast

definition two_spinners :: sl_sys where
  "two_spinners = fold sl_step [0, 1, 0, 1] \<lparr>sl = 0, spc = \<lambda>_. SIdle\<rparr>"

theorem slock_mutual_exclusion_witness:
  "spc two_spinners 0 = SCrit \<and> spc two_spinners 1 \<noteq> SCrit \<and> sl two_spinners \<noteq> 0"
proof -
  have "sl_reach \<lparr>sl = 0, spc = \<lambda>_. SIdle\<rparr>" using sl_reach.start by (simp add: slock_init_def)
  then have "sl_reach two_spinners"
    unfolding two_spinners_def by (simp only: fold.simps comp_apply id_apply) (intro sl_reach.step)
  moreover have "spc two_spinners 0 = SCrit" by (simp add: two_spinners_def sl_step_def xchg_def)
  ultimately show ?thesis using slock_mutual_exclusion[of two_spinners] by auto
qed

end
