(* ===== verification/User_Queue.thy ===== *)
theory User_Queue
  imports Prelude
begin

text \<open>
  The bounded queue of pids of the thread library (\<open>ucthreads.c\<close>, \<open>user.h\<close>): a ring buffer of
  \<open>QMAX\<close> entries, and the interface its client, the semaphore, relies on.
\<close>

section \<open>The interface\<close>

text \<open>A bounded first-in first-out queue: its contents are a list.\<close>

locale bounded_queue =
  fixes items :: "'q \<Rightarrow> 'a list" and ok :: "'q \<Rightarrow> bool" and room :: "'q \<Rightarrow> bool"
    and put :: "'q \<Rightarrow> 'a \<Rightarrow> 'q" and get :: "'q \<Rightarrow> 'a \<times> 'q"
  assumes put_ok: "ok q \<Longrightarrow> room q \<Longrightarrow> ok (put q x)"
    and put_items: "ok q \<Longrightarrow> room q \<Longrightarrow> items (put q x) = items q @ [x]"
    and get_ok: "ok q \<Longrightarrow> items q \<noteq> [] \<Longrightarrow> ok (snd (get q))"
    and get_items: "ok q \<Longrightarrow> items q \<noteq> [] \<Longrightarrow> fst (get q) # items (snd (get q)) = items q"
begin

text \<open>Taking out as many as are there.\<close>

fun drain :: "nat \<Rightarrow> 'q \<Rightarrow> 'a list" where
  "drain 0 q = []"
| "drain (Suc n) q = (let (x, r) = get q in x # drain n r)"

lemma drain_items: "ok q \<Longrightarrow> n \<le> length (items q) \<Longrightarrow> drain n q = take n (items q)"
proof (induction n arbitrary: q)
  case (Suc n)
  then have ne: "items q \<noteq> []" by auto
  from get_items[OF Suc.prems(1) this] have e: "items q = fst (get q) # items (snd (get q))" by simp
  then have "n \<le> length (items (snd (get q)))" using Suc.prems(2) by simp
  then show ?case using Suc.IH[OF get_ok[OF Suc.prems(1) ne]] by (simp add: e case_prod_beta)
qed simp

lemma get_put:
  assumes "ok q" and "room q"
  shows "fst (get (put q x)) = hd (items q @ [x])" and "items (snd (get (put q x))) = tl (items q @ [x])"
proof -
  have "fst (get (put q x)) # items (snd (get (put q x))) = items q @ [x]"
    using get_items[OF put_ok[OF assms]] put_items[OF assms] by simp
  from this [symmetric] show "fst (get (put q x)) = hd (items q @ [x])" "items (snd (get (put q x))) = tl (items q @ [x])"
    by simp_all
qed

end

section \<open>The ring buffer\<close>

definition QMAX :: nat where [simp]: "QMAX = 100"

record queue =
  arr :: "int list"
  q_start :: nat
  q_end :: nat
  q_count :: u32

definition qinit :: "queue \<Rightarrow> queue" where
  "qinit q = q\<lparr>q_start := 0, q_end := 0, q_count := 0\<rparr>"

definition enq :: "queue \<Rightarrow> int \<Rightarrow> queue" where
  "enq q x = q\<lparr>arr := (arr q)[q_end q := x], q_end := (q_end q + 1) mod QMAX, q_count := q_count q + 1\<rparr>"

definition deq :: "queue \<Rightarrow> int \<times> queue" where
  "deq q = (arr q ! q_start q, q\<lparr>q_start := (q_start q + 1) mod QMAX, q_count := q_count q - 1\<rparr>)"

definition qisfull :: "queue \<Rightarrow> bool" where
  "qisfull q \<longleftrightarrow> q_count q = of_nat QMAX"

definition qisempty :: "queue \<Rightarrow> bool" where
  "qisempty q \<longleftrightarrow> q_count q = 0"

section \<open>The contents of the ring buffer\<close>

definition qlist :: "queue \<Rightarrow> int list" where
  "qlist q = map (\<lambda>i. arr q ! ((q_start q + i) mod QMAX)) [0..<unat (q_count q)]"

definition q_ok :: "queue \<Rightarrow> bool" where
  "q_ok q \<longleftrightarrow> length (arr q) = QMAX \<and> q_start q < QMAX \<and> unat (q_count q) \<le> QMAX \<and>
     q_end q = (q_start q + unat (q_count q)) mod QMAX"

lemma length_qlist [simp]: "length (qlist q) = unat (q_count q)"
  by (simp add: qlist_def)

lemma qisfull_iff: "q_ok q \<Longrightarrow> qisfull q \<longleftrightarrow> length (qlist q) = QMAX"
  by (simp add: qisfull_def word_unat_eq_iff)

lemma qisempty_iff: "qisempty q \<longleftrightarrow> qlist q = []"
  using length_qlist[of q] by (simp only: qisempty_def unat_eq_zero length_0_conv[symmetric])

lemma q_ok_init: "length (arr q) = QMAX \<Longrightarrow> q_ok (qinit q)" "qlist (qinit q) = []"
  by (simp_all add: q_ok_def qinit_def qlist_def)

lemma unat_count_Suc: "unat (q_count q) < QMAX \<Longrightarrow> unat (q_count q + 1) = Suc (unat (q_count q))"
  using unat_of_nat32[of "Suc (unat (q_count q))"] by (simp add: add.commute)

lemma mod_apart:
  assumes "i < n" and "n < m"
  shows "(a + i) mod m \<noteq> (a + n) mod (m :: nat)"
proof
  assume "(a + i) mod m = (a + n) mod m"
  then have "m dvd (a + n) - (a + i)" using assms(1) by (intro mod_eq_dvd_iff_nat[THEN iffD1]) simp_all
  then show False using assms by (auto dest: dvd_imp_le)
qed

lemma enq_items:
  assumes "q_ok q" and "\<not> qisfull q"
  shows "q_ok (enq q x)" and "qlist (enq q x) = qlist q @ [x]"
proof -
  have n: "unat (q_count q) < QMAX" using assms qisfull_iff by (fastforce simp: q_ok_def)
  show "q_ok (enq q x)"
    using assms(1) unat_count_Suc[OF n] n by (simp add: q_ok_def enq_def mod_Suc_eq)
  show "qlist (enq q x) = qlist q @ [x]"
  proof (rule nth_equalityI)
    fix i assume "i < length (qlist (enq q x))"
    then have i: "i < Suc (unat (q_count q))" using unat_count_Suc[OF n] by (simp add: enq_def)
    show "qlist (enq q x) ! i = (qlist q @ [x]) ! i"
    proof (cases "i = unat (q_count q)")
      case True
      then show ?thesis using assms(1) unat_count_Suc[OF n] by (simp add: qlist_def enq_def q_ok_def nth_append)
    next
      case False
      then have "i < unat (q_count q)" using i by simp
      moreover have "(q_start q + i) mod QMAX \<noteq> q_end q"
        using mod_apart[OF \<open>i < unat (q_count q)\<close> n] assms(1) by (simp add: q_ok_def)
      ultimately show ?thesis using unat_count_Suc[OF n] by (simp add: qlist_def enq_def nth_append)
    qed
  qed (simp add: enq_def unat_count_Suc[OF n])
qed

lemma deq_items:
  assumes "q_ok q" and "qlist q \<noteq> []"
  shows "q_ok (snd (deq q))" and "fst (deq q) # qlist (snd (deq q)) = qlist q"
proof -
  have "q_count q \<noteq> 0" using assms(2) by (simp add: qisempty_iff[symmetric] qisempty_def)
  then have n: "unat (q_count q) = Suc (unat (q_count q - 1))" using unat_minus_1[of "q_count q" 0] by simp
  show "q_ok (snd (deq q))" using assms(1) n by (simp add: q_ok_def deq_def mod_add_left_eq)
  have "qlist q = map (\<lambda>i. arr q ! ((q_start q + i) mod QMAX)) (0 # map Suc [0..<unat (q_count q - 1)])"
    unfolding qlist_def n by (simp only: upt_conv_Cons[OF zero_less_Suc] map_Suc_upt)
  then show "fst (deq q) # qlist (snd (deq q)) = qlist q"
    using assms(1) by (simp add: deq_def qlist_def q_ok_def mod_add_left_eq o_def)
qed

interpretation uq: bounded_queue qlist q_ok "\<lambda>q. \<not> qisfull q" enq deq
  by unfold_locales (simp_all add: enq_items deq_items)

section \<open>Properties\<close>

text \<open>C34: The ring buffer refines the list of its contents: \<open>enq\<close> on a queue that is not full appends,
  \<open>deq\<close> on a queue that is not empty takes the first element, both keep the buffer well formed,
  and \<open>qisfull\<close>, \<open>qisempty\<close> tell the two boundary cases apart; so taking everything out gives the
  elements in the order they were put in.\<close>

theorem queue_refines_list:
  assumes "q_ok q"
  shows "(qisempty q = (qlist q = [])) \<and> (qisfull q = (length (qlist q) = QMAX)) \<and>
     (\<not> qisfull q \<longrightarrow> q_ok (enq q x) \<and> qlist (enq q x) = qlist q @ [x]) \<and>
     (\<not> qisempty q \<longrightarrow> q_ok (snd (deq q)) \<and> fst (deq q) = hd (qlist q) \<and> qlist (snd (deq q)) = tl (qlist q)) \<and>
     uq.drain (length (qlist q)) q = qlist q"
proof -
  have "fst (deq q) = hd (qlist q) \<and> qlist (snd (deq q)) = tl (qlist q)" if "qlist q \<noteq> []"
    using deq_items(2)[OF assms that] by (metis list.sel(1,3))
  then show ?thesis
    using assms qisempty_iff qisfull_iff uq.drain_items[OF assms order_refl] uq.put_ok uq.put_items uq.get_ok by simp
qed

theorem queue_refines_list_witness:
  "qlist (enq (enq (qinit \<lparr>arr = replicate 100 0, q_start = 5, q_end = 9, q_count = 3\<rparr>) 7) 8) = [7, 8]"
proof -
  let ?q = "qinit \<lparr>arr = replicate 100 0, q_start = 5, q_end = 9, q_count = 3\<rparr>"
  have q: "q_ok ?q" "qlist ?q = []" by (simp_all add: q_ok_init)
  have e: "\<not> qisfull ?q" "q_ok (enq ?q 7)" "qlist (enq ?q 7) = [7]"
    using queue_refines_list[OF q(1), of 7] q(2) by simp_all
  moreover have "\<not> qisfull (enq ?q 7)" using queue_refines_list[OF e(2), of 8] e(3) by simp
  ultimately show ?thesis using queue_refines_list[OF e(2), of 8] by simp
qed

end
