(* ===== verification/Semaphore.thy ===== *)
theory Semaphore
  imports User_Locks User_Queue Sched
begin

text \<open>
  The semaphore of the thread library (\<open>ucthreads.c\<close>), run by any set of threads at once on top of
  the kernel: \<open>sem_up\<close> and \<open>sem_down\<close> step by step, with the guard taken by \<open>xchg\<close>, the ring buffer
  of waiting pids, and the system calls \<open>park\<close> and \<open>unpark\<close> of the kernel model on the process
  table.  Slot \<open>i\<close> of the process table is thread \<open>i\<close>; between two steps of one thread the others
  make any number of steps.
\<close>

section \<open>The program\<close>

record semaphore =
  guard :: u32
  waitq :: queue
  count :: int

definition sem_init :: "int \<Rightarrow> semaphore \<Rightarrow> semaphore" where
  "sem_init n s = s\<lparr>guard := slock_init (guard s), count := n, waitq := qinit (waitq s)\<rparr>"

text \<open>Where a thread is: \<open>D\<close> in \<open>sem_down\<close>, \<open>U\<close> in \<open>sem_up\<close>, each named after what it does next;
  \<open>DSleep\<close> is inside the system call, in \<open>sched\<close>.  \<open>Overflow\<close>: the addition to the \<open>int\<close> count
  overflowed, which has no defined meaning.\<close>

datatype sem_pc = Idle | DAcq | DDec | DTest | DEnq | DRelPark | DPark | DSleep | DRel
  | UAcq | UInc | UTest | UDeq | UUnpark int | URel | Overflow

text \<open>\<open>ups\<close> and \<open>downs\<close> count the increments of \<open>sem_up\<close> and the calls of \<open>sem_down\<close> that returned.\<close>

record sem_sys =
  sem :: semaphore
  kern :: shared
  pcs :: "nat \<Rightarrow> sem_pc"
  ups :: nat
  downs :: nat

definition goto :: "nat \<Rightarrow> sem_pc \<Rightarrow> sem_sys \<Rightarrow> sem_sys" where
  "goto i pc s = s\<lparr>pcs := (pcs s)(i := pc)\<rparr>"

definition set_sem :: "(semaphore \<Rightarrow> semaphore) \<Rightarrow> sem_sys \<Rightarrow> sem_sys" where
  "set_sem f s = s\<lparr>sem := f (sem s)\<rparr>"

text \<open>\<open>c\<close> is the address of \<open>s->count\<close>, the channel.  The scheduler resumes a parked thread once it is
  \<open>RUNNABLE\<close>; \<open>park\<close> then clears its channel.\<close>

definition resume :: "nat \<Rightarrow> shared \<Rightarrow> shared" where
  "resume i x = upd_proc i (\<lambda>r. r\<lparr>pstate := RUNNING, chan := 0\<rparr>) x"

definition sem_down :: "u32 \<Rightarrow> nat \<Rightarrow> sem_sys \<Rightarrow> sem_sys" where
  "sem_down c i s = (case pcs s i of
     DAcq \<Rightarrow> (let (old, g) = xchg (guard (sem s)) 1
       in goto i (if old \<noteq> 0 then DAcq else DDec) (set_sem (\<lambda>x. x\<lparr>guard := g\<rparr>) s))
   | DDec \<Rightarrow> if count (sem s) - 1 < - (2 ^ 31) then goto i Overflow s
       else goto i DTest (set_sem (\<lambda>x. x\<lparr>count := count x - 1\<rparr>) s)
   | DTest \<Rightarrow> goto i (if count (sem s) < 0 then DEnq else DRel) s
   | DEnq \<Rightarrow> goto i DRelPark (set_sem (\<lambda>x. x\<lparr>waitq := enq (waitq x) (pid (ptable (kern s) ! i))\<rparr>) s)
   | DRelPark \<Rightarrow> goto i DPark (set_sem (\<lambda>x. x\<lparr>guard := 0\<rparr>) s)
   | DPark \<Rightarrow> (let t = s\<lparr>kern := as_step (Some i) (park c) (kern s)\<rparr>
       in if pstate (ptable (kern t) ! i) = SLEEPING then goto i DSleep t else goto i Idle (t\<lparr>downs := downs t + 1\<rparr>))
   | DSleep \<Rightarrow> if pstate (ptable (kern s) ! i) = RUNNABLE
       then goto i Idle (s\<lparr>kern := resume i (kern s), downs := downs s + 1\<rparr>) else s
   | DRel \<Rightarrow> goto i Idle ((set_sem (\<lambda>x. x\<lparr>guard := 0\<rparr>) s)\<lparr>downs := downs s + 1\<rparr>)
   | _ \<Rightarrow> s)"

definition sem_up :: "u32 \<Rightarrow> nat \<Rightarrow> sem_sys \<Rightarrow> sem_sys" where
  "sem_up c i s = (case pcs s i of
     UAcq \<Rightarrow> (let (old, g) = xchg (guard (sem s)) 1
       in goto i (if old \<noteq> 0 then UAcq else UInc) (set_sem (\<lambda>x. x\<lparr>guard := g\<rparr>) s))
   | UInc \<Rightarrow> if count (sem s) + 1 \<ge> 2 ^ 31 then goto i Overflow s
       else goto i UTest ((set_sem (\<lambda>x. x\<lparr>count := count x + 1\<rparr>) s)\<lparr>ups := ups s + 1\<rparr>)
   | UTest \<Rightarrow> goto i (if count (sem s) \<le> 0 then UDeq else URel) s
   | UDeq \<Rightarrow> (let (x, q) = deq (waitq (sem s)) in goto i (UUnpark x) (set_sem (\<lambda>x. x\<lparr>waitq := q\<rparr>) s))
   | UUnpark x \<Rightarrow> goto i URel (s\<lparr>kern := as_step (Some i) (unpark x c) (kern s)\<rparr>)
   | URel \<Rightarrow> goto i Idle (set_sem (\<lambda>x. x\<lparr>guard := 0\<rparr>) s)
   | _ \<Rightarrow> s)"

text \<open>A step of the system: a thread outside both functions calls one of them, any other goes on.\<close>

definition sem_step :: "u32 \<Rightarrow> nat \<times> bool \<Rightarrow> sem_sys \<Rightarrow> sem_sys" where
  "sem_step c e s = (case e of (i, up) \<Rightarrow>
     if pcs s i = Idle then goto i (if up then UAcq else DAcq) s
     else if pcs s i \<in> {DAcq, DDec, DTest, DEnq, DRelPark, DPark, DSleep, DRel} then sem_down c i s
     else sem_up c i s)"

text \<open>The threads \<open>T\<close> start outside both functions, awake and with no wakeup recorded; \<open>ps\<close> are the pids
  of the slots, and the kernel finds each of these threads by its pid.\<close>

definition found :: "nat set \<Rightarrow> int list \<Rightarrow> bool" where
  "found T ps \<longleftrightarrow> (\<forall>i \<in> T. scan (\<lambda>x. x = ps ! i) ps = Some i)"

definition sem_start :: "u32 \<Rightarrow> nat set \<Rightarrow> int list \<Rightarrow> int \<Rightarrow> sem_sys \<Rightarrow> bool" where
  "sem_start c T ps n s \<longleftrightarrow> 0 \<le> n \<and> (\<exists>q. sem s = sem_init n q \<and> length (arr (waitq q)) = QMAX) \<and> pcs s = (\<lambda>_. Idle) \<and>
     ups s = 0 \<and> downs s = 0 \<and> map pid (ptable (kern s)) = ps \<and>
     (\<forall>i \<in> T. pstate (ptable (kern s) ! i) \<noteq> SLEEPING \<and> lostwakeup (ptable (kern s) ! i) \<noteq> c)"

inductive sem_reach :: "u32 \<Rightarrow> nat set \<Rightarrow> int list \<Rightarrow> int \<Rightarrow> sem_sys \<Rightarrow> bool" for c T ps n where
  start: "sem_start c T ps n s \<Longrightarrow> sem_reach c T ps n s"
| step: "sem_reach c T ps n s \<Longrightarrow> i \<in> T \<Longrightarrow> sem_reach c T ps n (sem_step c (i, up) s)"

section \<open>The system calls\<close>

lemma as_step_park:
  "i < length (ptable x) \<Longrightarrow> as_step (Some i) (park c) x = upd_proc i (\<lambda>r. if lostwakeup r = c then r\<lparr>lostwakeup := 0\<rparr>
     else r\<lparr>chan := c, lostwakeup := 0, pstate := SLEEPING\<rparr>) x"
  by (simp add: as_step_def park_def sched_def swtch_def kdefs nth_upd_proc upd_proc_def)

lemma scan_pids:
  assumes "found T ps" and "i \<in> T" and "map pid (ptable x) = ps"
  shows "scan (\<lambda>r. pid r = ps ! i) (ptable x) = Some i" and "i < length (ptable x)"
proof -
  have "scan (\<lambda>x. x = ps ! i) (map pid (ptable x)) = Some i" using assms by (simp add: found_def)
  then show "scan (\<lambda>r. pid r = ps ! i) (ptable x) = Some i" by (simp only: scan_map comp_def)
  then show "i < length (ptable x)" by (rule scan_SomeD)
qed

lemma found_inj: "found T ps \<Longrightarrow> i \<in> T \<Longrightarrow> j \<in> T \<Longrightarrow> ps ! i = ps ! j \<Longrightarrow> i = j"
  unfolding found_def by (metis option.inject)

section \<open>The invariant\<close>

definition holder :: "sem_pc \<Rightarrow> bool" where
  "holder pc = (case pc of DDec \<Rightarrow> True | DTest \<Rightarrow> True | DEnq \<Rightarrow> True | DRelPark \<Rightarrow> True | DRel \<Rightarrow> True
     | UInc \<Rightarrow> True | UTest \<Rightarrow> True | UDeq \<Rightarrow> True | UUnpark _ \<Rightarrow> True | URel \<Rightarrow> True | Overflow \<Rightarrow> True | _ \<Rightarrow> False)"

text \<open>Threads that have decremented the count and not returned yet.\<close>

definition owes :: "sem_pc \<Rightarrow> int" where
  "owes pc = (case pc of DTest \<Rightarrow> 1 | DEnq \<Rightarrow> 1 | DRelPark \<Rightarrow> 1 | DPark \<Rightarrow> 1 | DSleep \<Rightarrow> 1 | DRel \<Rightarrow> 1 | _ \<Rightarrow> 0)"

text \<open>How far the count is ahead of the length of the queue.\<close>

definition adj :: "sem_pc \<Rightarrow> int" where
  "adj pc = (case pc of DTest \<Rightarrow> 1 | DEnq \<Rightarrow> 1 | UTest \<Rightarrow> - 1 | UDeq \<Rightarrow> - 1 | _ \<Rightarrow> 0)"

definition inq :: "int list \<Rightarrow> sem_sys \<Rightarrow> nat \<Rightarrow> bool" where
  "inq ps s i \<longleftrightarrow> ps ! i \<in> set (qlist (waitq (sem s)))"

definition tgt :: "int list \<Rightarrow> sem_sys \<Rightarrow> nat \<Rightarrow> bool" where
  "tgt ps s i \<longleftrightarrow> (\<exists>j. pcs s j = UUnpark (ps ! i))"

text \<open>What the kernel knows of a thread, by where it is: a thread that was put on the queue and has not
  returned is on the queue, or about to be unparked, or its wakeup has arrived.\<close>

definition awake :: "u32 \<Rightarrow> proc \<Rightarrow> bool" where
  "awake c r \<longleftrightarrow> pstate r \<noteq> SLEEPING \<and> lostwakeup r \<noteq> c"

definition parked :: "u32 \<Rightarrow> proc \<Rightarrow> bool" where
  "parked c r \<longleftrightarrow> pstate r = SLEEPING \<and> chan r = c \<and> lostwakeup r \<noteq> c"

definition thr_ok :: "u32 \<Rightarrow> sem_pc \<Rightarrow> bool \<Rightarrow> bool \<Rightarrow> proc \<Rightarrow> bool" where
  "thr_ok c pc q t r = (case pc of
     DRelPark \<Rightarrow> q \<and> \<not> t \<and> awake c r
   | DPark \<Rightarrow> if q then \<not> t \<and> awake c r else if t then awake c r else pstate r \<noteq> SLEEPING \<and> lostwakeup r = c
   | DSleep \<Rightarrow> if q then \<not> t \<and> parked c r else if t then parked c r else pstate r = RUNNABLE \<and> lostwakeup r \<noteq> c
   | _ \<Rightarrow> \<not> q \<and> \<not> t \<and> awake c r)"

definition queue_ok :: "nat set \<Rightarrow> int list \<Rightarrow> sem_sys \<Rightarrow> bool" where
  "queue_ok T ps s \<longleftrightarrow> q_ok (waitq (sem s)) \<and> distinct (qlist (waitq (sem s))) \<and>
     set (qlist (waitq (sem s))) \<subseteq> (\<lambda>i. ps ! i) ` T \<and> (\<forall>j x. pcs s j = UUnpark x \<longrightarrow> x \<in> (\<lambda>i. ps ! i) ` T)"

definition guard_ok :: "nat set \<Rightarrow> sem_sys \<Rightarrow> bool" where
  "guard_ok T s \<longleftrightarrow> (\<forall>i. i \<notin> T \<longrightarrow> pcs s i = Idle) \<and> (\<forall>i j. holder (pcs s i) \<longrightarrow> holder (pcs s j) \<longrightarrow> i = j) \<and>
     ((guard (sem s) \<noteq> 0) = (\<exists>i. holder (pcs s i)))"

definition count_ok :: "nat set \<Rightarrow> int \<Rightarrow> sem_sys \<Rightarrow> bool" where
  "count_ok T n s \<longleftrightarrow> count (sem s) = n + int (ups s) - int (downs s) - (\<Sum>i\<in>T. owes (pcs s i)) \<and>
     int (length (qlist (waitq (sem s)))) = max 0 (- (count (sem s) + (\<Sum>i\<in>T. adj (pcs s i)))) \<and>
     (\<forall>i. (pcs s i = DEnq \<longrightarrow> count (sem s) < 0) \<and> (pcs s i = UDeq \<longrightarrow> count (sem s) \<le> 0))"

definition sem_inv :: "u32 \<Rightarrow> nat set \<Rightarrow> int list \<Rightarrow> int \<Rightarrow> sem_sys \<Rightarrow> bool" where
  "sem_inv c T ps n s \<longleftrightarrow> map pid (ptable (kern s)) = ps \<and> guard_ok T s \<and> queue_ok T ps s \<and> count_ok T n s \<and>
     (\<forall>i \<in> T. thr_ok c (pcs s i) (inq ps s i) (tgt ps s i) (ptable (kern s) ! i))"

subsection \<open>Preservation, part by part\<close>

lemma guard_step:
  assumes "guard_ok T s" and "i \<in> T" and "pcs t = (pcs s)(i := pc)"
    and "holder pc \<Longrightarrow> holder (pcs s i) \<or> guard (sem s) = 0"
    and "guard (sem t) \<noteq> 0 \<longleftrightarrow> holder pc \<or> (\<not> holder (pcs s i) \<and> guard (sem s) \<noteq> 0)"
  shows "guard_ok T t"
proof -
  have u: "\<And>j k. holder (pcs s j) \<Longrightarrow> holder (pcs s k) \<Longrightarrow> j = k" and
    g: "guard (sem s) \<noteq> 0 \<longleftrightarrow> (\<exists>j. holder (pcs s j))" and o: "\<And>j. j \<notin> T \<Longrightarrow> pcs s j = Idle"
    using assms(1) by (simp_all add: guard_ok_def)
  have "j = k" if "holder (pcs t j)" "holder (pcs t k)" for j k
    using that assms(3,4) u g by (auto split: if_splits)
  moreover have "guard (sem t) \<noteq> 0 \<longleftrightarrow> (\<exists>j. holder (pcs t j))"
    unfolding assms(5) g assms(3) using u by (simp add: fun_upd_def) metis
  moreover have "\<forall>j. j \<notin> T \<longrightarrow> pcs t j = Idle" using assms(2,3) o by auto
  ultimately show ?thesis unfolding guard_ok_def by blast
qed

lemma sum_upd:
  "finite T \<Longrightarrow> i \<in> T \<Longrightarrow> (\<Sum>j\<in>T. f ((p(i := x)) j)) = (\<Sum>j\<in>T. f (p j)) - f (p i) + (f x :: int)"
  by (simp add: sum.remove[of T i])

lemma adj_holder: "adj pc \<noteq> 0 \<Longrightarrow> holder pc"
  by (cases pc) (simp_all add: adj_def holder_def)

lemma sum_adj:
  assumes "guard_ok T s" and "finite T" and "i \<in> T" and "holder (pcs s i)"
  shows "(\<Sum>j\<in>T. adj (pcs s j)) = adj (pcs s i)"
proof -
  have "adj (pcs s j) = 0" if "j \<noteq> i" for j
    using assms(1,4) that adj_holder[of "pcs s j"] by (auto simp: guard_ok_def)
  then show ?thesis using assms(2,3) by (simp add: sum.remove[of T i])
qed

lemma count_step:
  assumes "count_ok T n s" and "finite T" and "i \<in> T" and "pcs t = (pcs s)(i := pc)"
    and "count (sem t) - int (ups t) + int (downs t) = count (sem s) - int (ups s) + int (downs s) + owes (pcs s i) - owes pc"
    and "int (length (qlist (waitq (sem t)))) = max 0 (- (count (sem t) + (\<Sum>j\<in>T. adj (pcs s j)) - adj (pcs s i) + adj pc))"
    and "\<And>j. pcs t j = DEnq \<Longrightarrow> count (sem t) < 0" and "\<And>j. pcs t j = UDeq \<Longrightarrow> count (sem t) \<le> 0"
  shows "count_ok T n t"
  using assms(1,5-8) unfolding count_ok_def assms(4) sum_upd[OF assms(2,3)] by simp

lemma tgt_upd:
  "pcs t = (pcs s)(i := pc) \<Longrightarrow> (\<And>x. pcs s i \<noteq> UUnpark x) \<Longrightarrow> (\<And>x. pc \<noteq> UUnpark x) \<Longrightarrow> tgt ps t = tgt ps s"
  by (simp add: tgt_def fun_eq_iff) metis

text \<open>A move that neither puts the thread on the queue nor wakes anybody.\<close>

lemma thr_step:
  assumes "\<forall>j \<in> T. thr_ok c (pcs s j) (inq ps s j) (tgt ps s j) (ptable (kern s) ! j)"
    and "i \<in> T" and "pcs t = (pcs s)(i := pc)" and "waitq (sem t) = waitq (sem s)"
    and "\<And>j. j \<noteq> i \<Longrightarrow> ptable (kern t) ! j = ptable (kern s) ! j" and "\<And>x. pcs s i \<noteq> UUnpark x" "\<And>x. pc \<noteq> UUnpark x"
    and "thr_ok c (pcs s i) (inq ps s i) (tgt ps s i) (ptable (kern s) ! i) \<Longrightarrow>
      thr_ok c pc (inq ps s i) (tgt ps s i) (ptable (kern t) ! i)"
  shows "\<forall>j \<in> T. thr_ok c (pcs t j) (inq ps t j) (tgt ps t j) (ptable (kern t) ! j)"
proof
  fix j assume j: "j \<in> T"
  have "inq ps t j = inq ps s j" using assms(4) by (simp add: inq_def)
  moreover have "tgt ps t j = tgt ps s j" using tgt_upd[OF assms(3,6,7)] by simp
  ultimately show "thr_ok c (pcs t j) (inq ps t j) (tgt ps t j) (ptable (kern t) ! j)"
    using assms j by (cases "j = i") auto
qed

lemma queue_step:
  assumes "queue_ok T ps s" and "waitq (sem t) = waitq (sem s)" and "pcs t = (pcs s)(i := pc)" and "\<And>x. pc \<noteq> UUnpark x"
  shows "queue_ok T ps t"
  using assms by (auto simp: queue_ok_def split: if_splits)

definition plain :: "sem_pc \<Rightarrow> bool" where
  "plain pc = (case pc of DRelPark \<Rightarrow> False | DPark \<Rightarrow> False | DSleep \<Rightarrow> False | UUnpark _ \<Rightarrow> False | _ \<Rightarrow> True)"

lemma plain_move:
  assumes v: "sem_inv c T ps n s" and T: "finite T" "i \<in> T" and t: "pcs t = (pcs s)(i := pc)"
    "waitq (sem t) = waitq (sem s)" "kern t = kern s"
    and "plain (pcs s i)" "plain pc"
    and g: "holder pc \<Longrightarrow> holder (pcs s i) \<or> guard (sem s) = 0"
    "guard (sem t) \<noteq> 0 \<longleftrightarrow> holder pc \<or> (\<not> holder (pcs s i) \<and> guard (sem s) \<noteq> 0)"
    and k: "count_ok T n t"
  shows "sem_inv c T ps n t"
proof -
  have p: "\<And>x. pcs s i \<noteq> UUnpark x" "\<And>x. pc \<noteq> UUnpark x" using assms(7,8) by (auto simp: plain_def)
  have e: "thr_ok c (pcs s i) q u r = thr_ok c pc q u r" for q u r
    using assms(7,8) by (cases "pcs s i"; cases pc) (simp_all add: plain_def thr_ok_def)
  have "\<forall>j \<in> T. thr_ok c (pcs t j) (inq ps t j) (tgt ps t j) (ptable (kern t) ! j)"
    using v by (intro thr_step[OF _ T(2) t(1,2) _ p]) (simp_all add: sem_inv_def t(3) e)
  moreover have "guard_ok T t" using guard_step[OF _ T(2) t(1) g] v by (simp add: sem_inv_def)
  moreover have "queue_ok T ps t" using queue_step[OF _ t(2,1) p(2)] v by (simp add: sem_inv_def)
  ultimately show ?thesis using v k by (simp add: sem_inv_def t(3))
qed

text \<open>Moves that leave the count alone.\<close>

lemma count_same:
  assumes "count_ok T n s" and "finite T" "i \<in> T" and "pcs t = (pcs s)(i := pc)" and "sem t = (sem s)\<lparr>guard := g\<rparr>"
    "ups t = ups s" and "int (downs t) = int (downs s) + owes (pcs s i) - owes pc" and "adj pc = adj (pcs s i)"
    and "pc = DEnq \<Longrightarrow> count (sem s) < 0" "pc = UDeq \<Longrightarrow> count (sem s) \<le> 0"
  shows "count_ok T n t"
proof (rule count_step[OF assms(1-4)])
  show "int (length (qlist (waitq (sem t)))) = max 0 (- (count (sem t) + (\<Sum>j\<in>T. adj (pcs s j)) - adj (pcs s i) + adj pc))"
    using assms(1,5,8) by (simp add: count_ok_def)
qed (use assms in \<open>auto simp: count_ok_def split: if_splits\<close>)

lemma max0: "(x :: int) \<ge> 0 \<Longrightarrow> y \<ge> 0 \<Longrightarrow> max 0 (- x) = max 0 (- y)"
  by simp

lemma held:
  assumes "sem_inv c T ps n s" and "holder (pcs s i)"
  shows "guard (sem s) \<noteq> 0"
  using assms by (auto simp: sem_inv_def guard_ok_def)

lemmas sem_defs = sem_step_def sem_down_def sem_up_def goto_def set_sem_def xchg_def
lemmas pc_defs = holder_def plain_def owes_def adj_def

lemma inv_plain:
  assumes v: "sem_inv c T ps n s" and T: "finite T" "i \<in> T"
    and pc: "pcs s i \<in> {Idle, DAcq, DRel, UAcq, URel, Overflow}"
  shows "sem_inv c T ps n (sem_step c (i, up) s)"
proof -
  have k: "count_ok T n s" using v by (simp add: sem_inv_def)
  have *: "sem_inv c T ps n t" if "pcs t = (pcs s)(i := pc)" "sem t = (sem s)\<lparr>guard := g\<rparr>" "kern t = kern s" "ups t = ups s"
    "int (downs t) = int (downs s) + owes (pcs s i) - owes pc" "plain pc" "adj pc = 0" "pc \<noteq> DEnq" "pc \<noteq> UDeq"
    "holder pc \<Longrightarrow> holder (pcs s i) \<or> guard (sem s) = 0"
    "g \<noteq> 0 \<longleftrightarrow> holder pc \<or> (\<not> holder (pcs s i) \<and> guard (sem s) \<noteq> 0)" for t pc g
    using pc that by (intro plain_move[OF v T that(1)] count_same[OF k T that(1)]) (auto simp: pc_defs)
  show ?thesis
  proof (cases "pcs s i")
    case Idle
    then show ?thesis
      by (intro *[where pc = "if up then UAcq else DAcq" and g = "guard (sem s)"]) (auto simp: sem_defs pc_defs split: if_splits)
  next
    case DAcq
    then show ?thesis
      by (intro *[where pc = "if guard (sem s) \<noteq> 0 then DAcq else DDec" and g = 1]) (auto simp: sem_defs pc_defs split: if_splits)
  next
    case UAcq
    then show ?thesis
      by (intro *[where pc = "if guard (sem s) \<noteq> 0 then UAcq else UInc" and g = 1]) (auto simp: sem_defs pc_defs split: if_splits)
  next
    case DRel
    then show ?thesis by (intro *[where pc = Idle and g = 0]) (auto simp: sem_defs pc_defs)
  next
    case URel
    then show ?thesis by (intro *[where pc = Idle and g = 0]) (auto simp: sem_defs pc_defs)
  qed (use pc v in \<open>auto simp: sem_defs\<close>)
qed

lemma count_alone:
  assumes "sem_inv c T ps n s" and "holder (pcs s i)" and "j \<noteq> i"
  shows "pcs s j \<noteq> DEnq" "pcs s j \<noteq> UDeq"
  using assms by (auto simp: sem_inv_def guard_ok_def holder_def)

lemma count_move:
  assumes v: "sem_inv c T ps n s" and T: "finite T" "i \<in> T" and h: "holder (pcs s i)" and p: "plain (pcs s i)" "plain pc" "holder pc"
    and l: "max 0 (- (count (sem s) + adj (pcs s i))) = max 0 (- (m + adj pc))"
    and o: "m - int u = count (sem s) - int (ups s) + owes (pcs s i) - owes pc"
    and d: "pc = DEnq \<Longrightarrow> m < 0" "pc = UDeq \<Longrightarrow> m \<le> 0"
  shows "sem_inv c T ps n (s\<lparr>sem := (sem s)\<lparr>count := m\<rparr>, ups := u, pcs := (pcs s)(i := pc)\<rparr>)" (is "sem_inv c T ps n ?t")
proof -
  have k: "count_ok T n s" and g: "guard_ok T s" using v by (simp_all add: sem_inv_def)
  have t: "pcs ?t = (pcs s)(i := pc)" "waitq (sem ?t) = waitq (sem s)" "kern ?t = kern s" by simp_all
  have "pcs ?t j = DEnq \<Longrightarrow> count (sem ?t) < 0" "pcs ?t j = UDeq \<Longrightarrow> count (sem ?t) \<le> 0" for j
    using d count_alone[OF v h, of j] by (cases "j = i"; simp)+
  moreover have "int (length (qlist (waitq (sem ?t)))) = max 0 (- (count (sem ?t) + (\<Sum>j\<in>T. adj (pcs s j)) - adj (pcs s i) + adj pc))"
    using k l unfolding count_ok_def sum_adj[OF g T h] by simp
  ultimately have "count_ok T n ?t" using o by (intro count_step[OF k T t(1)]) simp_all
  then show ?thesis using h held[OF v h] p by (intro plain_move[OF v T t]) simp_all
qed

lemma inv_count:
  assumes v: "sem_inv c T ps n s" and T: "finite T" "i \<in> T" and pc: "pcs s i \<in> {DDec, DTest, UInc, UTest}"
  shows "sem_inv c T ps n (sem_step c (i, up) s)"
proof -
  have h: "holder (pcs s i)" and p: "plain (pcs s i)" using pc by (auto simp: holder_def plain_def)
  note m = count_move[OF v T h p]
  consider "pcs s i = DDec" | "pcs s i = DTest" | "pcs s i = UInc" | "pcs s i = UTest" using pc by auto
  then show ?thesis
  proof cases
    case 1
    then show ?thesis using m[of Overflow "count (sem s)" "ups s"] m[of DTest "count (sem s) - 1" "ups s"]
      by (simp add: sem_defs pc_defs)
  next
    case 2
    then show ?thesis using m[of DEnq "count (sem s)" "ups s"] m[of DRel "count (sem s)" "ups s"]
      by (simp add: sem_defs pc_defs)
  next
    case 3
    then show ?thesis using m[of Overflow "count (sem s)" "ups s"] m[of UTest "count (sem s) + 1" "ups s + 1"]
      by (simp add: sem_defs pc_defs)
  next
    case 4
    then show ?thesis using m[of UDeq "count (sem s)" "ups s"] m[of URel "count (sem s)" "ups s"]
      by (simp add: sem_defs pc_defs)
  qed
qed

subsection \<open>Waiting and waking\<close>

lemma inv_thr: "sem_inv c T ps n s \<Longrightarrow> i \<in> T \<Longrightarrow> thr_ok c (pcs s i) (inq ps s i) (tgt ps s i) (ptable (kern s) ! i)"
  by (simp add: sem_inv_def)

lemma inv_all: "sem_inv c T ps n s \<Longrightarrow> \<forall>j \<in> T. thr_ok c (pcs s j) (inq ps s j) (tgt ps s j) (ptable (kern s) ! j)"
  by (simp add: sem_inv_def)

lemma inv_enq:
  assumes v: "sem_inv c T ps n s" and T: "finite T" "i \<in> T" "card T \<le> QMAX" and f: "found T ps" and pc: "pcs s i = DEnq"
  shows "sem_inv c T ps n (sem_step c (i, up) s)"
proof -
  let ?q = "waitq (sem s)" and ?t = "sem_step c (i, up) s"
  have k: "count_ok T n s" and g: "guard_ok T s" and q: "queue_ok T ps s" and m: "map pid (ptable (kern s)) = ps"
    using v by (simp_all add: sem_inv_def)
  have h: "holder (pcs s i)" using pc by (simp add: holder_def)
  have "pid (ptable (kern s) ! i) = ps ! i" using scan_pids(2)[OF f T(2) m] m by (metis nth_map)
  then have t: "pcs ?t = (pcs s)(i := DRelPark)" "kern ?t = kern s" "waitq (sem ?t) = enq ?q (ps ! i)" "guard (sem ?t) = guard (sem s)"
      "count (sem ?t) = count (sem s)" "ups ?t = ups s" "downs ?t = downs s"
    using pc by (simp_all add: sem_defs)
  have new: "ps ! i \<notin> set (qlist ?q)" using inv_thr[OF v T(2)] pc by (simp add: thr_ok_def inq_def)
  have "set (qlist ?q) \<subset> (\<lambda>j. ps ! j) ` T" using q new T(2) by (auto simp: queue_ok_def)
  then have "length (qlist ?q) < card T"
    using q T(1) by (metis card_image_le distinct_card finite_imageI le_trans not_le psubset_card_mono queue_ok_def)
  then have r: "\<not> qisfull ?q" "q_ok ?q" using q T(3) by (simp_all add: queue_ok_def qisfull_iff)
  have e: "qlist (waitq (sem ?t)) = qlist ?q @ [ps ! i]" "q_ok (waitq (sem ?t))"
    using enq_items[OF r(2,1)] t(3) by simp_all
  have tg: "tgt ps ?t j = tgt ps s j" for j using tgt_upd[OF t(1)] pc by simp
  have iq: "inq ps ?t j = inq ps s j" if "j \<in> T" "j \<noteq> i" for j
    using found_inj[OF f that(1) T(2)] that(2) by (auto simp: inq_def e(1))
  have "thr_ok c (pcs ?t j) (inq ps ?t j) (tgt ps ?t j) (ptable (kern ?t) ! j)" if "j \<in> T" for j
  proof (cases "j = i")
    case True
    then show ?thesis using inv_thr[OF v T(2)] pc t(1,2) tg by (simp add: thr_ok_def inq_def e(1))
  next
    case False
    then show ?thesis using inv_thr[OF v that] t(1,2) tg iq[OF that] by simp
  qed
  moreover have "queue_ok T ps ?t" using q e new T(2) t(1) by (auto simp: queue_ok_def split: if_splits)
  moreover have "guard_ok T ?t" using held[OF v h] h by (intro guard_step[OF g T(2) t(1)]) (simp_all add: t(4) holder_def)
  moreover have "count_ok T n ?t"
  proof (rule count_step[OF k T(1,2) t(1)])
    have "count (sem s) < 0" using k pc unfolding count_ok_def by blast
    then show "int (length (qlist (waitq (sem ?t)))) = max 0 (- (count (sem ?t) + (\<Sum>j\<in>T. adj (pcs s j)) - adj (pcs s i) + adj DRelPark))"
      using k pc unfolding count_ok_def sum_adj[OF g T(1,2) h] e(1) by (simp add: t adj_def)
  qed (use k pc in \<open>auto simp: t owes_def count_ok_def split: if_splits\<close>)
  ultimately show ?thesis using m by (simp add: sem_inv_def t(2))
qed

lemma inv_relpark:
  assumes v: "sem_inv c T ps n s" and T: "finite T" "i \<in> T" and pc: "pcs s i = DRelPark"
  shows "sem_inv c T ps n (sem_step c (i, up) s)"
proof -
  let ?t = "sem_step c (i, up) s"
  have k: "count_ok T n s" and g: "guard_ok T s" and q: "queue_ok T ps s" using v by (simp_all add: sem_inv_def)
  have t: "pcs ?t = (pcs s)(i := DPark)" "waitq (sem ?t) = waitq (sem s)" "kern ?t = kern s" "sem ?t = (sem s)\<lparr>guard := 0\<rparr>"
      "ups ?t = ups s" "downs ?t = downs s"
    using pc by (simp_all add: sem_defs)
  have "\<forall>j \<in> T. thr_ok c (pcs ?t j) (inq ps ?t j) (tgt ps ?t j) (ptable (kern ?t) ! j)"
    using v by (intro thr_step[OF _ T(2) t(1,2)]) (simp_all add: sem_inv_def t(3) pc thr_ok_def)
  moreover have "guard_ok T ?t" using pc by (intro guard_step[OF g T(2) t(1)]) (simp_all add: t(4) holder_def)
  moreover have "queue_ok T ps ?t" using q by (intro queue_step[OF _ t(2,1)]) simp_all
  moreover have "count_ok T n ?t" using pc by (intro count_same[OF k T t(1,4,5)]) (simp_all add: t(6) owes_def adj_def)
  ultimately show ?thesis using v by (simp add: sem_inv_def t(3))
qed

lemma inv_park:
  assumes v: "sem_inv c T ps n s" and T: "finite T" "i \<in> T" and f: "found T ps" and c: "c \<noteq> 0" and pc: "pcs s i = DPark"
  shows "sem_inv c T ps n (sem_step c (i, up) s)"
proof -
  let ?t = "sem_step c (i, up) s" and ?r = "ptable (kern s) ! i"
  let ?pc = "if lostwakeup ?r = c then Idle else DSleep"
  have k: "count_ok T n s" and g: "guard_ok T s" and q: "queue_ok T ps s" and m: "map pid (ptable (kern s)) = ps"
    using v by (simp_all add: sem_inv_def)
  have i: "i < length (ptable (kern s))" using scan_pids(2)[OF f T(2) m] .
  have o: "thr_ok c DPark (inq ps s i) (tgt ps s i) ?r" using inv_thr[OF v T(2)] pc by simp
  then have "pstate ?r \<noteq> SLEEPING" by (auto simp: thr_ok_def awake_def split: if_splits)
  then have t: "pcs ?t = (pcs s)(i := ?pc)" "waitq (sem ?t) = waitq (sem s)" "sem ?t = (sem s)\<lparr>guard := guard (sem s)\<rparr>"
      "ups ?t = ups s" "int (downs ?t) = int (downs s) + owes (pcs s i) - owes ?pc"
      "ptable (kern ?t) = (ptable (kern s))[i := if lostwakeup ?r = c then ?r\<lparr>lostwakeup := 0\<rparr>
        else ?r\<lparr>chan := c, lostwakeup := 0, pstate := SLEEPING\<rparr>]"
    using pc i by (simp_all add: sem_defs as_step_park nth_upd_proc owes_def) (simp_all add: upd_proc_def)
  have "\<forall>j \<in> T. thr_ok c (pcs ?t j) (inq ps ?t j) (tgt ps ?t j) (ptable (kern ?t) ! j)"
    using v by (rule thr_step[OF _ T(2) t(1,2), OF inv_all])
      (use pc i c o in \<open>auto simp: t(6) thr_ok_def awake_def parked_def split: if_splits\<close>)
  moreover have "guard_ok T ?t" using pc by (intro guard_step[OF g T(2) t(1)]) (auto simp: t(3) holder_def split: if_splits)
  moreover have "queue_ok T ps ?t" using q by (intro queue_step[OF _ t(2,1)]) simp_all
  moreover have "count_ok T n ?t" using pc by (intro count_same[OF k T t(1,3-5)]) (auto simp: adj_def split: if_splits)
  moreover have "map pid (ptable (kern ?t)) = ps" using m i by (auto simp: t(6) map_update intro!: nth_equalityI simp: nth_list_update)
  ultimately show ?thesis by (simp add: sem_inv_def)
qed

lemma inv_resume:
  assumes v: "sem_inv c T ps n s" and T: "finite T" "i \<in> T" and f: "found T ps" and pc: "pcs s i = DSleep"
  shows "sem_inv c T ps n (sem_step c (i, up) s)"
proof (cases "pstate (ptable (kern s) ! i) = RUNNABLE")
  case True
  let ?t = "sem_step c (i, up) s" and ?r = "ptable (kern s) ! i"
  have k: "count_ok T n s" and g: "guard_ok T s" and q: "queue_ok T ps s" and m: "map pid (ptable (kern s)) = ps"
    using v by (simp_all add: sem_inv_def)
  have i: "i < length (ptable (kern s))" using scan_pids(2)[OF f T(2) m] .
  have o: "thr_ok c DSleep (inq ps s i) (tgt ps s i) ?r" using inv_thr[OF v T(2)] pc by simp
  have t: "pcs ?t = (pcs s)(i := Idle)" "waitq (sem ?t) = waitq (sem s)" "sem ?t = (sem s)\<lparr>guard := guard (sem s)\<rparr>"
      "ups ?t = ups s" "int (downs ?t) = int (downs s) + owes (pcs s i) - owes Idle"
      "ptable (kern ?t) = (ptable (kern s))[i := ?r\<lparr>pstate := RUNNING, chan := 0\<rparr>]"
    using pc True by (simp_all add: sem_defs resume_def upd_proc_def owes_def)
  have "\<forall>j \<in> T. thr_ok c (pcs ?t j) (inq ps ?t j) (tgt ps ?t j) (ptable (kern ?t) ! j)"
    using v by (rule thr_step[OF _ T(2) t(1,2), OF inv_all])
      (use pc i o True in \<open>auto simp: t(6) thr_ok_def awake_def parked_def split: if_splits\<close>)
  moreover have "guard_ok T ?t" using pc by (intro guard_step[OF g T(2) t(1)]) (auto simp: t(3) holder_def)
  moreover have "queue_ok T ps ?t" using q by (intro queue_step[OF _ t(2,1)]) simp_all
  moreover have "count_ok T n ?t" using pc by (intro count_same[OF k T t(1,3-5)]) (auto simp: adj_def)
  moreover have "map pid (ptable (kern ?t)) = ps" using m i by (auto simp: t(6) intro!: nth_equalityI simp: nth_list_update)
  ultimately show ?thesis by (simp add: sem_inv_def)
next
  case False
  then show ?thesis using v pc by (simp add: sem_defs)
qed

lemma no_tgt: "(\<And>j. \<not> holder (pcs s j)) \<Longrightarrow> \<not> tgt ps s i"
proof
  assume a: "\<And>j. \<not> holder (pcs s j)" and "tgt ps s i"
  then obtain j where "pcs s j = UUnpark (ps ! i)" by (auto simp: tgt_def)
  then have "holder (pcs s j)" by (simp add: holder_def)
  then show False using a by simp
qed

lemma tgt_new:
  assumes "pcs t = (pcs s)(i := UUnpark x)" and "\<not> tgt ps s j"
  shows "tgt ps t j \<longleftrightarrow> x = ps ! j"
proof
  assume "tgt ps t j"
  then obtain k where "((pcs s)(i := UUnpark x)) k = UUnpark (ps ! j)" unfolding tgt_def assms(1) by (rule exE)
  then show "x = ps ! j" using assms(2) by (cases "k = i") (simp_all add: tgt_def)
next
  assume "x = ps ! j"
  then show "tgt ps t j" unfolding tgt_def assms(1) by (intro exI[of _ i]) simp
qed

lemma inv_deq:
  assumes v: "sem_inv c T ps n s" and T: "finite T" "i \<in> T" and f: "found T ps" and pc: "pcs s i = UDeq"
  shows "sem_inv c T ps n (sem_step c (i, up) s)"
proof -
  let ?q = "waitq (sem s)" and ?t = "sem_step c (i, up) s"
  have k: "count_ok T n s" and g: "guard_ok T s" and q: "queue_ok T ps s" and m: "map pid (ptable (kern s)) = ps"
    using v by (simp_all add: sem_inv_def)
  have h: "holder (pcs s i)" using pc by (simp add: holder_def)
  have neg: "count (sem s) \<le> 0" using k pc unfolding count_ok_def by blast
  have "int (length (qlist ?q)) = max 0 (- (count (sem s) + adj UDeq))"
    using k pc unfolding count_ok_def sum_adj[OF g T h] by (simp only:)
  with neg have l: "int (length (qlist ?q)) = 1 - count (sem s)" by (simp add: adj_def del: length_qlist)
  with neg have "0 < length (qlist ?q)" by linarith
  then have ne: "qlist ?q \<noteq> []" by (rule length_greater_0_conv[THEN iffD1])
  obtain x r where x: "deq ?q = (x, r)" by fastforce
  have d: "q_ok r" "qlist ?q = x # qlist r" using deq_items[OF _ ne] q by (simp_all add: queue_ok_def x)
  have t: "pcs ?t = (pcs s)(i := UUnpark x)" "kern ?t = kern s" "waitq (sem ?t) = r" "guard (sem ?t) = guard (sem s)"
      "count (sem ?t) = count (sem s)" "ups ?t = ups s" "downs ?t = downs s"
    using pc by (simp_all add: sem_defs x)
  obtain w where w: "w \<in> T" "x = ps ! w" using q d(2) by (auto simp: queue_ok_def)
  have alone: "\<not> holder (pcs s j)" if "j \<noteq> i" for j using g h that by (auto simp: guard_ok_def)
  have tg: "tgt ps ?t j = (j = w)" and iq: "inq ps ?t j = (inq ps s j \<and> j \<noteq> w)" and nt: "\<not> tgt ps s j" if "j \<in> T" for j
  proof -
    show nt: "\<not> tgt ps s j"
    proof
      assume "tgt ps s j"
      then obtain k where k: "pcs s k = UUnpark (ps ! j)" by (auto simp: tgt_def)
      then have "holder (pcs s k)" "k \<noteq> i" using pc by (auto simp: holder_def)
      then show False using alone by simp
    qed
    show "tgt ps ?t j = (j = w)"
      unfolding tgt_new[OF t(1) nt] w(2) using found_inj[OF f that w(1)] by (metis (mono_tags))
    show "inq ps ?t j = (inq ps s j \<and> j \<noteq> w)"
      using found_inj[OF f that w(1)] w(2) q d(2) by (auto simp: inq_def t(3) queue_ok_def)
  qed
  have "thr_ok c (pcs ?t j) (inq ps ?t j) (tgt ps ?t j) (ptable (kern ?t) ! j)" if j: "j \<in> T" for j
  proof (cases "j = w")
    case True
    have "inq ps s w" using w(2) d(2) by (simp add: inq_def)
    then have "w \<noteq> i" using inv_thr[OF v w(1)] pc by (auto simp: thr_ok_def)
    then have "pcs s w \<noteq> DRelPark" using alone[of w] by (auto simp: holder_def)
    then show ?thesis using \<open>w \<noteq> i\<close> inv_thr[OF v w(1)] \<open>inq ps s w\<close> tg[OF w(1)] iq[OF w(1)] t(1,2) True
      by (cases "pcs s w") (simp_all add: thr_ok_def)
  next
    case False
    then show ?thesis using inv_thr[OF v j] tg[OF j] iq[OF j] nt[OF j] t(1,2) pc by (auto simp: thr_ok_def)
  qed
  moreover have "queue_ok T ps ?t" using q d w t(1,3) by (auto simp: queue_ok_def split: if_splits)
  moreover have "guard_ok T ?t" using held[OF v h] h by (intro guard_step[OF g T(2) t(1)]) (simp_all add: t(4) holder_def)
  moreover have "count_ok T n ?t"
  proof (rule count_step[OF k T t(1)])
    show "int (length (qlist (waitq (sem ?t)))) = max 0 (- (count (sem ?t) + (\<Sum>j\<in>T. adj (pcs s j)) - adj (pcs s i) + adj (UUnpark x)))"
      using l neg d(2) pc unfolding sum_adj[OF g T h] by (simp add: t adj_def del: length_qlist)
  qed (use pc neg count_alone[OF v h] in \<open>auto simp: t owes_def split: if_splits\<close>)
  ultimately show ?thesis using m by (simp add: sem_inv_def t(2))
qed

lemma inv_unpark:
  assumes v: "sem_inv c T ps n s" and T: "finite T" "i \<in> T" and f: "found T ps" and pc: "pcs s i = UUnpark x"
  shows "sem_inv c T ps n (sem_step c (i, up) s)"
proof -
  let ?t = "sem_step c (i, up) s"
  have k: "count_ok T n s" and g: "guard_ok T s" and q: "queue_ok T ps s" and m: "map pid (ptable (kern s)) = ps"
    using v by (simp_all add: sem_inv_def)
  have h: "holder (pcs s i)" using pc by (simp add: holder_def)
  obtain w where w: "w \<in> T" "x = ps ! w" using q pc unfolding queue_ok_def by blast
  let ?r = "ptable (kern s) ! w"
  let ?r' = "if pstate ?r = SLEEPING \<and> chan ?r = c then ?r\<lparr>pstate := RUNNABLE, chan := 0\<rparr> else ?r\<lparr>lostwakeup := c\<rparr>"
  note sc = scan_pids[OF f w(1) m]
  have t: "pcs ?t = (pcs s)(i := URel)" "waitq (sem ?t) = waitq (sem s)" "sem ?t = (sem s)\<lparr>guard := guard (sem s)\<rparr>"
      "ups ?t = ups s" "downs ?t = downs s" "ptable (kern ?t) = (ptable (kern s))[w := ?r']"
    using pc by (simp_all add: sem_defs as_step_unpark[OF sc(1)[folded w(2)]]) (simp add: upd_proc_def)
  have alone: "\<not> holder (pcs s j)" if "j \<noteq> i" for j using g h that unfolding guard_ok_def by blast
  have tg: "\<not> tgt ps ?t j" for j
  proof
    assume "tgt ps ?t j"
    then obtain l where "((pcs s)(i := URel)) l = UUnpark (ps ! j)" unfolding tgt_def t(1) by (rule exE)
    then have "l \<noteq> i" "holder (pcs s l)" by (auto simp: holder_def split: if_splits)
    then show False using alone by simp
  qed
  have tg': "tgt ps s j \<longleftrightarrow> j = w" if "j \<in> T" for j
  proof
    assume "tgt ps s j"
    then obtain l where l: "pcs s l = UUnpark (ps ! j)" unfolding tgt_def by (rule exE)
    then have "l = i" using alone[of l] by (auto simp: holder_def)
    then show "j = w" using l pc w found_inj[OF f that w(1)] by simp
  qed (use pc w in \<open>auto simp: tgt_def\<close>)
  have iq: "inq ps ?t j = inq ps s j" for j using t(2) by (simp add: inq_def)
  have "thr_ok c (pcs ?t j) (inq ps ?t j) (tgt ps ?t j) (ptable (kern ?t) ! j)" if j: "j \<in> T" for j
  proof (cases "j = w")
    case True
    have "w \<noteq> i" using inv_thr[OF v w(1)] tg'[OF w(1)] pc by (auto simp: thr_ok_def)
    then show ?thesis using inv_thr[OF v w(1)] tg'[OF w(1)] tg iq sc(2) True
      by (cases "pcs s w") (simp_all add: thr_ok_def t(1,6) awake_def parked_def split: if_splits)
  next
    case False
    then show ?thesis using inv_thr[OF v j] tg'[OF j] tg iq pc by (cases "j = i") (simp_all add: thr_ok_def t(1,6))
  qed
  moreover have "guard_ok T ?t" using h held[OF v h] by (intro guard_step[OF g T(2) t(1)]) (simp_all add: t(3) holder_def)
  moreover have "queue_ok T ps ?t" using q by (intro queue_step[OF _ t(2,1)]) simp_all
  moreover have "count_ok T n ?t" using pc by (intro count_same[OF k T t(1,3,4)]) (simp_all add: t(5) adj_def owes_def)
  moreover have "map pid (ptable (kern ?t)) = ps" using m sc(2) by (auto simp: t(6) intro!: nth_equalityI simp: nth_list_update)
  ultimately show ?thesis by (simp add: sem_inv_def)
qed

lemma sem_inv_start:
  assumes "sem_start c T ps n s"
  shows "sem_inv c T ps n s"
proof -
  obtain q where q: "sem s = sem_init n q" "length (arr (waitq q)) = QMAX" using assms by (auto simp: sem_start_def)
  have w: "qlist (waitq (sem s)) = []" "q_ok (waitq (sem s))" using q q_ok_init by (simp_all add: sem_init_def)
  then show ?thesis using assms q(1)
    by (simp add: sem_start_def sem_inv_def guard_ok_def queue_ok_def count_ok_def thr_ok_def inq_def tgt_def awake_def
        holder_def owes_def adj_def sem_init_def slock_init_def del: length_qlist)
qed

lemma sem_reach_inv:
  assumes "sem_reach c T ps n s" and T: "finite T" "card T \<le> QMAX" "found T ps" "c \<noteq> 0"
  shows "sem_inv c T ps n s"
  using assms(1)
proof (induction rule: sem_reach.induct)
  case (start s)
  then show ?case by (rule sem_inv_start)
next
  case (step s i up)
  note v = step.IH T(1) step.hyps(2)
  show ?case
    using inv_plain[OF v] inv_count[OF v] inv_enq[OF v T(2,3)] inv_relpark[OF v] inv_park[OF v T(3,4)] inv_resume[OF v T(3)]
      inv_deq[OF v T(3)] inv_unpark[OF v T(3)]
    by (cases "pcs s i") simp_all
qed

section \<open>Properties\<close>

lemma card_inq:
  assumes "queue_ok T ps s" and "found T ps"
  shows "card {i \<in> T. inq ps s i} = length (qlist (waitq (sem s)))"
proof -
  have "(\<lambda>i. ps ! i) ` {i \<in> T. inq ps s i} = set (qlist (waitq (sem s)))"
    using assms(1) by (auto simp: queue_ok_def inq_def)
  moreover have "inj_on (\<lambda>i. ps ! i) {i \<in> T. inq ps s i}" using found_inj[OF assms(2)] by (auto simp: inj_on_def)
  ultimately have "card {i \<in> T. inq ps s i} = card (set (qlist (waitq (sem s))))" by (metis card_image)
  then show ?thesis using assms(1) by (simp add: queue_ok_def distinct_card del: length_qlist)
qed

lemma owes_covers: "thr_ok c pc q t r \<Longrightarrow> of_bool q + adj pc \<le> owes pc"
  by (cases pc) (auto simp: thr_ok_def adj_def owes_def split: if_splits)

text \<open>C8: The semaphore counts: at any moment of any interleaving, the calls of \<open>sem_down\<close> that have returned
  are at most the initial count plus the increments made by \<open>sem_up\<close>; in particular a semaphore
  initialised to 1 excludes.\<close>

theorem semaphore_counts:
  assumes "sem_reach c T ps n s" and "finite T" and "card T \<le> QMAX" and "found T ps" and "c \<noteq> 0"
  shows "int (downs s) \<le> n + int (ups s)"
proof -
  have v: "sem_inv c T ps n s" using sem_reach_inv assms .
  have "(\<Sum>i\<in>T. of_bool (inq ps s i) + adj (pcs s i)) \<le> (\<Sum>i\<in>T. owes (pcs s i))"
    using owes_covers inv_thr[OF v] by (intro sum_mono) blast
  moreover have "(\<Sum>i\<in>T. of_bool (inq ps s i) :: int) = int (length (qlist (waitq (sem s))))"
    using card_inq[of T ps s] v assms(2,4) by (simp add: sem_inv_def sum_of_bool_eq Collect_conj_eq del: length_qlist)
  moreover have "count_ok T n s" using v by (simp add: sem_inv_def)
  ultimately show ?thesis unfolding count_ok_def by (simp add: sum.distrib del: length_qlist)
qed

text \<open>C9: The semaphore loses no wakeup: whenever no thread is inside the guarded code, the threads asleep in
  \<open>sem_down\<close> are at most as many as the count is below zero, so none is when the count is not
  negative; and every thread on its way into \<open>park\<close> that is not on the queue any more finds its
  wakeup recorded by the kernel.\<close>

theorem semaphore_no_lost_wakeup:
  assumes "sem_reach c T ps n s" and "finite T" and "card T \<le> QMAX" and "found T ps" and "c \<noteq> 0"
    and "guard (sem s) = 0"
  shows "int (card {i \<in> T. pstate (ptable (kern s) ! i) = SLEEPING}) \<le> max 0 (- count (sem s)) \<and>
     (\<forall>i \<in> T. pcs s i = DPark \<and> \<not> inq ps s i \<longrightarrow> lostwakeup (ptable (kern s) ! i) = c)"
proof -
  have v: "sem_inv c T ps n s" using sem_reach_inv assms(1-5) .
  have f: "\<not> holder (pcs s i)" for i using v assms(6) by (auto simp: sem_inv_def guard_ok_def)
  have a: "adj (pcs s i) = 0" for i using adj_holder f by blast
  have nt: "\<not> tgt ps s i" for i using f by (rule no_tgt)
  have "{i \<in> T. pstate (ptable (kern s) ! i) = SLEEPING} \<subseteq> {i \<in> T. inq ps s i}"
  proof clarify
    fix i assume "i \<in> T" "pstate (ptable (kern s) ! i) = SLEEPING"
    then show "inq ps s i" using inv_thr[OF v \<open>i \<in> T\<close>] nt[of i]
      by (cases "pcs s i") (auto simp: thr_ok_def awake_def split: if_splits)
  qed
  then have "card {i \<in> T. pstate (ptable (kern s) ! i) = SLEEPING} \<le> card {i \<in> T. inq ps s i}"
    using assms(2) by (intro card_mono) simp_all
  then have "card {i \<in> T. pstate (ptable (kern s) ! i) = SLEEPING} \<le> length (qlist (waitq (sem s)))"
    using card_inq[of T ps s] v assms(4) by (simp add: sem_inv_def del: length_qlist)
  moreover have "int (length (qlist (waitq (sem s)))) = max 0 (- count (sem s))"
    using v unfolding sem_inv_def count_ok_def by (simp add: a del: length_qlist)
  moreover have "lostwakeup (ptable (kern s) ! i) = c" if "i \<in> T" "pcs s i = DPark" "\<not> inq ps s i" for i
    using inv_thr[OF v that(1)] that nt by (simp add: thr_ok_def)
  ultimately show ?thesis by (simp del: length_qlist)
qed

text \<open>Two threads share a semaphore initialised to 1: the first takes it, the second goes to sleep.\<close>

definition sharing :: sem_sys where
  "sharing = fold (sem_step 416) [(0, False), (0, False), (0, False), (0, False), (0, False),
      (1, False), (1, False), (1, False), (1, False), (1, False), (1, False), (1, False)]
     \<lparr>sem = sem_init 1 \<lparr>guard = 0, waitq = \<lparr>arr = replicate 100 0, q_start = 0, q_end = 0, q_count = 0\<rparr>, count = 0\<rparr>,
      kern = two_threads, pcs = \<lambda>_. Idle, ups = 0, downs = 0\<rparr>"

lemma reach_fold: "sem_reach c T ps n s \<Longrightarrow> set (map fst es) \<subseteq> T \<Longrightarrow> sem_reach c T ps n (fold (sem_step c) es s)"
  by (induction es arbitrary: s) (auto simp: sem_reach.step)

lemma reach_sharing: "sem_reach 416 {0, 1} [1, 2] 1 sharing"
  unfolding sharing_def
  by (intro reach_fold sem_reach.start) (auto simp: sem_start_def two_threads_def zeroed_proc_def)

lemma found_sharing: "found {0, 1} [1, 2]"
  by (simp add: found_def)

lemma sharing_state: "guard (sem sharing) = 0" "count (sem sharing) = - 1" "pstate (ptable (kern sharing) ! 1) = SLEEPING"
  by (simp_all add: sharing_def sem_defs as_step_park two_threads_def zeroed_proc_def sem_init_def slock_init_def
     upd_proc_def qinit_def)

theorem semaphore_counts_witness: "int (downs sharing) \<le> 1 + int (ups sharing)"
  by (rule semaphore_counts[OF reach_sharing _ _ found_sharing]) simp_all

theorem semaphore_no_lost_wakeup_witness:
  "pstate (ptable (kern sharing) ! 1) = SLEEPING \<and>
   int (card {i \<in> {0, 1}. pstate (ptable (kern sharing) ! i) = SLEEPING}) \<le> 1"
  using semaphore_no_lost_wakeup[OF reach_sharing _ _ found_sharing] sharing_state by simp

end
