(* ===== verification/Pipe_Properties.thy ===== *)
theory Pipe_Properties
  imports Pipe
begin

text \<open>
  A pipe is a queue of bytes: what \<open>pipewrite\<close> stores and \<open>piperead\<close> delivers, in terms of the list of
  bytes between the two counters.
\<close>

section \<open>The contents of the ring\<close>

definition pipe_ok :: "pipe \<Rightarrow> bool" where
  "pipe_ok p \<longleftrightarrow> length (pdata p) = PIPESIZE \<and> unat (nwrite p - nread p) \<le> PIPESIZE"

definition pbytes :: "pipe \<Rightarrow> u8 list" where
  "pbytes p = map (\<lambda>k. pdata p ! ((unat (nread p) + k) mod PIPESIZE)) [0..<unat (nwrite p - nread p)]"

lemma length_pbytes [simp]: "length (pbytes p) = unat (nwrite p - nread p)"
  by (simp add: pbytes_def)

lemma unat_counter: "unat (c + d :: u32) mod 512 = (unat c + unat d) mod 512"
  by (simp add: unat_word_ariths mod_mod_cancel)

lemma unat_room:
  assumes "unat (w - r :: u32) \<le> 512"
  shows "unat (r + 512 - w) = 512 - unat (w - r)"
proof -
  have e: "r + 512 - w = 512 - (w - r)" by simp
  have "w - r \<le> 512" using assms by (simp add: word_le_nat_alt)
  then show ?thesis unfolding e by (subst unat_sub) simp_all
qed

lemma unat_piece1: "unat m \<le> 512 \<Longrightarrow> unat (piece1 c m) = min (unat m) (512 - unat c mod 512)"
proof -
  assume "unat m \<le> 512"
  have "c mod 512 < (512 :: u32)" by (simp add: word_less_nat_alt unat_mod_distrib)
  then have "unat (512 - c mod 512) = 512 - unat c mod 512"
    by (simp add: unat_sub order.strict_implies_order unat_mod_distrib)
  then show ?thesis by (auto simp: piece1_def Let_def word_less_nat_alt min_def)
qed

lemma piece1_le: "unat m \<le> 512 \<Longrightarrow> piece1 c m \<le> m"
  using unat_piece1[of m c] by (simp add: word_le_nat_alt)

lemma unat_piece2: "unat m \<le> 512 \<Longrightarrow> unat (piece2 c m) = unat m - unat (piece1 c m)"
  using piece1_le[of m c] by (simp add: piece2_def unat_sub)

text \<open>Both pieces of a transfer of \<open>m\<close> bytes at counter \<open>c\<close>.\<close>

definition put_ring :: "u32 \<Rightarrow> u8 list \<Rightarrow> pipe \<Rightarrow> pipe" where
  "put_ring c bs p = (let n = unat (piece1 c (of_nat (length bs))) in
     put_data 0 (drop n bs) (put_data (unat c mod PIPESIZE) (take n bs) p))"

lemma nth_put_data:
  "i + length bs \<le> length (pdata p) \<Longrightarrow> j < length (pdata p) \<Longrightarrow>
   pdata (put_data i bs p) ! j = (if i \<le> j \<and> j < i + length bs then bs ! (j - i) else pdata p ! j)"
  by (auto simp: put_data_def nth_append min_def)

lemma length_put_data [simp]: "i + length bs \<le> length (pdata p) \<Longrightarrow> length (pdata (put_data i bs p)) = length (pdata p)"
  by (simp add: put_data_def)

lemma put_data_counters [simp]:
  "nread (put_data i bs p) = nread p" "nwrite (put_data i bs p) = nwrite p"
  "readopen (put_data i bs p) = readopen p" "writeopen (put_data i bs p) = writeopen p"
  by (simp_all add: put_data_def)

lemma nth_two_pieces:
  assumes "length (pdata p) = 512" and "b < 512" and "n \<le> length bs" "b + n \<le> 512" "n = length bs \<or> b + n = 512" "length bs \<le> 512" and "j < 512"
  shows "pdata (put_data 0 (drop n bs) (put_data b (take n bs) p)) ! j =
    (let i = (if b \<le> j then j - b else j + 512 - b) in if i < length bs then bs ! i else pdata p ! j)"
    and "length (pdata (put_data 0 (drop n bs) (put_data b (take n bs) p))) = 512"
proof -
  have l: "length (pdata (put_data b (take n bs) p)) = 512" using assms by (subst length_put_data) simp_all
  then show "length (pdata (put_data 0 (drop n bs) (put_data b (take n bs) p))) = 512" using assms by (subst length_put_data) simp_all
  have "pdata (put_data 0 (drop n bs) (put_data b (take n bs) p)) ! j =
      (if j < length bs - n then drop n bs ! j else if b \<le> j \<and> j < b + n then take n bs ! (j - b) else pdata p ! j)"
    using assms l by (simp add: nth_put_data min_absorb2)
  also have "\<dots> = (let i = (if b \<le> j then j - b else j + 512 - b) in if i < length bs then bs ! i else pdata p ! j)"
  proof (cases "b \<le> j")
    case True
    then have "\<not> j < length bs - n" using assms by linarith
    then show ?thesis using True assms by (auto simp: Let_def)
  next
    case False
    then have "j < length bs - n \<longleftrightarrow> j + 512 - b < length bs" "j < length bs - n \<Longrightarrow> n + j = j + 512 - b" using assms by linarith+
    then show ?thesis using False assms(3) by (auto simp: Let_def)
  qed
  finally show "pdata (put_data 0 (drop n bs) (put_data b (take n bs) p)) ! j =
    (let i = (if b \<le> j then j - b else j + 512 - b) in if i < length bs then bs ! i else pdata p ! j)" .
qed

lemma mod_back:
  assumes "j < 512" and "b < (512 :: nat)"
  shows "(j + 512 - b) mod 512 = (if b \<le> j then j - b else j + 512 - b)"
proof (cases "b \<le> j")
  case True
  then have e: "j + 512 - b = (j - b) + 512" by simp
  show ?thesis unfolding e using True assms by (simp only: if_True mod_add_self2) (rule mod_less, linarith)
next
  case False
  then show ?thesis using assms by (simp only: if_False) (rule mod_less, linarith)
qed

lemma put_ring_nth:
  assumes "length (pdata p) = 512" and "length bs \<le> 512" and "j < 512"
  shows "pdata (put_ring c bs p) ! j = (if (j + 512 - unat c mod 512) mod 512 < length bs
      then bs ! ((j + 512 - unat c mod 512) mod 512) else pdata p ! j)"
    and "length (pdata (put_ring c bs p)) = 512"
proof -
  have b: "unat c mod 512 < 512" by simp
  have n: "unat (piece1 c (of_nat (length bs))) = min (length bs) (512 - unat c mod 512)" using assms(2) by (subst unat_piece1) simp_all
  have e: "(j + 512 - unat c mod 512) mod 512 = (if unat c mod 512 \<le> j then j - unat c mod 512 else j + 512 - unat c mod 512)"
    using assms(3) b by (rule mod_back)
  define N where "N = min (length bs) (512 - unat c mod 512)"
  have s: "N \<le> length bs" "unat c mod 512 + N \<le> 512" "N = length bs \<or> unat c mod 512 + N = 512"
    using b by (auto simp: N_def min_def)
  have r: "put_ring c bs p = put_data 0 (drop N bs) (put_data (unat c mod 512) (take N bs) p)"
    by (simp only: put_ring_def n N_def Let_def PIPESIZE_def)
  note t = nth_two_pieces[OF assms(1) b s assms(2,3)]
  show "pdata (put_ring c bs p) ! j = (if (j + 512 - unat c mod 512) mod 512 < length bs
      then bs ! ((j + 512 - unat c mod 512) mod 512) else pdata p ! j)"
    unfolding e r t(1) Let_def by (rule refl)
  show "length (pdata (put_ring c bs p)) = 512" unfolding r by (rule t(2))
qed

lemma mod_gap: "((a + d) mod 512 + 512 - a mod 512) mod 512 = d mod (512 :: nat)"
proof -
  define q m where "q = a div 512" and "m = a mod 512"
  have a: "a = 512 * q + m" "m < 512" by (simp_all add: q_def m_def)
  have "(a + d) mod 512 + 512 - m = (a + d) mod 512 + (512 - m)" using a(2) by simp
  then have "((a + d) mod 512 + 512 - m) mod 512 = (a + d + (512 - m)) mod 512"
    by (simp only: mod_add_left_eq)
  also have "a + d + (512 - m) = d + 512 * (q + 1)" using a by simp
  finally show ?thesis unfolding m_def by (simp only: mod_mult_self2)
qed

lemma ring_pos:
  assumes "u \<le> 512"
  shows "((r + k) mod 512 + 512 - (r + u) mod 512) mod 512 = (if k < u then 512 - (u - k) else k - u) mod (512 :: nat)"
proof (cases "k < u")
  case True
  have "(r + k) mod 512 = (r + k + 512) mod 512" by simp
  also have "r + k + 512 = (r + u) + (512 - (u - k))" using True assms(1) by simp
  finally have e: "(r + k) mod 512 = ((r + u) + (512 - (u - k))) mod 512" .
  show ?thesis unfolding e mod_gap by (simp only: True if_True)
next
  case False
  then have e: "r + k = (r + u) + (k - u)" by simp
  show ?thesis unfolding e mod_gap using False by simp
qed

lemma put_ring_bytes:
  assumes "pipe_ok p" and "length bs \<le> 512 - unat (nwrite p - nread p)"
    and "q = (put_ring (nwrite p) bs p)\<lparr>nwrite := nwrite p + of_nat (length bs)\<rparr>"
  shows "pbytes q = pbytes p @ bs" and "pipe_ok q"
proof -
  let ?r = "unat (nread p)" and ?u = "unat (nwrite p - nread p)"
  have l: "length (pdata p) = 512" "?u \<le> 512" "length bs \<le> 512" using assms by (simp_all add: pipe_ok_def)
  have e: "nread q = nread p" "nwrite q = nwrite p + of_nat (length bs)" by (simp_all add: assms(3) put_ring_def Let_def)
  have "nwrite q - nread q = (nwrite p - nread p) + of_nat (length bs)" using e by simp
  then have u: "unat (nwrite q - nread q) = ?u + length bs"
    using l(2) assms(2) by (simp add: unat_word_ariths)
  have d: "length (pdata q) = 512" using put_ring_nth(2)[OF l(1,3), of 0] by (simp add: assms(3))
  show "pipe_ok q" using assms(2) l(2) d u by (simp add: pipe_ok_def)
  have w: "unat (nwrite p) mod 512 = (?r + ?u) mod 512" using unat_counter[of "nread p" "nwrite p - nread p"] by simp
  show "pbytes q = pbytes p @ bs"
  proof (rule nth_equalityI)
    fix k assume "k < length (pbytes q)"
    then have k: "k < ?u + length bs" using u by simp
    let ?j = "(?r + k) mod 512"
    have g: "(?j + 512 - unat (nwrite p) mod 512) mod 512 = (if k < ?u then 512 - (?u - k) else k - ?u) mod 512"
      unfolding w by (rule ring_pos[OF l(2)])
    have "pdata q ! ?j = (if k < ?u then pdata p ! ?j else bs ! (k - ?u))"
    proof (cases "k < ?u")
      case True
      then have "(512 - (?u - k)) mod 512 = 512 - (?u - k)" "\<not> 512 - (?u - k) < length bs" using l(2) assms(2) by auto
      then show ?thesis using put_ring_nth(1)[OF l(1,3), of ?j "nwrite p"] g True by (simp add: assms(3))
    next
      case False
      then have "(k - ?u) mod 512 = k - ?u" "k - ?u < length bs" using k l(3) by auto
      then show ?thesis using put_ring_nth(1)[OF l(1,3), of ?j "nwrite p"] g False by (simp add: assms(3))
    qed
    then show "pbytes q ! k = (pbytes p @ bs) ! k" using k u e by (simp add: pbytes_def nth_append)
  qed (use u in simp)
qed

lemma take_ring_bytes:
  assumes "pipe_ok p" and "unat m \<le> unat (nwrite p - nread p)"
  shows "take (unat (piece1 (nread p) m)) (drop (unat (nread p) mod 512) (pdata p)) @ take (unat (piece2 (nread p) m)) (pdata p) =
    take (unat m) (pbytes p)" (is "?l = _")
proof -
  let ?b = "unat (nread p) mod 512"
  have l: "length (pdata p) = 512" "unat m \<le> 512" using assms by (simp_all add: pipe_ok_def)
  define N where "N = min (unat m) (512 - ?b)"
  have n: "unat (piece1 (nread p) m) = N" "unat (piece2 (nread p) m) = unat m - N"
    using unat_piece1[OF l(2)] unat_piece2[OF l(2)] by (simp_all add: N_def)
  have b: "?b < 512" by simp
  have s: "N \<le> unat m" "?b + N \<le> 512" "N = unat m \<or> ?b + N = 512" using b by (auto simp: N_def min_def)
  show ?thesis
  proof (rule nth_equalityI)
    show "length ?l = length (take (unat m) (pbytes p))" using s l assms(2) unfolding n by simp
    fix i assume "i < length ?l"
    then have i: "i < unat m" using s l unfolding n by simp
    have "?l ! i = pdata p ! (if i < N then ?b + i else i - N)"
      using i s l(1) unfolding n by (simp add: nth_append)
    also have "(if i < N then ?b + i else i - N) = (unat (nread p) + i) mod 512"
    proof (cases "i < N")
      case True
      then have "?b + i < 512" using s(2) by linarith
      then show ?thesis using True mod_add_left_eq[of "unat (nread p)" 512 i] by simp
    next
      case False
      then have "?b + i = (i - N) + 512" "i - N < 512" using s i l(2) by linarith+
      then have "(unat (nread p) + i) mod 512 = ((i - N) + 512) mod 512" using mod_add_left_eq[of "unat (nread p)" 512 i] by (simp only:)
      then show ?thesis using False \<open>i - N < 512\<close> by (simp only: if_False mod_add_self2 mod_less)
    qed
    finally show "?l ! i = take (unat m) (pbytes p) ! i" using i assms(2) by (simp add: pbytes_def)
  qed
qed

lemma drop_ring_bytes:
  assumes "pipe_ok p" and "unat m \<le> unat (nwrite p - nread p)" and "q = p\<lparr>nread := nread p + m\<rparr>"
  shows "pbytes q = drop (unat m) (pbytes p)" and "pipe_ok q"
proof -
  have "nwrite q - nread q = (nwrite p - nread p) - m" by (simp add: assms(3))
  then have u: "unat (nwrite q - nread q) = unat (nwrite p - nread p) - unat m"
    using assms(2) by (simp add: unat_sub word_le_nat_alt)
  then show "pipe_ok q" using assms(1) unfolding pipe_ok_def by (simp add: assms(3) le_trans[OF diff_le_self])
  show "pbytes q = drop (unat m) (pbytes p)"
  proof (rule nth_equalityI)
    fix k assume "k < length (pbytes q)"
    then have k: "unat m + k < unat (nwrite p - nread p)" using u assms(2) by simp
    have "(unat (nread p + m) + k) mod 512 = (unat (nread p + m) mod 512 + k) mod 512" by (simp only: mod_add_left_eq)
    also have "\<dots> = (unat (nread p) + (unat m + k)) mod 512" by (simp only: unat_counter mod_add_left_eq add.assoc)
    finally have "(unat (nread p + m) + k) mod 512 = (unat (nread p) + (unat m + k)) mod 512" .
    moreover have "k < unat (nwrite p - nread p) - unat m" using k by linarith
    ultimately show "pbytes q ! k = drop (unat m) (pbytes p) ! k" using k u by (simp add: pbytes_def assms(3))
  qed (use u in simp)
qed

section \<open>User memory\<close>

lemma length_uloads: "uloads m pd va n = Some bs \<Longrightarrow> length bs = n"
  by (induction n arbitrary: va bs) (auto split: option.splits)

lemma uloads_append:
  "uloads m pd va (a + b) = Some bs \<Longrightarrow> uloads m pd va a = Some (take a bs) \<and> uloads m pd (va + of_nat a) b = Some (drop a bs)"
  by (induction a arbitrary: va bs) (auto split: option.splits simp: add.assoc[symmetric])

lemma ustores_append:
  "ustores m pd va (xs @ ys) = Some m2 \<Longrightarrow> \<exists>m1. ustores m pd va xs = Some m1 \<and> ustores m1 pd (va + of_nat (length xs)) ys = Some m2"
  by (induction xs arbitrary: m va) (auto split: option.splits simp: add.assoc[symmetric])

text \<open>Process \<open>q\<close> runs undisturbed, without the locks the user copies and \<open>wakeup\<close> take.\<close>

definition undisturbed :: "nat \<Rightarrow> kst \<Rightarrow> bool" where
  "undisturbed q s \<longleftrightarrow> others s = [] \<and> VLock q \<notin> set (held s) \<and> PtableLock \<notin> set (held s) \<and>
     (\<exists>p. curp s = Some p \<and> process (ptable (sh s) ! p) = Some q)"

lemma undisturbed_frame [simp]:
  "undisturbed q (s\<lparr>sh := (sh s)\<lparr>pipes := f\<rparr>\<rparr>) = undisturbed q s" "undisturbed q (s\<lparr>sh := (sh s)\<lparr>mem := m\<rparr>\<rparr>) = undisturbed q s"
  "undisturbed q (s\<lparr>held := PipeLock a # held s\<rparr>) = undisturbed q s"
  by (auto simp: undisturbed_def)

lemma range_in:
  assumes "unat va + unat n \<le> unat (z :: u32)" and "n \<noteq> 0"
  shows "va < z" and "va + n \<le> z"
proof -
  have "0 < unat n" using assms(2) by (simp add: unat_gt_0)
  then show "va < z" using assms(1) by (simp add: word_less_nat_alt)
  have "unat z < 4294967296" by (rule order.strict_trans2[OF unsigned_less]) simp
  then have "unat (va + n) = unat va + unat n" using assms(1) by (simp add: unat_word_ariths)
  then show "va + n \<le> z" using assms(1) by (simp add: word_le_nat_alt)
qed

lemma copy_from_user_undisturbed:
  assumes "undisturbed q s" and "src < sz (ptable (sh s) ! q)" and "src + n \<le> sz (ptable (sh s) ! q)"
    and "uloads (mem (sh s)) (P2V (cr3 s)) src (unat n) = Some bs"
  shows "copy_from_user src n s = Ok (Some bs) s"
  using assms by (auto simp: copy_from_user_def kdefs undisturbed_def)

lemma copy_to_user_undisturbed:
  assumes "undisturbed q s" and "dst < sz (ptable (sh s) ! q)" and "dst + of_nat (length bs) \<le> sz (ptable (sh s) ! q)"
    and "ustores (mem (sh s)) (P2V (cr3 s)) dst bs = Some m"
  shows "copy_to_user dst bs s = Ok True (s\<lparr>sh := (sh s)\<lparr>mem := m\<rparr>\<rparr>)"
  using assms by (auto simp: copy_to_user_def kdefs undisturbed_def)

section \<open>One piece of a transfer\<close>

lemma put_data_nil [simp]: "put_data i [] p = p"
  by (simp add: put_data_def)

lemma fill_piece_undisturbed:
  assumes "undisturbed q s" and "i + unat m \<le> 512" and "unat src + unat m \<le> unat (sz (ptable (sh s) ! q))"
    and "uloads (mem (sh s)) (P2V (cr3 s)) src (unat m) = Some bs"
  shows "fill_piece a i src m s = Ok True (s\<lparr>sh := (sh s)\<lparr>pipes := (pipes (sh s))(a := put_data i bs (pipes (sh s) a))\<rparr>\<rparr>)"
proof (cases "m = 0")
  case True
  then show ?thesis using assms(4) by (simp add: fill_piece_def kdefs)
next
  case False
  note r = range_in[OF assms(3) False]
  show ?thesis using False assms(2) copy_from_user_undisturbed[OF assms(1) r assms(4)]
    by (simp add: fill_piece_def kdefs)
qed

lemma drain_piece_undisturbed:
  assumes "undisturbed q s" and "i + unat m \<le> 512" and "unat dst + unat m \<le> unat (sz (ptable (sh s) ! q))"
    and "length (pdata (pipes (sh s) a)) = 512"
    and "ustores (mem (sh s)) (P2V (cr3 s)) dst (take (unat m) (drop i (pdata (pipes (sh s) a)))) = Some m'"
  shows "drain_piece a i dst m s = Ok True (s\<lparr>sh := (sh s)\<lparr>mem := m'\<rparr>\<rparr>)"
proof (cases "m = 0")
  case True
  then show ?thesis using assms(5) by (simp add: drain_piece_def kdefs)
next
  case False
  note r = range_in[OF assms(3) False]
  have l: "of_nat (length (take (unat m) (drop i (pdata (pipes (sh s) a))))) = m" using assms(2,4) by simp
  show ?thesis using False assms(2) copy_to_user_undisturbed[OF assms(1) r(1) _ assms(5), unfolded l, OF r(2)]
    by (simp add: drain_piece_def kdefs)
qed

section \<open>Writing\<close>

text \<open>A pipe after \<open>bs\<close> went in, and the process table after the readers were woken.\<close>

definition pipe_put :: "u8 list \<Rightarrow> pipe \<Rightarrow> pipe" where
  "pipe_put bs p = (put_ring (nwrite p) bs p)\<lparr>nwrite := nwrite p + of_nat (length bs)\<rparr>"

lemma sint_small: "unat (n :: u32) \<le> 512 \<Longrightarrow> sint n = uint n"
proof -
  assume "unat n \<le> 512"
  then have "uint n \<le> 512" unfolding unat_eq_nat_uint by linarith
  then show ?thesis by (simp add: sint32)
qed

lemma pipewrite_loop_undisturbed:
  assumes "undisturbed q s" and "pipe_ok (pipes (sh s) a)"
    and "unat (n :: u32) \<le> 512 - unat (nwrite (pipes (sh s) a) - nread (pipes (sh s) a))"
    and "unat addr + unat n \<le> unat (sz (ptable (sh s) ! q))"
    and "uloads (mem (sh s)) (P2V (cr3 s)) addr (unat n) = Some bs"
  shows "pipewrite_loop a addr (unat n) 0 s =
    Ok True (s\<lparr>sh := (sh s)\<lparr>pipes := (pipes (sh s))(a := pipe_put bs (pipes (sh s) a))\<rparr>\<rparr>)"
proof (cases "n = 0")
  case True
  then show ?thesis using assms(5)
    by (subst pipewrite_loop.simps) (simp add: kdefs pipe_put_def put_ring_def piece1_def Let_def)
next
  case False
  define p where "p = pipes (sh s) a"
  define c1 where "c1 = piece1 (nwrite p) n"
  define c2 where "c2 = piece2 (nwrite p) n"
  let ?b = "unat (nwrite p) mod 512"
  have l: "length bs = unat n" using length_uloads[OF assms(5)] .
  have n: "unat n \<le> 512" using assms(3) by linarith
  have c: "unat c1 = min (unat n) (512 - ?b)" "unat c2 = unat n - unat c1"
    using unat_piece1[OF n] unat_piece2[OF n] by (simp_all add: c1_def c2_def)
  have cs: "unat c1 + unat c2 = unat n" "?b + unat c1 \<le> 512" "unat c1 \<le> unat n" "unat c2 \<le> 512" using c n mod_less_divisor[of 512 "unat (nwrite p)"] by linarith+
  have room: "unat (nread p + 512 - nwrite p) = 512 - unat (nwrite p - nread p)"
    using assms(2) by (intro unat_room) (simp add: pipe_ok_def p_def)
  have nz: "0 < unat n" using False by (simp add: unat_gt_0)
  have full: "\<not> pipe_full p" using room nz assms(3) by (auto simp: pipe_full_def p_def)
  have m: "min (nread p + 512 - nwrite p) n = n"
    using room assms(3) by (intro min_absorb2) (simp add: word_le_nat_alt p_def)
  have u: "uloads (mem (sh s)) (P2V (cr3 s)) addr (unat c1) = Some (take (unat c1) bs)"
    "uloads (mem (sh s)) (P2V (cr3 s)) (addr + c1) (unat c2) = Some (drop (unat c1) bs)"
    using uloads_append[of "mem (sh s)" "P2V (cr3 s)" addr "unat c1" "unat c2" bs] assms(5) cs by simp_all
  define s1 where "s1 = s\<lparr>sh := (sh s)\<lparr>pipes := (pipes (sh s))(a := put_data ?b (take (unat c1) bs) p)\<rparr>\<rparr>"
  have f1: "fill_piece a ?b addr c1 s = Ok True s1"
    using cs(2) assms(4) cs(3) unfolding s1_def p_def by (intro fill_piece_undisturbed[OF assms(1) _ _ u(1)]) simp_all
  have "unat (addr + c1) \<le> unat addr + unat c1" by (simp add: unat_word_ariths)
  then have r2: "unat (addr + c1) + unat c2 \<le> unat (sz (ptable (sh s) ! q))" using cs(1) assms(4) by linarith
  have f2: "fill_piece a 0 (addr + c1) c2 s1 =
      Ok True (s1\<lparr>sh := (sh s1)\<lparr>pipes := (pipes (sh s1))(a := put_data 0 (drop (unat c1) bs) (pipes (sh s1) a))\<rparr>\<rparr>)"
    using assms(1) u(2) cs(4) r2 by (intro fill_piece_undisturbed[where q = q]) (simp_all add: s1_def)
  have r: "sleep_loop (write_ready a) (write_sleep a) s = Ok True s"
    using full by (subst sleep_loop.simps) (simp add: write_ready_def kdefs p_def)
  have g: "getpipe a id s = Ok p s" by (simp add: kdefs p_def)
  have e: "pipewrite_loop a addr (unat n) (0 + unat n) = ret True" by (subst pipewrite_loop.simps) simp
  have "min (nread p + of_nat PIPESIZE - nwrite p) (of_nat (unat n - 0)) = n" using m by simp
  note k = this c1_def[symmetric] c2_def[symmetric]
  have fin: "(put_data 0 (drop (unat c1) bs) (put_data ?b (take (unat c1) bs) p))\<lparr>nwrite := nwrite p + n\<rparr> = pipe_put bs p"
    by (simp add: pipe_put_def put_ring_def Let_def l c1_def)
  have "pipewrite_loop a addr (unat n) 0 s =
      bnd (fill_piece a 0 (addr + c1) c2) (\<lambda>ok2. if \<not> ok2 then ret False
        else sq (setpipe a (\<lambda>p. p\<lparr>nwrite := nwrite p + n\<rparr>)) (ret True)) s1"
    by (subst pipewrite_loop.simps)
      (simp only: nz nz[THEN less_imp_neq, symmetric] if_True if_False bnd_def[of _ _ s] r g f1[folded PIPESIZE_def] e res.case Let_def k
        not_True_eq_False semiring_1_class.of_nat_0 add_0_right)
  also have "\<dots> = Ok True (s\<lparr>sh := (sh s)\<lparr>pipes := (pipes (sh s))(a := pipe_put bs p)\<rparr>\<rparr>)"
    by (simp add: bnd_def[of _ _ s1] f2, simp add: kdefs s1_def fin)
  finally show ?thesis unfolding p_def .
qed

section \<open>Waking the other side\<close>

lemma pbytes_empty: "pbytes p = [] \<longleftrightarrow> nread p = nwrite p"
proof -
  have "pbytes p = [] \<longleftrightarrow> unat (nwrite p - nread p) = 0" by (simp add: pbytes_def)
  then show ?thesis by (auto simp: unat_eq_0)
qed

lemma wakeup_undisturbed:
  assumes "others s = []" and "PtableLock \<notin> set (held s)"
  shows "wakeup ch s = Ok () (s\<lparr>sh := (sh s)\<lparr>ptable := map (wake ch) (ptable (sh s))\<rparr>\<rparr>)"
  using assms by (simp add: wakeup_def kdefs)

section \<open>Reading\<close>

lemma drain_pieces:
  assumes "undisturbed q s" and "pipe_ok (pipes (sh s) a)" and "p = pipes (sh s) a"
    and "unat m \<le> length (pbytes p)"
    and "unat addr + unat m \<le> unat (sz (ptable (sh s) ! q))"
    and "ustores (mem (sh s)) (P2V (cr3 s)) addr (take (unat m) (pbytes p)) = Some m2"
  shows "\<exists>m1. drain_piece a (unat (nread p) mod 512) addr (piece1 (nread p) m) s = Ok True (s\<lparr>sh := (sh s)\<lparr>mem := m1\<rparr>\<rparr>) \<and>
    drain_piece a 0 (addr + piece1 (nread p) m) (piece2 (nread p) m) (s\<lparr>sh := (sh s)\<lparr>mem := m1\<rparr>\<rparr>) = Ok True (s\<lparr>sh := (sh s)\<lparr>mem := m2\<rparr>\<rparr>)"
proof -
  define c1 where "c1 = piece1 (nread p) m"
  define c2 where "c2 = piece2 (nread p) m"
  let ?b = "unat (nread p) mod 512"
  have l: "length (pdata p) = 512" "unat (nwrite p - nread p) \<le> 512" using assms(2,3) by (simp_all add: pipe_ok_def)
  have n: "unat m \<le> 512" "unat m \<le> unat (nwrite p - nread p)" using assms(4) l(2) by simp_all
  have c: "unat c1 = min (unat m) (512 - ?b)" "unat c2 = unat m - unat c1"
    using unat_piece1[OF n(1)] unat_piece2[OF n(1)] by (simp_all add: c1_def c2_def)
  have cs: "unat c1 + unat c2 = unat m" "?b + unat c1 \<le> 512" "unat c1 \<le> unat m" "unat c2 \<le> 512"
    using c n mod_less_divisor[of 512 "unat (nread p)"] by linarith+
  let ?xs = "take (unat c1) (drop ?b (pdata p))" and ?ys = "take (unat c2) (drop 0 (pdata p))"
  have "?xs @ ?ys = take (unat m) (pbytes p)"
    using take_ring_bytes[OF _ n(2)] assms(2,3) by (simp add: c1_def c2_def)
  then have "ustores (mem (sh s)) (P2V (cr3 s)) addr (?xs @ ?ys) = Some m2" using assms(6) by simp
  then obtain m1 where m1: "ustores (mem (sh s)) (P2V (cr3 s)) addr ?xs = Some m1"
    and m2: "ustores m1 (P2V (cr3 s)) (addr + of_nat (length ?xs)) ?ys = Some m2"
    using ustores_append by blast
  have "length ?xs = unat c1" using cs(2) l(1) by simp
  then have m2': "ustores m1 (P2V (cr3 s)) (addr + c1) ?ys = Some m2" using m2 by simp
  have d1: "drain_piece a ?b addr c1 s = Ok True (s\<lparr>sh := (sh s)\<lparr>mem := m1\<rparr>\<rparr>)"
    using m1 cs(2,3) assms(5) l(1) by (intro drain_piece_undisturbed[OF assms(1)]) (simp_all add: assms(3))
  have "unat (addr + c1) \<le> unat addr + unat c1" by (simp add: unat_word_ariths)
  then have r2: "unat (addr + c1) + unat c2 \<le> unat (sz (ptable (sh s) ! q))" using cs(1) assms(5) by linarith
  have "drain_piece a 0 (addr + c1) c2 (s\<lparr>sh := (sh s)\<lparr>mem := m1\<rparr>\<rparr>) =
      Ok True (s\<lparr>sh := (sh s)\<lparr>mem := m1\<rparr>\<rparr>\<lparr>sh := (sh (s\<lparr>sh := (sh s)\<lparr>mem := m1\<rparr>\<rparr>))\<lparr>mem := m2\<rparr>\<rparr>)"
    using m2' cs(4) r2 l(1) assms(1) by (intro drain_piece_undisturbed[where q = q]) (simp_all add: assms(3))
  then show ?thesis using d1 by (intro exI[of _ m1]) (simp add: c1_def c2_def)
qed

section \<open>A pipe whose counters are about to wrap\<close>

text \<open>Two bytes in the ring, the next one goes into its last place; every page is mapped, to a page
  of sevens.\<close>

definition wrapping :: pipe where
  "wrapping = \<lparr>pdata = (replicate 512 0)[509 := 1, 510 := 2], nread = - 3, nwrite = - 1, readopen = True, writeopen = True\<rparr>"

definition sevens :: kst where
  "sevens = fresh_kst ((zeroed sample_layout)\<lparr>mem := \<lambda>_. 7, pipes := \<lambda>_. wrapping,
     ptable := [zeroed_proc\<lparr>process := Some 0, pstate := RUNNING, sz := 0x1000\<rparr>]\<rparr>) (Some 0) []"

lemma wrapping_ok: "pipe_ok wrapping" "pbytes wrapping = [1, 2]"
  by (simp_all add: wrapping_def pipe_ok_def pbytes_def upt_rec)

lemma rd32_sevens: "rd32 (\<lambda>_. 7) a = 0x07070707"
  by (simp add: rd32_def join32_def bytes_def upt_rec)

lemma vlookup_sevens: "vlookup (\<lambda>_. 7) (P2V 0) va = Some 0x07070707"
  by (simp add: vlookup_def rd32_sevens present_def Let_def)

lemma uload_sevens: "uload (\<lambda>_. 7) (P2V 0) va = Some 7"
  by (simp add: uload_def uaddr_def vlookup_sevens)

lemma size_sevens: "unat (sz (ptable (sh sevens) ! 0)) = 4096" "mem (sh sevens) = (\<lambda>_. 7)" "cr3 sevens = 0"
  by (simp_all add: sevens_def)

lemma load_sevens: "uloads (\<lambda>_. 7) (P2V 0) 0x800 2 = Some [7, 7]"
  by (simp add: eval_nat_numeral uload_sevens)

lemma store_sevens: "ustores (\<lambda>_. 7) (P2V 0) 0x800 [1] = Some ((\<lambda>_. 7)(0x87070800 := 1))"
  by (simp add: ustore_def ucan_write_def uaddr_def vlookup_sevens PTE_ADDR_def) (simp add: P2V_def)

lemma undisturbed_sevens: "undisturbed 0 sevens" "PipeLock a \<notin> set (held sevens)" "pipes (sh sevens) a = wrapping"
  by (simp_all add: sevens_def undisturbed_def)

section \<open>A pipe is a queue of bytes\<close>

text \<open>C20: \<open>pipewrite\<close> of \<open>n\<close> bytes into a ring with room for them returns \<open>n\<close> and appends exactly
  the bytes of the user buffer to the contents of the pipe, also when the transfer wraps around the
  array and when the 32-bit counters wrap; nothing else changes but that the sleeping readers are
  woken.\<close>

theorem pipewrite_appends:
  assumes "undisturbed q s" and "PipeLock a \<notin> set (held s)" and "pipe_ok (pipes (sh s) a)"
    and "unat n + length (pbytes (pipes (sh s) a)) \<le> PIPESIZE"
    and "unat addr + unat n \<le> unat (sz (ptable (sh s) ! q))"
    and "uloads (mem (sh s)) (P2V (cr3 s)) addr (unat n) = Some bs"
  shows "\<exists>p. pipewrite a addr n s = Ok (int (unat n)) (s\<lparr>sh := (sh s)\<lparr>pipes := (pipes (sh s))(a := p),
      ptable := map (wake (nread_addr a)) (ptable (sh s))\<rparr>\<rparr>) \<and>
    pipe_ok p \<and> pbytes p = pbytes (pipes (sh s) a) @ bs"
proof -
  define s1 where "s1 = s\<lparr>held := PipeLock a # held s\<rparr>"
  have room: "unat n \<le> 512 - unat (nwrite (pipes (sh s) a) - nread (pipes (sh s) a))" and n: "unat n \<le> 512"
    using assms(4) by simp_all
  have len: "length bs = unat n" by (rule length_uloads[OF assms(6)])
  have nn: "nat (sint n) = unat n" "sint n = int (unat n)" using sint_small[OF n] by simp_all
  have w: "pipewrite_loop a addr (unat n) 0 s1 =
      Ok True (s1\<lparr>sh := (sh s)\<lparr>pipes := (pipes (sh s))(a := pipe_put bs (pipes (sh s) a))\<rparr>\<rparr>)"
    using pipewrite_loop_undisturbed[of q s1 a n addr bs] assms room by (simp add: s1_def)
  have o: "others s = []" "PtableLock \<notin> set (held s)" using assms(1) by (simp_all add: undisturbed_def)
  have "pipewrite a addr n s = Ok (sint n) (s\<lparr>sh := (sh s)\<lparr>pipes := (pipes (sh s))(a := pipe_put bs (pipes (sh s) a)),
      ptable := map (wake (nread_addr a)) (ptable (sh s))\<rparr>\<rparr>)"
    using assms(2) o w unfolding pipewrite_def nn(1)
    by (simp add: kdefs s1_def wakeup_undisturbed)
  then show ?thesis
    using put_ring_bytes[OF assms(3) _ pipe_put_def] room len nn(2) by (intro exI[of _ "pipe_put bs (pipes (sh s) a)"]) simp
qed

theorem pipewrite_appends_witness:
  "\<exists>t. pipewrite 0x80400000 0x800 2 sevens = Ok 2 t \<and> pbytes (pipes (sh t) 0x80400000) = [1, 2, 7, 7]"
  using pipewrite_appends[OF undisturbed_sevens(1,2), of "0x80400000" 2 "0x800" "[7, 7]"]
  by (auto simp: undisturbed_sevens(3) wrapping_ok size_sevens load_sevens)

text \<open>C21: \<open>piperead\<close> of a pipe that is not empty, or whose write end is closed, returns the number
  \<open>m\<close> of bytes it delivers, the smaller of \<open>n\<close> and what there is; the first \<open>m\<close> bytes of the pipe are
  stored at the user address in order and leave the pipe, and the sleeping writers are woken.  The
  count \<open>n\<close> is read as unsigned.\<close>

theorem piperead_takes:
  assumes "undisturbed q s" and "PipeLock a \<notin> set (held s)" and "pipe_ok (pipes (sh s) a)"
    and "pbytes (pipes (sh s) a) \<noteq> [] \<or> \<not> writeopen (pipes (sh s) a)"
    and "m = min (length (pbytes (pipes (sh s) a))) (unat n)"
    and "unat addr + m \<le> unat (sz (ptable (sh s) ! q))"
    and "ustores (mem (sh s)) (P2V (cr3 s)) addr (take m (pbytes (pipes (sh s) a))) = Some m2"
  shows "\<exists>p. piperead a addr n s = Ok (int m) (s\<lparr>sh := (sh s)\<lparr>mem := m2, pipes := (pipes (sh s))(a := p),
      ptable := map (wake (nwrite_addr a)) (ptable (sh s))\<rparr>\<rparr>) \<and>
    pipe_ok p \<and> pbytes p = drop m (pbytes (pipes (sh s) a))"
proof -
  define p where "p = pipes (sh s) a"
  define k where "k = min (nwrite p - nread p) n"
  define s1 where "s1 = s\<lparr>held := PipeLock a # held s\<rparr>"
  have k: "unat k = m" using assms(5) by (auto simp: k_def p_def min_def word_le_nat_alt)
  have kl: "unat k \<le> length (pbytes p)" "unat k \<le> unat (nwrite p - nread p)" "unat k \<le> 512"
    using assms(3,5) k by (auto simp: p_def pipe_ok_def min_def)
  have o: "others s = []" "PtableLock \<notin> set (held s)" using assms(1) by (simp_all add: undisturbed_def)
  obtain m1 where d: "drain_piece a (unat (nread p) mod 512) addr (piece1 (nread p) k) s1 = Ok True (s1\<lparr>sh := (sh s1)\<lparr>mem := m1\<rparr>\<rparr>)"
    "drain_piece a 0 (addr + piece1 (nread p) k) (piece2 (nread p) k) (s1\<lparr>sh := (sh s1)\<lparr>mem := m1\<rparr>\<rparr>) = Ok True (s1\<lparr>sh := (sh s1)\<lparr>mem := m2\<rparr>\<rparr>)"
    using drain_pieces[of q s1 a p k addr m2] assms(1,3,6,7) kl(1) k by (auto simp: s1_def p_def)
  have r: "sleep_loop (read_ready a) (read_sleep a) s1 = Ok True s1"
    using assms(4) unfolding pbytes_empty by (subst sleep_loop.simps) (auto simp: read_ready_def kdefs s1_def)
  have g: "getpipe a id s1 = Ok p s1" by (simp add: kdefs p_def s1_def)
  have "piperead a addr n s = sq (seqs [setpipe a (\<lambda>p. p\<lparr>nread := nread p + k\<rparr>), wakeup (nwrite_addr a),
      release (PipeLock a)]) (ret (sint k)) (s1\<lparr>sh := (sh s1)\<lparr>mem := m2\<rparr>\<rparr>)"
    using assms(2) o(1) unfolding piperead_def
    by (simp add: sq_def[of "acquire x" for x] bnd_def acquire_def s1_def[symmetric] r g Let_def k_def[symmetric] d)
  also have "\<dots> = Ok (sint k) (s\<lparr>sh := (sh s)\<lparr>mem := m2, pipes := (pipes (sh s))(a := p\<lparr>nread := nread p + k\<rparr>),
      ptable := map (wake (nwrite_addr a)) (ptable (sh s))\<rparr>\<rparr>)"
    using o by (simp add: kdefs s1_def wakeup_undisturbed p_def)
  finally show ?thesis
    using drop_ring_bytes[OF assms(3)[folded p_def] kl(2) refl] sint_small[OF kl(3)] k
    by (intro exI[of _ "p\<lparr>nread := nread p + k\<rparr>"]) (auto simp: p_def)
qed

theorem piperead_takes_witness:
  "\<exists>t. piperead 0x80400000 0x800 1 sevens = Ok 1 t \<and> pbytes (pipes (sh t) 0x80400000) = [2]"
  using piperead_takes[OF undisturbed_sevens(1,2), of "0x80400000" 1 1 "0x800" "(\<lambda>_. 7)(0x87070800 := 1)"]
  by (auto simp: undisturbed_sevens(3) wrapping_ok size_sevens store_sevens[simplified])

end
