(* ===== verification/Bio_Properties.thy ===== *)
theory Bio_Properties
  imports Bio
begin

text \<open>
  The buffer cache as its users see it: while one thread works on the disk undisturbed, the cache
  is a view \<open>v\<close> of the disk in which some blocks \<open>D\<close> have been modified and not yet written.
  \<open>bread\<close> delivers \<open>v n\<close> whatever is cached, \<open>bwrite\<close> updates the view and the disk, \<open>brelse\<close>
  keeps both.
\<close>

section \<open>Sleep locks of an undisturbed thread\<close>

definition mypid :: "kst \<Rightarrow> int" where
  "mypid s = pid (ptable (sh s) ! the (curp s))"

definition alone :: "kst \<Rightarrow> bool" where
  "alone s \<longleftrightarrow> others s = [] \<and> held s = [] \<and> (\<exists>p. curp s = Some p \<and> p < length (ptable (sh s)))"

lemma acquiresleep_alone:
  assumes "alone s" and "\<not> slocked (slocks (sh s) l)"
  shows "acquiresleep l s = Ok () (s\<lparr>sh := (sh s)\<lparr>slocks := (slocks (sh s))(l := \<lparr>slocked = True, slpid = mypid s\<rparr>)\<rparr>\<rparr>)"
proof -
  let ?s = "s\<lparr>held := [SlLock l]\<rparr>"
  have "sleep_loop (slock_free l) (slock_wait l) ?s = Ok () ?s"
    using assms(2) by (subst sleep_loop.simps) (simp add: slock_free_def kdefs)
  then show ?thesis using assms(1) by (auto simp: acquiresleep_def kdefs alone_def mypid_def)
qed

lemma holdingsleep_alone:
  assumes "alone s"
  shows "holdingsleep l s = Ok (slocked (slocks (sh s) l) \<and> slpid (slocks (sh s) l) = mypid s) s"
  using assms by (auto simp: holdingsleep_def kdefs alone_def mypid_def)

lemma releasesleep_alone:
  assumes "alone s"
  shows "releasesleep l s = Ok () (s\<lparr>sh := (sh s)\<lparr>slocks := (slocks (sh s))(l := \<lparr>slocked = False, slpid = 0\<rparr>),
    ptable := map (wake (slock_addr (lay (sh s)) l)) (ptable (sh s))\<rparr>\<rparr>)"
  using assms by (auto simp: releasesleep_def wakeup_def kdefs alone_def)

section \<open>The view of the disk\<close>

definition cached :: "shared \<Rightarrow> nat \<Rightarrow> u32 \<Rightarrow> bool" where
  "cached x b n \<longleftrightarrow> bdev (bcache x ! b) = 1 \<and> blockno (bcache x ! b) = n"

text \<open>Buffer \<open>b\<close> when the current thread, process \<open>i\<close>, has the buffers \<open>L\<close> locked.\<close>

definition buf_ok :: "nat set \<Rightarrow> (u32 \<Rightarrow> u8 list) \<Rightarrow> u32 set \<Rightarrow> int \<Rightarrow> nat \<Rightarrow> buf \<Rightarrow> sleeplock \<Rightarrow> bool" where
  "buf_ok L v D i b r k \<longleftrightarrow>
     refcnt r = (if b \<in> L then 1 else 0) \<and> (slocked k \<longleftrightarrow> b \<in> L) \<and>
     (b \<in> L \<longrightarrow> slpid k = i \<and> bdev r = 1) \<and> (bdev r = 1 \<longrightarrow> b_valid r) \<and>
     (b \<notin> L \<and> bdev r = 1 \<longrightarrow> bdata r = v (blockno r)) \<and>
     (b_dirty r \<longrightarrow> bdev r = 1 \<and> blockno r \<in> D)"

definition list_ok :: "shared \<Rightarrow> bool" where
  "list_ok x \<longleftrightarrow> length (bcache x) = NBUF \<and> (\<exists>bs. blist x bs \<and> set bs = {..<NBUF})"

definition once :: "shared \<Rightarrow> bool" where
  "once x \<longleftrightarrow> (\<forall>b < NBUF. \<forall>c < NBUF. \<forall>n. cached x b n \<and> cached x c n \<longrightarrow> b = c)"

definition cinv :: "nat set \<Rightarrow> (u32 \<Rightarrow> u8 list) \<Rightarrow> u32 set \<Rightarrow> int \<Rightarrow> shared \<Rightarrow> bool" where
  "cinv L v D i x \<longleftrightarrow> list_ok x \<and> once x \<and> L \<subseteq> {..<NBUF} \<and>
     (\<forall>b < NBUF. buf_ok L v D i b (bcache x ! b) (slocks x (BufLock b))) \<and>
     (\<forall>n \<in> D. \<exists>b < NBUF. cached x b n \<and> b_dirty (bcache x ! b)) \<and>
     (\<forall>n. n \<notin> D \<longrightarrow> disk x (unat n) = v n)"

lemma cinvD:
  assumes "cinv L v D i x"
  shows "list_ok x" "once x" "L \<subseteq> {..<NBUF}" "length (bcache x) = NBUF"
    "b < NBUF \<Longrightarrow> buf_ok L v D i b (bcache x ! b) (slocks x (BufLock b))"
    "n \<in> D \<Longrightarrow> \<exists>b < NBUF. cached x b n \<and> b_dirty (bcache x ! b)" "n \<notin> D \<Longrightarrow> disk x (unat n) = v n"
  using assms by (simp_all add: cinv_def list_ok_def del: NBUF_def)

lemma onceD: "once x \<Longrightarrow> b < NBUF \<Longrightarrow> c < NBUF \<Longrightarrow> cached x b n \<Longrightarrow> cached x c n \<Longrightarrow> b = c"
  unfolding once_def by blast

lemma cinvI:
  assumes "list_ok x" "once x" "L \<subseteq> {..<NBUF}"
    "\<And>b. b < NBUF \<Longrightarrow> buf_ok L v D i b (bcache x ! b) (slocks x (BufLock b))"
    "\<And>n. n \<in> D \<Longrightarrow> \<exists>b < NBUF. cached x b n \<and> b_dirty (bcache x ! b)" "\<And>n. n \<notin> D \<Longrightarrow> disk x (unat n) = v n"
  shows "cinv L v D i x"
  using assms by (simp add: cinv_def del: NBUF_def)

text \<open>What the operations keep.\<close>

definition kept :: "kst \<Rightarrow> kst \<Rightarrow> bool" where
  "kept s t \<longleftrightarrow> alone t \<and> mypid t = mypid s \<and> klog (sh t) = klog (sh s) \<and> disksize (sh t) = disksize (sh s) \<and> lay (sh t) = lay (sh s)"

lemma kept_trans: "kept s t \<Longrightarrow> kept t u \<Longrightarrow> kept s u"
  by (simp add: kept_def)

lemma kept_refl: "alone s \<Longrightarrow> kept s s"
  by (simp add: kept_def)

lemma blist_length:
  assumes "blist x bs" and "set bs = {..<NBUF}"
  shows "length bs = NBUF"
proof -
  have "distinct bs" using assms(1) by (simp add: blist_def)
  then have "card (set bs) = length bs" by (rule distinct_card)
  then show ?thesis using assms(2) by simp
qed

lemma find_in:
  "List.find P bs = Some b \<Longrightarrow> b \<in> set bs \<and> P b"
  by (auto simp: find_Some_iff)

subsection \<open>Finding a buffer\<close>

lemma find_cached_Some:
  assumes "list_ok x" and "find_cached 1 n x = Some (Some b)"
  shows "b < NBUF \<and> cached x b n"
proof -
  obtain bs where bs: "blist x bs" "set bs = {..<NBUF}" using assms(1) by (auto simp: list_ok_def)
  have "List.find (\<lambda>b. bdev (bcache x ! b) = 1 \<and> blockno (bcache x ! b) = n) bs = Some b"
    using assms(2) find_cached_blist[OF bs(1), of 1 n] blist_length[OF bs] by simp
  from find_in[OF this] show ?thesis using bs(2) by (simp add: cached_def)
qed

lemma find_cached_cases:
  assumes "list_ok x"
  obtains b where "find_cached 1 n x = Some (Some b)" "b < NBUF" "cached x b n"
  | "find_cached 1 n x = Some None" "\<And>b. b < NBUF \<Longrightarrow> \<not> cached x b n"
proof -
  obtain bs where bs: "blist x bs" "set bs = {..<NBUF}" using assms(1) by (auto simp: list_ok_def)
  have e: "find_cached 1 n x = Some (List.find (\<lambda>b. bdev (bcache x ! b) = 1 \<and> blockno (bcache x ! b) = n) bs)"
    using find_cached_blist[OF bs(1), of 1 n] blist_length[OF bs] by simp
  show ?thesis
  proof (cases "List.find (\<lambda>b. bdev (bcache x ! b) = 1 \<and> blockno (bcache x ! b) = n) bs")
    case None
    then show ?thesis using e bs(2) that(2) by (auto simp: find_None_iff cached_def)
  next
    case (Some b)
    then show ?thesis using e find_cached_Some[OF assms] that(1) by simp
  qed
qed

lemma find_unused_ok:
  assumes "list_ok x" and "c < NBUF" "refcnt (bcache x ! c) = 0" "\<not> b_dirty (bcache x ! c)"
  shows "\<exists>b < NBUF. find_unused x = Some (Some b) \<and> refcnt (bcache x ! b) = 0 \<and> \<not> b_dirty (bcache x ! b)"
proof -
  obtain bs where bs: "blist x bs" "set bs = {..<NBUF}" using assms(1) by (auto simp: list_ok_def)
  have e: "find_unused x = Some (List.find (\<lambda>b. refcnt (bcache x ! b) = 0 \<and> \<not> b_dirty (bcache x ! b)) (rev bs))"
    using find_unused_blist[OF bs(1)] blist_length[OF bs] by simp
  show ?thesis
  proof (cases "List.find (\<lambda>b. refcnt (bcache x ! b) = 0 \<and> \<not> b_dirty (bcache x ! b)) (rev bs)")
    case None
    then show ?thesis using assms(2-4) bs(2) by (auto simp: find_None_iff)
  next
    case (Some b)
    from find_in[OF this] show ?thesis using e Some bs(2) by auto
  qed
qed

subsection \<open>Taking a buffer\<close>

definition grab :: "nat \<Rightarrow> (buf \<Rightarrow> buf) \<Rightarrow> kst \<Rightarrow> kst" where
  "grab b f s = s\<lparr>sh := (upd_buf b f (sh s))\<lparr>slocks := (slocks (sh s))(BufLock b := \<lparr>slocked = True, slpid = mypid s\<rparr>)\<rparr>\<rparr>"

lemma upd_buf_fields [simp]:
  "slocks (upd_buf b f x) = slocks x" "disk (upd_buf b f x) = disk x" "disksize (upd_buf b f x) = disksize x"
  "dwrites (upd_buf b f x) = dwrites x" "klog (upd_buf b f x) = klog x" "lay (upd_buf b f x) = lay x"
  "bc_next (upd_buf b f x) = bc_next x" "bc_prev (upd_buf b f x) = bc_prev x"
  "length (bcache (upd_buf b f x)) = length (bcache x)"
  "c < length (bcache x) \<Longrightarrow> bcache (upd_buf b f x) ! c = (if c = b then f (bcache x ! b) else bcache x ! c)"
  by (simp_all add: upd_buf_def nth_list_update)

lemma alone_upd [simp]: "alone (s\<lparr>sh := upd_buf b f (sh s)\<rparr>) = alone s" "mypid (s\<lparr>sh := upd_buf b f (sh s)\<rparr>) = mypid s"
  by (simp_all add: alone_def mypid_def)

lemma kept_grab: "alone s \<Longrightarrow> kept s (grab b f s)"
  by (simp add: kept_def grab_def alone_def mypid_def)

lemma bget_hit:
  assumes "alone s" and "find_cached 1 n (sh s) = Some (Some b)" and "\<not> slocked (slocks (sh s) (BufLock b))"
  shows "bget 1 n s = Ok b (grab b (\<lambda>r. r\<lparr>refcnt := refcnt r + 1\<rparr>) s)"
proof -
  let ?s = "s\<lparr>sh := upd_buf b (\<lambda>r. r\<lparr>refcnt := refcnt r + 1\<rparr>) (sh s)\<rparr>"
  have "acquiresleep (BufLock b) ?s = Ok () (grab b (\<lambda>r. r\<lparr>refcnt := refcnt r + 1\<rparr>) s)"
    using acquiresleep_alone[of ?s "BufLock b"] assms(1,3) by (simp add: grab_def)
  moreover have "others s = []" "held s = []" using assms(1) by (simp_all add: alone_def)
  moreover have "s\<lparr>sh := y, held := []\<rparr> = s\<lparr>sh := y\<rparr>" for y using \<open>held s = []\<close> by simp
  note e = this
  ultimately show ?thesis using assms(2) by (simp add: bget_def kdefs e)
qed

lemma bget_miss:
  assumes "alone s" and "find_cached 1 n (sh s) = Some None" and "find_unused (sh s) = Some (Some b)"
    and "\<not> slocked (slocks (sh s) (BufLock b))"
  shows "bget 1 n s = Ok b (grab b (\<lambda>r. r\<lparr>bdev := 1, blockno := n, b_valid := False, b_dirty := False, refcnt := 1\<rparr>) s)"
proof -
  let ?f = "\<lambda>r. r\<lparr>bdev := 1, blockno := n, b_valid := False, b_dirty := False, refcnt := 1\<rparr>"
  let ?s = "s\<lparr>sh := upd_buf b ?f (sh s)\<rparr>"
  have "acquiresleep (BufLock b) ?s = Ok () (grab b ?f s)"
    using acquiresleep_alone[of ?s "BufLock b"] assms(1,4) by (simp add: grab_def)
  moreover have "others s = []" "held s = []" using assms(1) by (simp_all add: alone_def)
  moreover have "s\<lparr>sh := y, held := []\<rparr> = s\<lparr>sh := y\<rparr>" for y using \<open>held s = []\<close> by simp
  note e = this
  ultimately show ?thesis using assms(2,3) by (simp add: bget_def kdefs e)
qed

text \<open>A read and a write of the disk.\<close>

lemma iderw_read:
  assumes "alone s" and "slocked (slocks (sh s) (BufLock b))" "slpid (slocks (sh s) (BufLock b)) = mypid s"
    and "b < length (bcache (sh s))" "\<not> b_valid (bcache (sh s) ! b)" "\<not> b_dirty (bcache (sh s) ! b)"
    and "bdev (bcache (sh s) ! b) = 1" "unat (blockno (bcache (sh s) ! b)) < disksize (sh s)"
  shows "iderw b s = Ok () (s\<lparr>sh := upd_buf b (\<lambda>r. r\<lparr>bdata := disk (sh s) (unat (blockno r)), b_valid := True\<rparr>) (sh s)\<rparr>)"
  using assms(2-) holdingsleep_alone[OF assms(1), of "BufLock b"]
  by (simp add: iderw_def kdefs upd_buf_def)

definition written :: "nat \<Rightarrow> shared \<Rightarrow> shared" where
  "written b x = disk_write (unat (blockno (bcache x ! b))) (bdata (bcache x ! b))
     (upd_buf b (\<lambda>r. r\<lparr>b_dirty := False, b_valid := True\<rparr>) x)"

lemma bwrite_alone:
  assumes "alone s" and "slocked (slocks (sh s) (BufLock b))" "slpid (slocks (sh s) (BufLock b)) = mypid s"
    and "b < length (bcache (sh s))" "bdev (bcache (sh s) ! b) = 1" "unat (blockno (bcache (sh s) ! b)) < disksize (sh s)"
  shows "bwrite b s = Ok () (s\<lparr>sh := written b (sh s)\<rparr>)"
proof -
  let ?s = "s\<lparr>sh := upd_buf b (\<lambda>r. r\<lparr>b_dirty := True\<rparr>) (sh s)\<rparr>"
  have "holdingsleep (BufLock b) ?s = Ok True ?s"
    using holdingsleep_alone[of ?s "BufLock b"] assms(1-3) by simp
  moreover have "holdingsleep (BufLock b) s = Ok True s"
    using holdingsleep_alone[of s "BufLock b"] assms(1-3) by simp
  ultimately show ?thesis using assms(4-)
    by (simp add: bwrite_def iderw_def kdefs written_def upd_buf_def disk_write_def)
qed

lemma brelse_alone:
  assumes "alone s" and "slocked (slocks (sh s) (BufLock b))" "slpid (slocks (sh s) (BufLock b)) = mypid s"
    and "b < length (bcache (sh s))" "refcnt (bcache (sh s) ! b) = 1"
  shows "brelse b s = Ok () (s\<lparr>sh := link_front b (unlink b (upd_buf b (\<lambda>r. r\<lparr>refcnt := 0\<rparr>)
    ((sh s)\<lparr>slocks := (slocks (sh s))(BufLock b := \<lparr>slocked = False, slpid = 0\<rparr>),
      ptable := map (wake (slock_addr (lay (sh s)) (BufLock b))) (ptable (sh s))\<rparr>)))\<rparr>)"
proof -
  have "holdingsleep (BufLock b) s = Ok True s"
    using holdingsleep_alone[of s "BufLock b"] assms(1-3) by simp
  moreover have "others s = []" "held s = []" using assms(1) by (simp_all add: alone_def)
  ultimately show ?thesis using assms(4,5)
    by (simp add: brelse_def releasesleep_alone[OF assms(1)] kdefs upd_buf_def)
qed

subsection \<open>Preservation\<close>

lemma list_ok_frame:
  assumes "list_ok x" and "length (bcache y) = length (bcache x)" "bc_next y = bc_next x" "bc_prev y = bc_prev x"
  shows "list_ok y"
  using assms by (simp add: list_ok_def blist_def)

text \<open>Some buffer is neither locked nor pinned.\<close>

lemma card_dirty:
  assumes "cinv L v D i x" and "finite D"
  shows "card {b. b < NBUF \<and> b_dirty (bcache x ! b)} \<le> card D"
proof (rule card_inj_on_le[OF _ _ assms(2)])
  show "inj_on (\<lambda>b. blockno (bcache x ! b)) {b. b < NBUF \<and> b_dirty (bcache x ! b)}"
    using assms(1) unfolding inj_on_def cinv_def once_def buf_ok_def cached_def by (simp del: NBUF_def)
  show "(\<lambda>b. blockno (bcache x ! b)) ` {b. b < NBUF \<and> b_dirty (bcache x ! b)} \<subseteq> D"
    using assms(1) unfolding cinv_def buf_ok_def by (auto simp del: NBUF_def)
qed

lemma clean_buffer:
  assumes "cinv L v D i x" and "finite D" and "card D + card L < NBUF"
  obtains b where "b < NBUF" "b \<notin> L" "\<not> b_dirty (bcache x ! b)"
proof -
  let ?A = "{b. b < NBUF \<and> b_dirty (bcache x ! b)}"
  have L: "L \<subseteq> {..<NBUF}" using assms(1) by (simp add: cinv_def)
  have "card (?A \<union> L) \<le> card ?A + card L" by (rule card_Un_le)
  then have "card (?A \<union> L) < card {..<NBUF}" using card_dirty[OF assms(1,2)] assms(3) by simp
  then have "\<not> {..<NBUF} \<subseteq> ?A \<union> L"
    using card_mono[of "?A \<union> L" "{..<NBUF}"] L finite_subset[OF L] by (auto simp del: NBUF_def)
  then show ?thesis using that by (auto simp del: NBUF_def)
qed

text \<open>All buffers but \<open>b\<close> as before.\<close>

definition but_buf :: "nat \<Rightarrow> shared \<Rightarrow> shared \<Rightarrow> bool" where
  "but_buf b x y \<longleftrightarrow> (\<forall>c < NBUF. c \<noteq> b \<longrightarrow> bcache y ! c = bcache x ! c \<and> slocks y (BufLock c) = slocks x (BufLock c))"

lemma but_bufD: "but_buf b x y \<Longrightarrow> c < NBUF \<Longrightarrow> c \<noteq> b \<Longrightarrow> bcache y ! c = bcache x ! c \<and> slocks y (BufLock c) = slocks x (BufLock c)"
  by (simp add: but_buf_def del: NBUF_def)

lemma once_but:
  assumes "once x" and "but_buf b x y" and "cached y b n" and "\<And>c. c < NBUF \<Longrightarrow> c \<noteq> b \<Longrightarrow> \<not> cached x c n"
  shows "once y"
  unfolding once_def
proof (intro allI impI)
  fix c d m assume h: "c < NBUF" "d < NBUF" "cached y c m \<and> cached y d m"
  have e: "cached y j k = cached x j k" if "j < NBUF" "j \<noteq> b" for j k
    using but_bufD[OF assms(2) that] by (simp add: cached_def)
  consider "c = b" "d = b" | "c = b" "d \<noteq> b" | "c \<noteq> b" "d = b" | "c \<noteq> b" "d \<noteq> b" by blast
  then show "c = d"
  proof cases
    case 2
    then have "m = n" using h assms(3) by (simp add: cached_def)
    then show ?thesis using 2 h e[OF h(2)] assms(4)[OF h(2)] by simp
  next
    case 3
    then have "m = n" using h assms(3) by (simp add: cached_def)
    then show ?thesis using 3 h e[OF h(1)] assms(4)[OF h(1)] by simp
  next
    case 4
    then show ?thesis using onceD[OF assms(1) h(1,2), of m] h e[OF h(1)] e[OF h(2)] by simp
  qed simp
qed

lemma cinv_lock:
  assumes c: "cinv L v D i x" and "b < NBUF" "b \<notin> L" and "list_ok y" and "but_buf b x y" and "disk y = disk x"
    and "slocks y (BufLock b) = \<lparr>slocked = True, slpid = i\<rparr>" and "cached y b n" "b_valid (bcache y ! b)" "refcnt (bcache y ! b) = 1"
    and "b_dirty (bcache y ! b) = b_dirty (bcache x ! b)" "b_dirty (bcache x ! b) \<Longrightarrow> cached x b n"
    and "\<And>c. c < NBUF \<Longrightarrow> c \<noteq> b \<Longrightarrow> \<not> cached x c n"
  shows "cinv (insert b L) v D i y"
proof (rule cinvI)
  show "once y" by (rule once_but[OF cinvD(2)[OF c] assms(5,8,13)])
  show "list_ok y" by (rule assms(4))
  show "insert b L \<subseteq> {..<NBUF}" using cinvD(3)[OF c] assms(2) by (simp del: NBUF_def)
  fix c assume cN: "c < NBUF"
  show "buf_ok (insert b L) v D i c (bcache y ! c) (slocks y (BufLock c))"
  proof (cases "c = b")
    case True
    have "b_dirty (bcache x ! b) \<Longrightarrow> n \<in> D" using cinvD(5)[OF c assms(2)] assms(12) by (simp add: buf_ok_def cached_def)
    then show ?thesis using True assms(7-11) by (simp add: buf_ok_def cached_def)
  next
    case False
    then show ?thesis using but_bufD[OF assms(5) cN False] cinvD(5)[OF c cN] by (simp add: buf_ok_def)
  qed
next
  fix m assume "m \<in> D"
  then obtain j where j: "j < NBUF" "cached x j m" "b_dirty (bcache x ! j)" using cinvD(6)[OF c] by blast
  show "\<exists>j < NBUF. cached y j m \<and> b_dirty (bcache y ! j)"
  proof (cases "j = b")
    case True
    then have "m = n" using j(2,3) assms(12) by (simp add: cached_def)
    then show ?thesis using True j(3) assms(2,8,11) by blast
  next
    case False
    then show ?thesis using j but_bufD[OF assms(5) j(1) False] by (intro exI[of _ j]) (simp add: cached_def)
  qed
next
  fix m assume "m \<notin> D"
  then show "disk y (unat m) = v m" using cinvD(7)[OF c] assms(6) by simp
qed

lemma grab_fields [simp]:
  "slocks (sh (grab b f s)) = (slocks (sh s))(BufLock b := \<lparr>slocked = True, slpid = mypid s\<rparr>)"
  "bcache (sh (grab b f s)) = bcache (upd_buf b f (sh s))" "disk (sh (grab b f s)) = disk (sh s)"
  "dwrites (sh (grab b f s)) = dwrites (sh s)" "bc_next (sh (grab b f s)) = bc_next (sh s)" "bc_prev (sh (grab b f s)) = bc_prev (sh s)"
  "disksize (sh (grab b f s)) = disksize (sh s)"
  by (simp_all add: grab_def)

lemma list_ok_upd [simp]: "list_ok (upd_buf b f x) = list_ok x"
  by (simp add: list_ok_def blist_def)

lemma list_ok_grab [simp]: "list_ok (sh (grab b f s)) = list_ok (sh s)"
  by (simp add: list_ok_def blist_def)

lemma bread_hit:
  assumes "alone s" and c: "cinv L v D (mypid s) (sh s)" and b: "find_cached 1 n (sh s) = Some (Some b)" "b < NBUF" "cached (sh s) b n"
    and "b \<notin> L"
  defines "t \<equiv> grab b (\<lambda>r. r\<lparr>refcnt := refcnt r + 1\<rparr>) s"
  shows "bread 1 n s = Ok b t" "cinv (insert b L) v D (mypid s) (sh t)"
    "blockno (bcache (sh t) ! b) = n" "bdata (bcache (sh t) ! b) = v n" "but_buf b (sh s) (sh t)"
proof -
  have l: "length (bcache (sh s)) = NBUF" "b < length (bcache (sh s))" using cinvD(4)[OF c] b(2) by (simp_all del: NBUF_def)
  have k: "buf_ok L v D (mypid s) b (bcache (sh s) ! b) (slocks (sh s) (BufLock b))" by (rule cinvD(5)[OF c b(2)])
  have g: "bget 1 n s = Ok b t" unfolding t_def
    using bget_hit[OF assms(1) b(1)] k assms(6) by (simp add: buf_ok_def)
  show "bread 1 n s = Ok b t" using g k b(3) l(2) by (simp add: bread_def kdefs t_def buf_ok_def cached_def)
  show n: "blockno (bcache (sh t) ! b) = n" "bdata (bcache (sh t) ! b) = v n" "but_buf b (sh s) (sh t)"
    using b(3) l k assms(6) by (simp_all add: t_def cached_def buf_ok_def but_buf_def del: NBUF_def)
  show "cinv (insert b L) v D (mypid s) (sh t)"
  proof (rule cinv_lock[OF c b(2) assms(6) _ n(3), of n])
    show "\<not> cached (sh s) d n" if "d < NBUF" "d \<noteq> b" for d using onceD[OF cinvD(2)[OF c] that(1) b(2) _ b(3)] that(2) by blast
    show "list_ok (sh t)" using cinvD(1)[OF c] by (simp add: t_def)
  qed (use k b(3) l assms(6) in \<open>simp_all add: t_def cached_def buf_ok_def\<close>)
qed

lemma bread_miss:
  assumes "alone s" and c: "cinv L v D (mypid s) (sh s)" and n: "find_cached 1 n (sh s) = Some None"
    and b: "find_unused (sh s) = Some (Some b)" "b < NBUF" "\<not> b_dirty (bcache (sh s) ! b)" and "b \<notin> L"
    and nc: "\<And>d. d < NBUF \<Longrightarrow> \<not> cached (sh s) d n" and "unat n < disksize (sh s)" and "n \<notin> D"
  defines "t \<equiv> grab b (\<lambda>r. r\<lparr>bdev := 1, blockno := n, b_valid := True, b_dirty := False, refcnt := 1, bdata := v n\<rparr>) s"
  shows "bread 1 n s = Ok b t" "cinv (insert b L) v D (mypid s) (sh t)"
    "blockno (bcache (sh t) ! b) = n" "bdata (bcache (sh t) ! b) = v n" "but_buf b (sh s) (sh t)"
proof -
  let ?f = "\<lambda>r. r\<lparr>bdev := 1, blockno := n, b_valid := False, b_dirty := False, refcnt := 1\<rparr>"
  have l: "length (bcache (sh s)) = NBUF" "b < length (bcache (sh s))" using cinvD(4)[OF c] b(2) by (simp_all del: NBUF_def)
  have k: "buf_ok L v D (mypid s) b (bcache (sh s) ! b) (slocks (sh s) (BufLock b))" by (rule cinvD(5)[OF c b(2)])
  have g: "bget 1 n s = Ok b (grab b ?f s)"
    using bget_miss[OF assms(1) n b(1)] k assms(7) by (simp add: buf_ok_def)
  have "iderw b (grab b ?f s) = Ok () ((grab b ?f s)\<lparr>sh := upd_buf b (\<lambda>r. r\<lparr>bdata := disk (sh (grab b ?f s)) (unat (blockno r)), b_valid := True\<rparr>) (sh (grab b ?f s))\<rparr>)"
    using kept_grab[OF assms(1), of b ?f] l(2) assms(9) by (intro iderw_read) (simp_all add: kept_def)
  also have "\<dots> = Ok () t"
    using l cinvD(7)[OF c assms(10)] by (auto simp: t_def grab_def upd_buf_def intro!: arg_cong[of _ _ "\<lambda>y. s\<lparr>sh := y\<rparr>"] shared.equality buf.equality arg_cong[of _ _ "\<lambda>r. (bcache (sh s))[b := r]"])
  finally show "bread 1 n s = Ok b t" using g l(2) by (simp add: bread_def kdefs)
  show r: "blockno (bcache (sh t) ! b) = n" "bdata (bcache (sh t) ! b) = v n" "but_buf b (sh s) (sh t)"
    using l by (simp_all add: t_def but_buf_def del: NBUF_def)
  show "cinv (insert b L) v D (mypid s) (sh t)"
  proof (rule cinv_lock[OF c b(2) assms(7) _ r(3), of n])
    show "\<not> cached (sh s) d n" if "d < NBUF" "d \<noteq> b" for d by (rule nc[OF that(1)])
    show "list_ok (sh t)" using cinvD(1)[OF c] by (simp add: t_def)
  qed (use k b(3) l in \<open>simp_all add: t_def cached_def buf_ok_def\<close>)
qed

lemma bread_ok:
  assumes "alone s" and c: "cinv L v D (mypid s) (sh s)" and "finite D" and "unat n < disksize (sh s)"
    and "\<And>b. b \<in> L \<Longrightarrow> blockno (bcache (sh s) ! b) \<noteq> n" and "n \<in> D \<or> card D + card L < NBUF"
  obtains b t where "bread 1 n s = Ok b t" "b < NBUF" "b \<notin> L" "kept s t" "cinv (insert b L) v D (mypid s) (sh t)"
    "blockno (bcache (sh t) ! b) = n" "bdata (bcache (sh t) ! b) = v n" "but_buf b (sh s) (sh t)"
    "dwrites (sh t) = dwrites (sh s)"
proof (rule find_cached_cases[OF cinvD(1)[OF c], of n])
  fix b assume b: "find_cached 1 n (sh s) = Some (Some b)" "b < NBUF" "cached (sh s) b n"
  have nb: "b \<notin> L" using assms(5) b(3) by (auto simp: cached_def)
  show thesis by (rule that[OF bread_hit(1)[OF assms(1) c b nb] b(2) nb kept_grab[OF assms(1)] bread_hit(2-)[OF assms(1) c b nb]]) simp
next
  assume n: "find_cached 1 n (sh s) = Some None" "\<And>b. b < NBUF \<Longrightarrow> \<not> cached (sh s) b n"
  have nd: "n \<notin> D" using cinvD(6)[OF c, of n] n(2) by blast
  then have "card D + card L < NBUF" using assms(6) by blast
  from clean_buffer[OF c assms(3) this] obtain d where d: "d < NBUF" "d \<notin> L" "\<not> b_dirty (bcache (sh s) ! d)" .
  have "refcnt (bcache (sh s) ! d) = 0" using cinvD(5)[OF c d(1)] d(2) by (simp add: buf_ok_def)
  from find_unused_ok[OF cinvD(1)[OF c] d(1) this d(3)]
  obtain b where b: "b < NBUF" "find_unused (sh s) = Some (Some b)" "refcnt (bcache (sh s) ! b) = 0" "\<not> b_dirty (bcache (sh s) ! b)"
    by blast
  have nb: "b \<notin> L" using cinvD(5)[OF c b(1)] b(3) by (auto simp: buf_ok_def)
  note m = bread_miss[OF assms(1) c n(1) b(2) b(1) b(4) nb n(2) assms(4) nd]
  show thesis by (rule that[OF m(1) b(1) nb kept_grab[OF assms(1)] m(2-)]) (assumption | rule grab_fields(4))+
qed

subsection \<open>Changing and writing a locked buffer\<close>

lemma setb_ok:
  assumes c: "cinv L v D (mypid s) (sh s)" and "alone s" and "b \<in> L"
  obtains t where "setb b (\<lambda>r. r\<lparr>bdata := f (bdata r)\<rparr>) s = Ok () t" "kept s t" "cinv L v D (mypid s) (sh t)"
    "blockno (bcache (sh t) ! b) = blockno (bcache (sh s) ! b)" "bdata (bcache (sh t) ! b) = f (bdata (bcache (sh s) ! b))"
    "but_buf b (sh s) (sh t)" "dwrites (sh t) = dwrites (sh s)"
proof
  let ?g = "\<lambda>r. r\<lparr>bdata := f (bdata r)\<rparr>"
  let ?t = "s\<lparr>sh := upd_buf b ?g (sh s)\<rparr>"
  have b: "b < NBUF" "b < length (bcache (sh s))" using cinvD(3,4)[OF c] assms(3) by (auto simp del: NBUF_def)
  have e: "bcache (sh ?t) ! d = (if d = b then ?g (bcache (sh s) ! d) else bcache (sh s) ! d)" if "d < NBUF" for d
    using cinvD(4)[OF c] that by (simp del: NBUF_def)
  then have ca: "cached (sh ?t) d n = cached (sh s) d n" "b_dirty (bcache (sh ?t) ! d) = b_dirty (bcache (sh s) ! d)" if "d < NBUF" for d n
    using that by (simp_all add: cached_def)
  show "setb b ?g s = Ok () ?t" by (simp add: kdefs)
  show "kept s ?t" using assms(2) by (simp add: kept_def)
  show "blockno (bcache (sh ?t) ! b) = blockno (bcache (sh s) ! b)" "bdata (bcache (sh ?t) ! b) = f (bdata (bcache (sh s) ! b))"
    "but_buf b (sh s) (sh ?t)" "dwrites (sh ?t) = dwrites (sh s)"
    using b(2) cinvD(4)[OF c] by (simp_all add: but_buf_def del: NBUF_def)
  show "cinv L v D (mypid s) (sh ?t)"
  proof (rule cinvI)
    show "once (sh ?t)" using cinvD(2)[OF c] ca(1) unfolding once_def by blast
    fix d assume d: "d < NBUF"
    show "buf_ok L v D (mypid s) d (bcache (sh ?t) ! d) (slocks (sh ?t) (BufLock d))"
      using cinvD(5)[OF c d] assms(3) unfolding e[OF d] by (auto simp: buf_ok_def)
  next
    fix n assume "n \<in> D"
    then show "\<exists>d < NBUF. cached (sh ?t) d n \<and> b_dirty (bcache (sh ?t) ! d)" using cinvD(6)[OF c] ca by blast
  qed (use cinvD(1,3,7)[OF c] in simp_all)
qed

lemma written_fields [simp]:
  "slocks (written b x) = slocks x" "disksize (written b x) = disksize x" "klog (written b x) = klog x" "lay (written b x) = lay x"
  "ptable (written b x) = ptable x" "disk (written b x) = (disk x)(unat (blockno (bcache x ! b)) := bdata (bcache x ! b))"
  "dwrites (written b x) = dwrites x @ [(unat (blockno (bcache x ! b)), bdata (bcache x ! b))]"
  "bcache (written b x) = bcache (upd_buf b (\<lambda>r. r\<lparr>b_dirty := False, b_valid := True\<rparr>) x)"
  "list_ok (written b x) = list_ok x"
  by (simp_all add: written_def disk_write_def list_ok_def blist_def)

lemma bwrite_ok:
  assumes c: "cinv L v D (mypid s) (sh s)" and "alone s" and "b \<in> L" and n: "blockno (bcache (sh s) ! b) = n" "unat n < disksize (sh s)"
    and d: "bdata (bcache (sh s) ! b) = d"
  obtains t where "bwrite b s = Ok () t" "kept s t" "cinv L (v(n := d)) (D - {n}) (mypid s) (sh t)"
    "blockno (bcache (sh t) ! b) = n" "bdata (bcache (sh t) ! b) = d"
    "but_buf b (sh s) (sh t)" "dwrites (sh t) = dwrites (sh s) @ [(unat n, d)]"
proof
  let ?t = "s\<lparr>sh := written b (sh s)\<rparr>"
  have b: "b < NBUF" "b < length (bcache (sh s))" using cinvD(3,4)[OF c] assms(3) by (auto simp del: NBUF_def)
  note k = cinvD(5)[OF c b(1)]
  have e: "bcache (sh ?t) ! j = (if j = b then (bcache (sh s) ! b)\<lparr>b_dirty := False, b_valid := True\<rparr> else bcache (sh s) ! j)" if "j < NBUF" for j
    using cinvD(4)[OF c] that by (simp del: NBUF_def)
  then have ca: "cached (sh ?t) j m = cached (sh s) j m" if "j < NBUF" for j m
    using that by (simp add: cached_def)
  have cb: "cached (sh s) b n" using k assms(3) n(1) by (simp add: buf_ok_def cached_def)
  have u: "j = b" if "j < NBUF" "cached (sh s) j n" for j by (rule onceD[OF cinvD(2)[OF c] that(1) b(1) that(2) cb])
  show "bwrite b s = Ok () ?t" using k assms(3) n b(2) by (intro bwrite_alone[OF assms(2)]) (simp_all add: buf_ok_def)
  show "kept s ?t" using assms(2) by (simp add: kept_def alone_def mypid_def)
  show "blockno (bcache (sh ?t) ! b) = n" "bdata (bcache (sh ?t) ! b) = d"
    "but_buf b (sh s) (sh ?t)" "dwrites (sh ?t) = dwrites (sh s) @ [(unat n, d)]"
    using b(2) cinvD(4)[OF c] n(1) d by (simp_all add: but_buf_def del: NBUF_def)
  show "cinv L (v(n := d)) (D - {n}) (mypid s) (sh ?t)"
  proof (rule cinvI)
    show "once (sh ?t)" using cinvD(2)[OF c] ca unfolding once_def by blast
    fix j assume j: "j < NBUF"
    have nj: "j \<noteq> b \<Longrightarrow> bdev (bcache (sh s) ! j) = 1 \<Longrightarrow> blockno (bcache (sh s) ! j) \<noteq> n"
      using u[OF j] by (auto simp: cached_def)
    show "buf_ok L (v(n := d)) (D - {n}) (mypid s) j (bcache (sh ?t) ! j) (slocks (sh ?t) (BufLock j))"
      using cinvD(5)[OF c j] assms(3) nj unfolding e[OF j] by (auto simp: buf_ok_def)
  next
    fix m assume m: "m \<in> D - {n}"
    then obtain j where j: "j < NBUF" "cached (sh s) j m" "b_dirty (bcache (sh s) ! j)" using cinvD(6)[OF c, of m] by blast
    then have "j \<noteq> b" using m n(1) by (auto simp: cached_def)
    then show "\<exists>j < NBUF. cached (sh ?t) j m \<and> b_dirty (bcache (sh ?t) ! j)" using j ca e by (intro exI[of _ j]) simp
  next
    fix m assume "m \<notin> D - {n}"
    moreover have "m \<noteq> n \<Longrightarrow> unat m \<noteq> unat n" by (simp add: word_unat_eq_iff)
    ultimately show "disk (sh ?t) (unat m) = (v(n := d)) m" using cinvD(7)[OF c, of m] n(1) d by (cases "m = n") auto
  qed (use cinvD(1,3)[OF c] in simp_all)
qed

subsection \<open>Releasing a buffer\<close>

lemma link_fields [simp]:
  "bcache (link_front b x) = bcache x" "slocks (link_front b x) = slocks x" "disk (link_front b x) = disk x"
  "dwrites (link_front b x) = dwrites x" "disksize (link_front b x) = disksize x" "klog (link_front b x) = klog x" "lay (link_front b x) = lay x"
  "bcache (unlink b x) = bcache x" "slocks (unlink b x) = slocks x" "disk (unlink b x) = disk x"
  "dwrites (unlink b x) = dwrites x" "disksize (unlink b x) = disksize x" "klog (unlink b x) = klog x" "lay (unlink b x) = lay x"
  by (simp_all add: link_front_def unlink_def Let_def)

text \<open>Releasing moves the buffer to the front of the list of all buffers.\<close>

lemma list_ok_front:
  assumes "list_ok x" and "b < NBUF"
  shows "list_ok (link_front b (unlink b x))"
proof -
  obtain bs where bs: "blist x bs" "set bs = {..<NBUF}" using assms(1) unfolding list_ok_def by blast
  then have "b \<in> set bs" using assms(2) by (simp del: NBUF_def)
  then obtain ps qs where e: "bs = ps @ b # qs" by (auto dest: split_list)
  have d: "distinct (NBUF # ps @ b # qs)" using bs(1) e by (simp add: blist_def)
  have "blist (link_front b (unlink b x)) (b # ps @ qs)"
    using d by (intro blist_front blist_unlink) (auto simp: bs(1)[unfolded e])
  moreover have "set (b # ps @ qs) = {..<NBUF}" using bs(2) e by auto
  ultimately show ?thesis using assms(1) unfolding list_ok_def by auto
qed

lemma brelse_ok:
  assumes c: "cinv L v D (mypid s) (sh s)" and "alone s" and "b \<in> L" and n: "bdata (bcache (sh s) ! b) = v (blockno (bcache (sh s) ! b))"
  obtains t where "brelse b s = Ok () t" "kept s t" "cinv (L - {b}) v D (mypid s) (sh t)"
    "but_buf b (sh s) (sh t)" "dwrites (sh t) = dwrites (sh s)"
proof
  let ?x = "(sh s)\<lparr>slocks := (slocks (sh s))(BufLock b := \<lparr>slocked = False, slpid = 0\<rparr>),
      ptable := map (wake (slock_addr (lay (sh s)) (BufLock b))) (ptable (sh s))\<rparr>"
  let ?t = "s\<lparr>sh := link_front b (unlink b (upd_buf b (\<lambda>r. r\<lparr>refcnt := 0\<rparr>) ?x))\<rparr>"
  have b: "b < NBUF" "b < length (bcache (sh s))" using cinvD(3,4)[OF c] assms(3) by (auto simp del: NBUF_def)
  note k = cinvD(5)[OF c b(1)]
  have e: "bcache (sh ?t) ! j = (if j = b then (bcache (sh s) ! b)\<lparr>refcnt := 0\<rparr> else bcache (sh s) ! j)" if "j < NBUF" for j
    using cinvD(4)[OF c] that by (simp del: NBUF_def)
  then have ca: "cached (sh ?t) j m = cached (sh s) j m" "b_dirty (bcache (sh ?t) ! j) = b_dirty (bcache (sh s) ! j)" if "j < NBUF" for j m
    using that by (simp_all add: cached_def)
  show "brelse b s = Ok () ?t" using k assms(3) b(2) by (intro brelse_alone[OF assms(2)]) (simp_all add: buf_ok_def)
  show "kept s ?t" using assms(2) by (auto simp: kept_def alone_def mypid_def wake_def)
  show "but_buf b (sh s) (sh ?t)" "dwrites (sh ?t) = dwrites (sh s)"
    using b(2) cinvD(4)[OF c] by (simp_all add: but_buf_def del: NBUF_def)
  show "cinv (L - {b}) v D (mypid s) (sh ?t)"
  proof (rule cinvI)
    have "list_ok ?x" using cinvD(1)[OF c] by (rule list_ok_frame) simp_all
    then show "list_ok (sh ?t)" using b(1) by (simp add: list_ok_front del: NBUF_def)
    show "once (sh ?t)" using cinvD(2)[OF c] ca(1) unfolding once_def by blast
    show "L - {b} \<subseteq> {..<NBUF}" using cinvD(3)[OF c] by blast
    fix j assume j: "j < NBUF"
    show "buf_ok (L - {b}) v D (mypid s) j (bcache (sh ?t) ! j) (slocks (sh ?t) (BufLock j))"
      using cinvD(5)[OF c j] assms(3) n unfolding e[OF j] by (auto simp: buf_ok_def)
  next
    fix m assume "m \<in> D"
    then show "\<exists>j < NBUF. cached (sh ?t) j m \<and> b_dirty (bcache (sh ?t) ! j)" using cinvD(6)[OF c] ca by blast
  qed (use cinvD(7)[OF c] in simp)
qed

end
