(* ===== verification/Log_Properties.thy ===== *)
theory Log_Properties
  imports Log Bio_Properties
begin

text \<open>
  The write-ahead log makes a group of block writes atomic: whenever the machine stops during
  \<open>commit\<close>, the recovery at the next boot leaves either all home blocks as they were or all of
  them updated.
\<close>

section \<open>Words in a block\<close>

lemma length_put32 [simp]: "off + 4 \<le> length d \<Longrightarrow> length (put32 d off w) = length d"
  by (simp add: put32_def)

lemma get32_put32: "off + 4 \<le> length d \<Longrightarrow> get32 (put32 d off w) off = w"
  by (simp add: get32_def put32_def)

lemma get32_put32_other:
  assumes "off + 4 \<le> length d" and "at + 4 \<le> off \<or> off + 4 \<le> at"
  shows "get32 (put32 d off w) at = get32 d at"
proof -
  have "take 4 (drop at (take off d @ split32 w @ drop (off + 4) d)) = take 4 (drop at d)"
    using assms(2)
  proof
    assume "at + 4 \<le> off"
    then have "4 \<le> off - at" "at \<le> off" by linarith+
    then show ?thesis using assms(1) by (simp add: drop_take min_def)
  next
    assume "off + 4 \<le> at"
    then have "drop at (take off d @ split32 w @ drop (off + 4) d) = drop at d" using assms(1) by (simp add: min_def)
    then show ?thesis by simp
  qed
  then show ?thesis by (simp add: get32_def put32_def)
qed

text \<open>The header block after the first \<open>k\<close> block numbers are in.\<close>

primrec head_bytes :: "u32 \<Rightarrow> u32 list \<Rightarrow> u8 list \<Rightarrow> nat \<Rightarrow> u8 list" where
  "head_bytes n bl d 0 = put32 d 0 n"
| "head_bytes n bl d (Suc k) = put32 (head_bytes n bl d k) (4 + 4 * k) (bl ! k)"

lemma length_head_bytes [simp]: "length d = 512 \<Longrightarrow> k \<le> 30 \<Longrightarrow> length (head_bytes n bl d k) = 512"
  by (induction k) simp_all

lemma head_count: "length d = 512 \<Longrightarrow> k \<le> 30 \<Longrightarrow> get32 (head_bytes n bl d k) 0 = n"
  by (induction k) (simp_all add: get32_put32 get32_put32_other)

lemma head_block: "length d = 512 \<Longrightarrow> k \<le> 30 \<Longrightarrow> i < k \<Longrightarrow> get32 (head_bytes n bl d k) (4 + 4 * i) = bl ! i"
  by (induction k) (auto simp: get32_put32 get32_put32_other less_Suc_eq)

section \<open>Sequences of block writes\<close>

definition puts :: "(u32 \<times> u8 list) list \<Rightarrow> (u32 \<Rightarrow> u8 list) \<Rightarrow> u32 \<Rightarrow> u8 list" where
  "puts ws v = foldl (\<lambda>v (n, d). v(n := d)) v ws"

lemma puts_simps [simp]: "puts [] v = v" "puts (ws @ [(n, d)]) v = (puts ws v)(n := d)"
  by (simp_all add: puts_def)

lemma puts_append: "puts (ws @ us) v = puts us (puts ws v)"
  by (simp add: puts_def)

lemma puts_notin: "n \<notin> fst ` set ws \<Longrightarrow> puts ws v n = v n"
  by (induction ws rule: rev_induct) (auto simp: puts_append puts_def)

lemma puts_in: "distinct (map fst ws) \<Longrightarrow> (n, d) \<in> set ws \<Longrightarrow> puts ws v n = d"
proof (induction ws rule: rev_induct)
  case (snoc w ws)
  obtain m e where w: "w = (m, e)" by force
  show ?case using snoc w by (force simp: image_iff)
qed simp

definition at_disk :: "(u32 \<times> u8 list) list \<Rightarrow> (nat \<times> u8 list) list" where
  "at_disk ws = map (\<lambda>(n, d). (unat n, d)) ws"

lemma at_disk_append [simp]: "at_disk (xs @ ys) = at_disk xs @ at_disk ys" "at_disk [] = []" "at_disk ((n, d) # xs) = (unat n, d) # at_disk xs"
  by (simp_all add: at_disk_def)

lemma take_at_disk: "take k (at_disk ws) = at_disk (take k ws)"
  by (simp add: at_disk_def take_map)

text \<open>The writes of a commit: to the log, and home.\<close>

definition log_writes :: "u32 \<Rightarrow> u32 list \<Rightarrow> (u32 \<Rightarrow> u8 list) \<Rightarrow> nat \<Rightarrow> (u32 \<times> u8 list) list" where
  "log_writes ls bl v k = map (\<lambda>j. (ls + of_nat j + 1, v (bl ! j))) [0..<k]"

definition home_writes :: "u32 \<Rightarrow> u32 list \<Rightarrow> (u32 \<Rightarrow> u8 list) \<Rightarrow> nat \<Rightarrow> (u32 \<times> u8 list) list" where
  "home_writes ls bl v k = map (\<lambda>j. (bl ! j, v (ls + of_nat j + 1))) [0..<k]"

lemma writes_simps [simp]:
  "log_writes ls bl v 0 = []" "log_writes ls bl v (Suc k) = log_writes ls bl v k @ [(ls + of_nat k + 1, v (bl ! k))]"
  "home_writes ls bl v 0 = []" "home_writes ls bl v (Suc k) = home_writes ls bl v k @ [(bl ! k, v (ls + of_nat k + 1))]"
  by (simp_all add: log_writes_def home_writes_def)

section \<open>The area of the log\<close>

definition log_area :: "u32 \<Rightarrow> u32 set" where
  "log_area ls = (\<lambda>j. ls + of_nat j) ` {..LOGSIZE}"

lemma in_log_area: "j < LOGSIZE \<Longrightarrow> ls + of_nat j + 1 \<in> log_area ls" "ls \<in> log_area ls"
proof -
  show "ls + of_nat j + 1 \<in> log_area ls" if "j < LOGSIZE"
    unfolding log_area_def using that by (intro image_eqI[of _ _ "Suc j"]) (simp_all add: algebra_simps)
  show "ls \<in> log_area ls" unfolding log_area_def by (intro image_eqI[of _ _ 0]) simp_all
qed

lemma log_slots:
  assumes "i \<le> LOGSIZE" "j \<le> LOGSIZE" "(ls :: u32) + of_nat i = ls + of_nat j"
  shows "i = j"
proof -
  have "(of_nat i :: u32) = of_nat j" using assms(3) by simp
  then have "unat (of_nat i :: u32) = unat (of_nat j :: u32)" by simp
  then show ?thesis using assms(1,2) by (simp add: unat_of_nat)
qed

lemma log_range:
  assumes "unat ls + LOGSIZE < N" "N \<le> 2 ^ 32" and "n \<in> log_area ls"
  shows "unat n < N"
proof -
  obtain j where j: "n = ls + of_nat j" "j \<le> LOGSIZE" using assms(3) by (auto simp: log_area_def)
  have "unat (of_nat j :: u32) = j" using j(2) by (simp add: unat_of_nat)
  then have "unat n \<le> unat ls + j" using j(1) by (simp add: unat_word_ariths)
  then show ?thesis using assms(1) j(2) by linarith
qed

section \<open>Loops over the log\<close>

lemma log_loop_end: "\<not> int tail < lh_n (klog (sh s)) \<Longrightarrow> log_loop body tail s = Ok () s"
  by (subst log_loop.simps) (simp add: kdefs)

lemma log_loop_step:
  assumes "int tail < lh_n (klog (sh s))" "tail < LOGSIZE" "body tail s = Ok u t"
  shows "log_loop body tail s = log_loop body (tail + 1) t"
  using assms by (subst log_loop.simps) (simp add: kdefs)

lemma log_loop_ok:
  assumes "n \<le> LOGSIZE" and P: "P tail s" and "tail \<le> n"
    and n: "\<And>i t. P i t \<Longrightarrow> lh_n (klog (sh t)) = int n"
    and step: "\<And>i t. i < n \<Longrightarrow> P i t \<Longrightarrow> \<exists>u. body i t = Ok () u \<and> P (Suc i) u"
  shows "\<exists>t. log_loop body tail s = Ok () t \<and> P n t"
  using P \<open>tail \<le> n\<close>
proof (induction "n - tail" arbitrary: tail s)
  case 0
  then show ?case using n[OF 0(2)] by (intro exI[of _ s]) (simp add: log_loop_end)
next
  case (Suc k)
  then have "tail < n" by linarith
  then obtain u where u: "body tail s = Ok () u" "P (Suc tail) u" using step[OF _ Suc.prems(1)] by blast
  have "log_loop body tail s = log_loop body (tail + 1) u"
    using log_loop_step[of tail s body "()" u] n[OF Suc.prems(1)] u(1) \<open>tail < n\<close> assms(1) by simp
  then show ?case using Suc.hyps(1)[of "Suc tail" u] Suc.hyps(2) u(2) \<open>tail < n\<close> by simp
qed

subsection \<open>Copying to the log\<close>

text \<open>A transaction of the blocks \<open>bl\<close>, in a log that starts at \<open>ls\<close>.\<close>

definition log_set :: "u32 \<Rightarrow> u32 list \<Rightarrow> kst \<Rightarrow> bool" where
  "log_set ls bl s \<longleftrightarrow> log_start (klog (sh s)) = ls \<and> log_dev (klog (sh s)) = 1 \<and> lh_n (klog (sh s)) = int (length bl) \<and>
     length bl \<le> LOGSIZE \<and> length (lh_block (klog (sh s))) = LOGSIZE \<and> take (length bl) (lh_block (klog (sh s))) = bl \<and>
     unat ls + LOGSIZE < disksize (sh s) \<and> disksize (sh s) \<le> 2 ^ 32 \<and>
     (\<forall>n \<in> set bl. unat n < disksize (sh s) \<and> n \<notin> log_area ls)"

lemma log_set_kept: "log_set ls bl s \<Longrightarrow> kept s t \<Longrightarrow> log_set ls bl t"
  by (simp add: log_set_def kept_def)

lemma log_set_nth:
  assumes "log_set ls bl s" and "i < length bl"
  shows "lh_block (klog (sh s)) ! i = bl ! i" "bl ! i \<notin> log_area ls" "unat (bl ! i) < disksize (sh s)" "i < LOGSIZE"
    "ls + of_nat i + 1 \<in> log_area ls" "unat (ls + of_nat i + 1) < disksize (sh s)"
proof -
  have l: "take (length bl) (lh_block (klog (sh s))) = bl" "length bl \<le> LOGSIZE" using assms(1) by (simp_all add: log_set_def)
  show "lh_block (klog (sh s)) ! i = bl ! i" using assms(2) nth_take[of i "length bl" "lh_block (klog (sh s))"] l(1) by simp
  show i: "i < LOGSIZE" using assms(2) l(2) by linarith
  show "bl ! i \<notin> log_area ls" "unat (bl ! i) < disksize (sh s)" using assms by (simp_all add: log_set_def)
  show "ls + of_nat i + 1 \<in> log_area ls" by (rule in_log_area(1)[OF i])
  then show "unat (ls + of_nat i + 1) < disksize (sh s)"
    using assms(1) by (intro log_range[of ls]) (simp_all add: log_set_def del: LOGSIZE_def)
qed

lemma copy_to_log_ok:
  assumes a: "alone s" and g: "log_set ls bl s" and c: "cinv {} v D (mypid s) (sh s)"
    and D: "finite D" "card D < NBUF" "D \<inter> log_area ls = {}" and i: "i < length bl" "bl ! i \<in> D"
  shows "\<exists>t. copy_to_log i s = Ok () t \<and> kept s t \<and>
    cinv {} (v(ls + of_nat i + 1 := v (bl ! i))) D (mypid s) (sh t) \<and>
    dwrites (sh t) = dwrites (sh s) @ [(unat (ls + of_nat i + 1), v (bl ! i))]"
proof -
  let ?n = "ls + of_nat i + 1" and ?m = "bl ! i"
  note g' = log_set_nth[OF g i(1)]
  have nm: "?n \<noteq> ?m" "?n \<notin> D" using g'(2,5) D(3) by auto
  obtain b1 s1 where s1: "bread 1 ?n s = Ok b1 s1" "b1 < NBUF" "kept s s1" "cinv {b1} v D (mypid s) (sh s1)"
    "blockno (bcache (sh s1) ! b1) = ?n" "bdata (bcache (sh s1) ! b1) = v ?n" "dwrites (sh s1) = dwrites (sh s)"
    by (rule bread_ok[OF a c D(1) g'(6)]) (use D(2) in auto)
  have k1: "alone s1" "mypid s1 = mypid s" "disksize (sh s1) = disksize (sh s)" using s1(3) by (simp_all add: kept_def)
  have c1: "cinv {b1} v D (mypid s1) (sh s1)" using s1(4) k1(2) by simp
  obtain b2 s2 where s2: "bread 1 ?m s1 = Ok b2 s2" "b2 < NBUF" "b2 \<noteq> b1" "kept s1 s2" "cinv {b2, b1} v D (mypid s) (sh s2)"
    "blockno (bcache (sh s2) ! b2) = ?m" "bdata (bcache (sh s2) ! b2) = v ?m" "but_buf b2 (sh s1) (sh s2)" "dwrites (sh s2) = dwrites (sh s)"
    by (rule bread_ok[OF k1(1) c1 D(1), of ?m]) (use k1 g'(3) s1(5,7) nm(1) i(2) in auto)
  have k2: "alone s2" "mypid s2 = mypid s" "disksize (sh s2) = disksize (sh s)" using s2(4) k1 by (simp_all add: kept_def)
  have c2: "cinv {b2, b1} v D (mypid s2) (sh s2)" using s2(5) k2(2) by simp
  have b12: "blockno (bcache (sh s2) ! b1) = ?n" using but_bufD[OF s2(8) s1(2)] s2(3) s1(5) by simp
  obtain s3 where s3: "setb b1 (\<lambda>r. r\<lparr>bdata := v ?m\<rparr>) s2 = Ok () s3" "kept s2 s3" "cinv {b2, b1} v D (mypid s) (sh s3)"
    "blockno (bcache (sh s3) ! b1) = ?n" "bdata (bcache (sh s3) ! b1) = v ?m" "but_buf b1 (sh s2) (sh s3)" "dwrites (sh s3) = dwrites (sh s)"
    by (rule setb_ok[OF c2 k2(1), of b1 "\<lambda>_. v ?m"]) (use k2(2) b12 s2(9) in auto)
  have k3: "alone s3" "mypid s3 = mypid s" "disksize (sh s3) = disksize (sh s)" using s3(2) k2 by (simp_all add: kept_def)
  have c3: "cinv {b2, b1} v D (mypid s3) (sh s3)" using s3(3) k3(2) by simp
  let ?v = "v(?n := v ?m)"
  have dD: "D - {?n} = D" using nm(2) by simp
  obtain s4 where s4: "bwrite b1 s3 = Ok () s4" "kept s3 s4" "cinv {b2, b1} ?v D (mypid s) (sh s4)"
    "blockno (bcache (sh s4) ! b1) = ?n" "bdata (bcache (sh s4) ! b1) = v ?m" "but_buf b1 (sh s3) (sh s4)"
    "dwrites (sh s4) = dwrites (sh s) @ [(unat ?n, v ?m)]"
    by (rule bwrite_ok[OF c3 k3(1) _ s3(4) _ s3(5)]) (use k3 g'(6) s3(7) dD in auto)
  have k4: "alone s4" "mypid s4 = mypid s" using s4(2) k3 by (simp_all add: kept_def)
  have c4: "cinv {b2, b1} ?v D (mypid s4) (sh s4)" using s4(3) k4(2) by simp
  have b24: "bcache (sh s4) ! b2 = bcache (sh s2) ! b2"
    using but_bufD[OF s4(6) s2(2,3)] but_bufD[OF s3(6) s2(2,3)] by simp
  obtain s5 where s5: "brelse b2 s4 = Ok () s5" "kept s4 s5" "cinv ({b2, b1} - {b2}) ?v D (mypid s) (sh s5)"
    "but_buf b2 (sh s4) (sh s5)" "dwrites (sh s5) = dwrites (sh s4)"
    by (rule brelse_ok[OF c4 k4(1), of b2]) (use b24 s2(6,7) nm(1) k4(2) in auto)
  have k5: "alone s5" "mypid s5 = mypid s" using s5(2) k4 by (simp_all add: kept_def)
  have c5: "cinv {b1} ?v D (mypid s5) (sh s5)" using s5(3) k5(2) s2(3) by (simp add: insert_Diff_if)
  have b15: "bcache (sh s5) ! b1 = bcache (sh s4) ! b1" using but_bufD[OF s5(4) s1(2)] s2(3) by simp
  obtain s6 where s6: "brelse b1 s5 = Ok () s6" "kept s5 s6" "cinv {} ?v D (mypid s) (sh s6)" "dwrites (sh s6) = dwrites (sh s5)"
    by (rule brelse_ok[OF c5 k5(1), of b1]) (use b15 s4(4,5) k5(2) in auto)
  have "kept s s6" using s1(3) s2(4) s3(2) s4(2) s5(2) s6(2) by (simp add: kept_def)
  moreover have "copy_to_log i s = Ok () s6"
    using g g'(1) s1(1) s2(1,7) s3(1) s4(1) s5(1) s6(1) by (simp add: copy_to_log_def kdefs log_set_def)
  ultimately show ?thesis using s6(3,4) s5(5) s4(7) by auto
qed

lemma fst_writes:
  "fst ` set (log_writes ls bl v k) = (\<lambda>j. ls + of_nat j + 1) ` {..<k}" "fst ` set (home_writes ls bl v k) = (\<lambda>j. bl ! j) ` {..<k}"
  by (simp_all add: log_writes_def home_writes_def image_image atLeast0LessThan)

lemma write_log_ok:
  assumes a: "alone s" and g: "log_set ls bl s" and c: "cinv {} v D (mypid s) (sh s)"
    and D: "finite D" "card D < NBUF" "D \<inter> log_area ls = {}" "set bl \<subseteq> D"
  shows "\<exists>t. write_log s = Ok () t \<and> kept s t \<and>
    cinv {} (puts (log_writes ls bl v (length bl)) v) D (mypid s) (sh t) \<and>
    dwrites (sh t) = dwrites (sh s) @ at_disk (log_writes ls bl v (length bl))"
proof -
  let ?P = "\<lambda>i t. kept s t \<and> cinv {} (puts (log_writes ls bl v i) v) D (mypid s) (sh t) \<and>
    dwrites (sh t) = dwrites (sh s) @ at_disk (log_writes ls bl v i)"
  have "\<exists>t. log_loop copy_to_log 0 s = Ok () t \<and> ?P (length bl) t"
  proof (rule log_loop_ok)
    show "length bl \<le> LOGSIZE" using g by (simp add: log_set_def)
    show "?P 0 s" using kept_refl[OF a] c by simp
    show "lh_n (klog (sh t)) = int (length bl)" if "?P i t" for i t using that g by (simp add: kept_def log_set_def)
    fix i t assume i: "i < length bl" and t: "?P i t"
    have k: "alone t" "mypid t = mypid s" using t by (simp_all add: kept_def)
    have m: "bl ! i \<in> D" using i D(4) by (simp add: subset_iff)
    have "bl ! i \<notin> fst ` set (log_writes ls bl v i)"
      unfolding fst_writes using log_set_nth(2,4)[OF g i] in_log_area(1)[of _ ls] by force
    then have e: "puts (log_writes ls bl v i) v (bl ! i) = v (bl ! i)" by (rule puts_notin)
    have "\<exists>u. copy_to_log i t = Ok () u \<and> kept t u \<and>
      cinv {} ((puts (log_writes ls bl v i) v)(ls + of_nat i + 1 := puts (log_writes ls bl v i) v (bl ! i))) D (mypid t) (sh u) \<and>
      dwrites (sh u) = dwrites (sh t) @ [(unat (ls + of_nat i + 1), puts (log_writes ls bl v i) v (bl ! i))]"
      using t k by (intro copy_to_log_ok log_set_kept[OF g] D(1-3) i m) simp_all
    then show "\<exists>u. copy_to_log i t = Ok () u \<and> ?P (Suc i) u" using t k kept_trans[of s t] unfolding e by fastforce
  qed simp
  then show ?thesis by (simp add: write_log_def)
qed

subsection \<open>Installing\<close>

lemma install_block_ok:
  assumes a: "alone s" and g: "log_set ls bl s" and c: "cinv {} v D (mypid s) (sh s)"
    and D: "finite D" "card D < NBUF" "D \<inter> log_area ls = {}" and i: "i < length bl" "bl ! i \<in> D \<or> card D + 1 < NBUF"
  shows "\<exists>t. install_block i s = Ok () t \<and> kept s t \<and>
    cinv {} (v(bl ! i := v (ls + of_nat i + 1))) (D - {bl ! i}) (mypid s) (sh t) \<and>
    dwrites (sh t) = dwrites (sh s) @ [(unat (bl ! i), v (ls + of_nat i + 1))]"
proof -
  let ?n = "ls + of_nat i + 1" and ?m = "bl ! i"
  note g' = log_set_nth[OF g i(1)]
  have nm: "?n \<noteq> ?m" "?n \<notin> D" using g'(2,5) D(3) by auto
  obtain b1 s1 where s1: "bread 1 ?n s = Ok b1 s1" "b1 < NBUF" "kept s s1" "cinv {b1} v D (mypid s) (sh s1)"
    "blockno (bcache (sh s1) ! b1) = ?n" "bdata (bcache (sh s1) ! b1) = v ?n" "dwrites (sh s1) = dwrites (sh s)"
    by (rule bread_ok[OF a c D(1) g'(6)]) (use D(2) in auto)
  have k1: "alone s1" "mypid s1 = mypid s" "disksize (sh s1) = disksize (sh s)" using s1(3) by (simp_all add: kept_def)
  have c1: "cinv {b1} v D (mypid s1) (sh s1)" using s1(4) k1(2) by simp
  obtain b2 s2 where s2: "bread 1 ?m s1 = Ok b2 s2" "b2 < NBUF" "b2 \<noteq> b1" "kept s1 s2" "cinv {b2, b1} v D (mypid s) (sh s2)"
    "blockno (bcache (sh s2) ! b2) = ?m" "but_buf b2 (sh s1) (sh s2)" "dwrites (sh s2) = dwrites (sh s)"
    by (rule bread_ok[OF k1(1) c1 D(1), of ?m]) (use k1 g'(3) s1(5,7) nm(1) i(2) in auto)
  have k2: "alone s2" "mypid s2 = mypid s" "disksize (sh s2) = disksize (sh s)" using s2(4) k1 by (simp_all add: kept_def)
  have c2: "cinv {b2, b1} v D (mypid s2) (sh s2)" using s2(5) k2(2) by simp
  have b12: "bcache (sh s2) ! b1 = bcache (sh s1) ! b1" using but_bufD[OF s2(7) s1(2)] s2(3) by simp
  obtain s3 where s3: "setb b2 (\<lambda>r. r\<lparr>bdata := v ?n\<rparr>) s2 = Ok () s3" "kept s2 s3" "cinv {b2, b1} v D (mypid s) (sh s3)"
    "blockno (bcache (sh s3) ! b2) = ?m" "bdata (bcache (sh s3) ! b2) = v ?n" "but_buf b2 (sh s2) (sh s3)" "dwrites (sh s3) = dwrites (sh s)"
    by (rule setb_ok[OF c2 k2(1), of b2 "\<lambda>_. v ?n"]) (use k2(2) s2(6,8) in auto)
  have k3: "alone s3" "mypid s3 = mypid s" "disksize (sh s3) = disksize (sh s)" using s3(2) k2 by (simp_all add: kept_def)
  have c3: "cinv {b2, b1} v D (mypid s3) (sh s3)" using s3(3) k3(2) by simp
  let ?v = "v(?m := v ?n)"
  obtain s4 where s4: "bwrite b2 s3 = Ok () s4" "kept s3 s4" "cinv {b2, b1} ?v (D - {?m}) (mypid s) (sh s4)"
    "blockno (bcache (sh s4) ! b2) = ?m" "bdata (bcache (sh s4) ! b2) = v ?n" "but_buf b2 (sh s3) (sh s4)"
    "dwrites (sh s4) = dwrites (sh s) @ [(unat ?m, v ?n)]"
    by (rule bwrite_ok[OF c3 k3(1) _ s3(4) _ s3(5)]) (use k3 g'(3) s3(7) in auto)
  have k4: "alone s4" "mypid s4 = mypid s" using s4(2) k3 by (simp_all add: kept_def)
  have c4: "cinv {b2, b1} ?v (D - {?m}) (mypid s4) (sh s4)" using s4(3) k4(2) by simp
  have b14: "bcache (sh s4) ! b1 = bcache (sh s1) ! b1"
    using but_bufD[OF s4(6) s1(2)] but_bufD[OF s3(6) s1(2)] s2(3) b12 by simp
  obtain s5 where s5: "brelse b1 s4 = Ok () s5" "kept s4 s5" "cinv ({b2, b1} - {b1}) ?v (D - {?m}) (mypid s) (sh s5)"
    "but_buf b1 (sh s4) (sh s5)" "dwrites (sh s5) = dwrites (sh s4)"
    by (rule brelse_ok[OF c4 k4(1), of b1]) (use b14 s1(5,6) nm(1) k4(2) in auto)
  have k5: "alone s5" "mypid s5 = mypid s" using s5(2) k4 by (simp_all add: kept_def)
  have c5: "cinv {b2} ?v (D - {?m}) (mypid s5) (sh s5)" using s5(3) k5(2) s2(3) by (simp add: insert_Diff_if)
  have b25: "bcache (sh s5) ! b2 = bcache (sh s4) ! b2" using but_bufD[OF s5(4) s2(2,3)] by simp
  obtain s6 where s6: "brelse b2 s5 = Ok () s6" "kept s5 s6" "cinv {} ?v (D - {?m}) (mypid s) (sh s6)" "dwrites (sh s6) = dwrites (sh s5)"
    by (rule brelse_ok[OF c5 k5(1), of b2]) (use b25 s4(4,5) k5(2) in auto)
  have "kept s s6" using s1(3) s2(4) s3(2) s4(2) s5(2) s6(2) by (simp add: kept_def)
  moreover have "install_block i s = Ok () s6"
    using g g'(1) s1(1) s2(1) s3(1) s4(1) s5(1) s6(1) b12 s1(6) by (simp add: install_block_def kdefs log_set_def)
  ultimately show ?thesis using s6(3,4) s5(5) s4(7) by auto
qed

lemma install_trans_ok:
  assumes a: "alone s" and g: "log_set ls bl s" and c: "cinv {} v D (mypid s) (sh s)"
    and D: "finite D" "card D < NBUF" "D \<inter> log_area ls = {}" and bl: "distinct bl" "set bl \<subseteq> D \<or> card D + 1 < NBUF"
  shows "\<exists>t. install_trans s = Ok () t \<and> kept s t \<and>
    cinv {} (puts (home_writes ls bl v (length bl)) v) (D - set bl) (mypid s) (sh t) \<and>
    dwrites (sh t) = dwrites (sh s) @ at_disk (home_writes ls bl v (length bl))"
proof -
  let ?P = "\<lambda>i t. kept s t \<and> cinv {} (puts (home_writes ls bl v i) v) (D - set (take i bl)) (mypid s) (sh t) \<and>
    dwrites (sh t) = dwrites (sh s) @ at_disk (home_writes ls bl v i)"
  have "\<exists>t. log_loop install_block 0 s = Ok () t \<and> ?P (length bl) t"
  proof (rule log_loop_ok)
    show "length bl \<le> LOGSIZE" using g by (simp add: log_set_def)
    show "?P 0 s" using kept_refl[OF a] c by simp
    show "lh_n (klog (sh t)) = int (length bl)" if "?P i t" for i t using that g by (simp add: kept_def log_set_def)
    fix i t assume i: "i < length bl" and t: "?P i t"
    let ?D = "D - set (take i bl)"
    have k: "alone t" "mypid t = mypid s" using t by (simp_all add: kept_def)
    have cd: "card ?D \<le> card D" by (rule card_mono[OF D(1)]) blast
    have "bl ! i \<notin> set (take i bl)" using bl(1) i by (simp add: in_set_conv_nth nth_eq_iff_index_eq)
    then have m: "bl ! i \<in> ?D \<or> card ?D + 1 < NBUF" using bl(2) i cd nth_mem[OF i] by (auto simp del: NBUF_def)
    have "ls + of_nat i + 1 \<notin> fst ` set (home_writes ls bl v i)"
      unfolding fst_writes using log_set_nth(2)[OF g] log_set_nth(5)[OF g i] i by force
    then have e: "puts (home_writes ls bl v i) v (ls + of_nat i + 1) = v (ls + of_nat i + 1)" by (rule puts_notin)
    have d: "?D - {bl ! i} = D - set (take (Suc i) bl)" using i by (auto simp: take_Suc_conv_app_nth)
    have "\<exists>u. install_block i t = Ok () u \<and> kept t u \<and>
      cinv {} ((puts (home_writes ls bl v i) v)(bl ! i := puts (home_writes ls bl v i) v (ls + of_nat i + 1))) (?D - {bl ! i}) (mypid t) (sh u) \<and>
      dwrites (sh u) = dwrites (sh t) @ [(unat (bl ! i), puts (home_writes ls bl v i) v (ls + of_nat i + 1))]"
      using t k D cd by (intro install_block_ok log_set_kept[OF g] i m) auto
    then show "\<exists>u. install_block i t = Ok () u \<and> ?P (Suc i) u" using t k kept_trans[of s t] unfolding e d by fastforce
  qed simp
  then show ?thesis by (simp add: install_trans_def)
qed

subsection \<open>The header block\<close>

lemma write_head_ok:
  assumes a: "alone s" and g: "log_set ls bl s" and c: "cinv {} v D (mypid s) (sh s)"
    and D: "finite D" "card D < NBUF" "D \<inter> log_area ls = {}"
  defines "h \<equiv> head_bytes (of_nat (length bl)) bl (v ls) (length bl)"
  shows "\<exists>t. write_head s = Ok () t \<and> kept s t \<and> cinv {} (v(ls := h)) D (mypid s) (sh t) \<and>
    dwrites (sh t) = dwrites (sh s) @ [(unat ls, h)]"
proof -
  have ls: "ls \<notin> D" "unat ls < disksize (sh s)" using D(3) in_log_area(2)[of ls] g by (auto simp: log_set_def)
  obtain b s1 where s1: "bread 1 ls s = Ok b s1" "b < NBUF" "kept s s1" "cinv {b} v D (mypid s) (sh s1)"
    "blockno (bcache (sh s1) ! b) = ls" "bdata (bcache (sh s1) ! b) = v ls" "dwrites (sh s1) = dwrites (sh s)"
    by (rule bread_ok[OF a c D(1) ls(2)]) (use D(2) in auto)
  have k1: "alone s1" "mypid s1 = mypid s" using s1(3) by (simp_all add: kept_def)
  have c1: "cinv {b} v D (mypid s1) (sh s1)" using s1(4) k1(2) by simp
  let ?Q = "\<lambda>i t. kept s t \<and> cinv {b} v D (mypid s) (sh t) \<and> blockno (bcache (sh t) ! b) = ls \<and>
    bdata (bcache (sh t) ! b) = head_bytes (of_nat (length bl)) bl (v ls) i \<and> dwrites (sh t) = dwrites (sh s)"
  obtain s2 where s2: "setb b (\<lambda>r. r\<lparr>bdata := put32 (bdata r) 0 (of_nat (length bl))\<rparr>) s1 = Ok () s2" "?Q 0 s2"
    by (rule setb_ok[OF c1 k1(1), of b "\<lambda>d. put32 d 0 (of_nat (length bl))"])
      (use s1 k1(2) in \<open>auto simp: kept_def\<close>)
  let ?body = "\<lambda>i. bnd (getlog (\<lambda>l. lh_block l ! i)) (\<lambda>w. setb b (\<lambda>r. r\<lparr>bdata := put32 (bdata r) (4 + 4 * i) w\<rparr>))"
  have "\<exists>t. log_loop ?body 0 s2 = Ok () t \<and> ?Q (length bl) t"
  proof (rule log_loop_ok[where P = ?Q])
    show "length bl \<le> LOGSIZE" using g by (simp add: log_set_def)
    show "?Q 0 s2" by (rule s2(2))
    show "lh_n (klog (sh t)) = int (length bl)" if "?Q i t" for i t using that g by (simp add: kept_def log_set_def)
    fix i t assume i: "i < length bl" and t: "?Q i t"
    have k: "alone t" "mypid t = mypid s" using t by (simp_all add: kept_def)
    have ct: "cinv {b} v D (mypid t) (sh t)" using t k(2) by simp
    have w: "lh_block (klog (sh t)) ! i = bl ! i" using log_set_nth(1)[OF g i] t by (simp add: kept_def)
    obtain u where "setb b (\<lambda>r. r\<lparr>bdata := put32 (bdata r) (4 + 4 * i) (bl ! i)\<rparr>) t = Ok () u" "?Q (Suc i) u"
      by (rule setb_ok[OF ct k(1), of b "\<lambda>d. put32 d (4 + 4 * i) (bl ! i)"]) (use t k(2) in \<open>auto simp: kept_def\<close>)
    then show "\<exists>u. ?body i t = Ok () u \<and> ?Q (Suc i) u" using w by (simp add: bnd_def getlog_def getsh_def)
  qed simp
  then obtain s3 where s3: "log_loop ?body 0 s2 = Ok () s3" "?Q (length bl) s3" by blast
  have k3: "alone s3" "mypid s3 = mypid s" "disksize (sh s3) = disksize (sh s)" using s3(2) by (simp_all add: kept_def)
  have c3: "cinv {b} v D (mypid s3) (sh s3)" using s3(2) k3(2) by simp
  have dD: "D - {ls} = D" using ls(1) by simp
  obtain s4 where s4: "bwrite b s3 = Ok () s4" "kept s3 s4" "cinv {b} (v(ls := h)) D (mypid s) (sh s4)"
    "blockno (bcache (sh s4) ! b) = ls" "bdata (bcache (sh s4) ! b) = h" "dwrites (sh s4) = dwrites (sh s) @ [(unat ls, h)]"
    by (rule bwrite_ok[OF c3 k3(1), of b ls h]) (use s3(2) k3 ls(2) dD in \<open>auto simp: h_def\<close>)
  have k4: "alone s4" "mypid s4 = mypid s" using s4(2) k3 by (simp_all add: kept_def)
  have c4: "cinv {b} (v(ls := h)) D (mypid s4) (sh s4)" using s4(3) k4(2) by simp
  obtain s5 where s5: "brelse b s4 = Ok () s5" "kept s4 s5" "cinv {} (v(ls := h)) D (mypid s) (sh s5)" "dwrites (sh s5) = dwrites (sh s4)"
    by (rule brelse_ok[OF c4 k4(1), of b]) (use s4(4,5) k4(2) in auto)
  have "kept s s5" using s3(2) s4(2) s5(2) by (simp add: kept_def)
  moreover have "write_head s = Ok () s5"
  proof -
    have "log_start (klog (sh s)) = ls" "log_dev (klog (sh s)) = 1" "lh_n (klog (sh s1)) = int (length bl)"
      using g s1(3) by (simp_all add: log_set_def kept_def)
    then show ?thesis using s1(1) s2(1) s3(1) s4(1) s5(1)
      by (simp add: write_head_def bnd_def sq_def getlog_def getsh_def ret_def)
  qed
  ultimately show ?thesis using s5(3,4) s4(6) by auto
qed

text \<open>Reading the header back: the count and that many block numbers.\<close>

lemma read_head_ok:
  assumes a: "alone s" and c: "cinv {} v D (mypid s) (sh s)" and D: "finite D" "card D < NBUF"
    and l: "log_start (klog (sh s)) = ls" "log_dev (klog (sh s)) = 1" "length (lh_block (klog (sh s))) = LOGSIZE" "unat ls < disksize (sh s)"
    and n: "sint (get32 (v ls) 0) = int (length bl)" "length bl \<le> LOGSIZE" "\<And>i. i < length bl \<Longrightarrow> get32 (v ls) (4 + 4 * i) = bl ! i"
  shows "\<exists>t l. read_head s = Ok () t \<and> kept (s\<lparr>sh := (sh s)\<lparr>klog := l\<rparr>\<rparr>) t \<and> cinv {} v D (mypid s) (sh t) \<and>
    dwrites (sh t) = dwrites (sh s) \<and> log_start l = ls \<and> log_dev l = 1 \<and> lh_n l = int (length bl) \<and>
    length (lh_block l) = LOGSIZE \<and> take (length bl) (lh_block l) = bl"
proof -
  obtain b s1 where s1: "bread 1 ls s = Ok b s1" "b < NBUF" "kept s s1" "cinv {b} v D (mypid s) (sh s1)"
    "blockno (bcache (sh s1) ! b) = ls" "bdata (bcache (sh s1) ! b) = v ls" "dwrites (sh s1) = dwrites (sh s)"
    by (rule bread_ok[OF a c D(1) l(4)]) (use D(2) in auto)
  define s2 where "s2 = s1\<lparr>sh := (sh s1)\<lparr>klog := (klog (sh s1))\<lparr>lh_n := int (length bl)\<rparr>\<rparr>\<rparr>"
  let ?body = "\<lambda>i. setlog (\<lambda>l. l\<lparr>lh_block := (lh_block l)[i := get32 (v ls) (4 + 4 * i)]\<rparr>)"
  let ?Q = "\<lambda>i t. \<exists>l. t = s1\<lparr>sh := (sh s1)\<lparr>klog := l\<rparr>\<rparr> \<and> log_start l = ls \<and> log_dev l = 1 \<and> lh_n l = int (length bl) \<and>
    length (lh_block l) = LOGSIZE \<and> (\<forall>j < i. lh_block l ! j = bl ! j)"
  have "\<exists>t. log_loop ?body 0 s2 = Ok () t \<and> ?Q (length bl) t"
  proof (rule log_loop_ok[where P = ?Q])
    show "?Q 0 s2" using s1(3) l by (intro exI[of _ "(klog (sh s1))\<lparr>lh_n := int (length bl)\<rparr>"]) (simp add: s2_def kept_def)
    show "lh_n (klog (sh t)) = int (length bl)" if "?Q i t" for i t using that by auto
    fix i t assume i: "i < length bl" and t: "?Q i t"
    then obtain m where m: "t = s1\<lparr>sh := (sh s1)\<lparr>klog := m\<rparr>\<rparr>" "log_start m = ls" "log_dev m = 1" "lh_n m = int (length bl)"
      "length (lh_block m) = LOGSIZE" "\<forall>j < i. lh_block m ! j = bl ! j" by blast
    let ?m = "m\<lparr>lh_block := (lh_block m)[i := bl ! i]\<rparr>"
    have "?body i t = Ok () (s1\<lparr>sh := (sh s1)\<lparr>klog := ?m\<rparr>\<rparr>)"
      using m(1) n(3)[OF i] by (simp add: setlog_def modsh_def)
    moreover have "\<forall>j < Suc i. lh_block ?m ! j = bl ! j" using m(5,6) i n(2) by (auto simp: less_Suc_eq nth_list_update)
    ultimately show "\<exists>u. ?body i t = Ok () u \<and> ?Q (Suc i) u" using m(2-5) by (intro exI[of _ "s1\<lparr>sh := (sh s1)\<lparr>klog := ?m\<rparr>\<rparr>"] conjI exI[of _ ?m]) simp_all
  qed (use n(2) in simp_all)
  then obtain m where m: "log_loop ?body 0 s2 = Ok () (s1\<lparr>sh := (sh s1)\<lparr>klog := m\<rparr>\<rparr>)" "log_start m = ls" "log_dev m = 1" "lh_n m = int (length bl)"
      "length (lh_block m) = LOGSIZE" "\<forall>j < length bl. lh_block m ! j = bl ! j" by blast
  define s3 where "s3 = s1\<lparr>sh := (sh s1)\<lparr>klog := m\<rparr>\<rparr>"
  have k3: "alone s3" "mypid s3 = mypid s" "kept (s\<lparr>sh := (sh s)\<lparr>klog := m\<rparr>\<rparr>) s3"
    using s1(3) by (auto simp: s3_def kept_def alone_def mypid_def)
  have c3: "cinv {b} v D (mypid s3) (sh s3)" using s1(4) k3(2) by (simp add: s3_def cinv_def list_ok_def blist_def once_def cached_def)
  obtain s4 where s4: "brelse b s3 = Ok () s4" "kept s3 s4" "cinv {} v D (mypid s) (sh s4)" "dwrites (sh s4) = dwrites (sh s3)"
    by (rule brelse_ok[OF c3 k3(1), of b]) (use s1(5,6) k3(2) in \<open>auto simp: s3_def\<close>)
  have "read_head s = Ok () s4"
    using l(1,2) s1(1,6) m(1) s4(1) n(1)
    by (simp add: read_head_def bnd_def sq_def getlog_def getsh_def getb_def ret_def setlog_def modsh_def s2_def s3_def)
  moreover have "take (length bl) (lh_block m) = bl" using m(5,6) n(2) by (intro nth_equalityI) simp_all
  ultimately show ?thesis using kept_trans[OF k3(3) s4(2)] s4(3,4) s1(7) m(2-5) by (auto simp: s3_def)
qed

section \<open>Recovery and commit\<close>

lemma cinv_klog [simp]: "cinv L v D i (x\<lparr>klog := l\<rparr>) = cinv L v D i x"
  by (simp add: cinv_def list_ok_def blist_def once_def cached_def)

lemma alone_klog [simp]: "alone (s\<lparr>sh := (sh s)\<lparr>klog := l\<rparr>\<rparr>) = alone s" "mypid (s\<lparr>sh := (sh s)\<lparr>klog := l\<rparr>\<rparr>) = mypid s"
  by (simp_all add: alone_def mypid_def)

text \<open>What clearing the header leaves in its block.\<close>

definition cleared :: "u8 list \<Rightarrow> u8 list" where
  "cleared d = put32 d 0 0"

lemma clear_head_ok:
  assumes a: "alone s" and g: "log_set ls bl s" and c: "cinv {} v D (mypid s) (sh s)"
    and D: "finite D" "card D < NBUF" "D \<inter> log_area ls = {}"
  shows "\<exists>t l. sq (setlog (\<lambda>l. l\<lparr>lh_n := 0\<rparr>)) write_head s = Ok () t \<and> kept (s\<lparr>sh := (sh s)\<lparr>klog := l\<rparr>\<rparr>) t \<and> log_set ls [] t \<and>
    l = (klog (sh s))\<lparr>lh_n := 0\<rparr> \<and>
    cinv {} (v(ls := cleared (v ls))) D (mypid s) (sh t) \<and> dwrites (sh t) = dwrites (sh s) @ [(unat ls, cleared (v ls))]"
proof -
  let ?s = "s\<lparr>sh := (sh s)\<lparr>klog := (klog (sh s))\<lparr>lh_n := 0\<rparr>\<rparr>\<rparr>"
  have g': "log_set ls [] ?s" using g by (simp add: log_set_def)
  have "\<exists>t. write_head ?s = Ok () t \<and> kept ?s t \<and> cinv {} (v(ls := cleared (v ls))) D (mypid ?s) (sh t) \<and>
    dwrites (sh t) = dwrites (sh ?s) @ [(unat ls, cleared (v ls))]"
    using write_head_ok[of ?s ls "[]" v D] a g' c D by (simp add: cleared_def)
  then obtain t where t: "write_head ?s = Ok () t" "kept ?s t" "cinv {} (v(ls := cleared (v ls))) D (mypid ?s) (sh t)"
    "dwrites (sh t) = dwrites (sh ?s) @ [(unat ls, cleared (v ls))]" by blast
  show ?thesis
    using t log_set_kept[OF g' t(2)] by (intro exI[of _ t] exI[of _ "(klog (sh s))\<lparr>lh_n := 0\<rparr>"]) (simp add: sq_def bnd_def setlog_def modsh_def)
qed

lemma recover_ok:
  assumes a: "alone s" and c: "cinv {} v {} (mypid s) (sh s)"
    and l: "log_start (klog (sh s)) = ls" "log_dev (klog (sh s)) = 1" "length (lh_block (klog (sh s))) = LOGSIZE"
      "unat ls + LOGSIZE < disksize (sh s)" "disksize (sh s) \<le> 2 ^ 32"
    and n: "sint (get32 (v ls) 0) = int (length bl)" "length bl \<le> LOGSIZE" "\<And>i. i < length bl \<Longrightarrow> get32 (v ls) (4 + 4 * i) = bl ! i"
    and bl: "distinct bl" "\<forall>n \<in> set bl. unat n < disksize (sh s) \<and> n \<notin> log_area ls"
  defines "v' \<equiv> puts (home_writes ls bl v (length bl)) v"
  shows "\<exists>t. recover_from_log s = Ok () t \<and> alone t \<and> log_set ls [] t \<and> cinv {} (v'(ls := cleared (v' ls))) {} (mypid t) (sh t) \<and>
    dwrites (sh t) = dwrites (sh s) @ at_disk (home_writes ls bl v (length bl)) @ [(unat ls, cleared (v' ls))]"
proof -
  have "unat ls < disksize (sh s)" using l(4) by linarith
  from read_head_ok[OF a c finite.emptyI _ l(1-3) this n] obtain s1 m where
    s1: "read_head s = Ok () s1" "kept (s\<lparr>sh := (sh s)\<lparr>klog := m\<rparr>\<rparr>) s1" "cinv {} v {} (mypid s) (sh s1)" "dwrites (sh s1) = dwrites (sh s)"
    and m: "log_start m = ls" "log_dev m = 1" "lh_n m = int (length bl)" "length (lh_block m) = LOGSIZE" "take (length bl) (lh_block m) = bl"
    by auto
  have k1: "alone s1" "mypid s1 = mypid s" "klog (sh s1) = m" "disksize (sh s1) = disksize (sh s)" using s1(2) by (simp_all add: kept_def)
  have g: "log_set ls bl s1" using m k1(3,4) n(2) l(4,5) bl(2) by (simp add: log_set_def)
  have c1: "cinv {} v {} (mypid s1) (sh s1)" using s1(3) k1(2) by simp
  from install_trans_ok[OF k1(1) g c1 finite.emptyI _ _ bl(1)] obtain s2 where
    s2: "install_trans s1 = Ok () s2" "kept s1 s2" "cinv {} v' {} (mypid s1) (sh s2)"
      "dwrites (sh s2) = dwrites (sh s1) @ at_disk (home_writes ls bl v (length bl))"
    by (auto simp: v'_def)
  have k2: "alone s2" "mypid s2 = mypid s" using s2(2) k1 by (simp_all add: kept_def)
  have c2: "cinv {} v' {} (mypid s2) (sh s2)" using s2(3) k1(2) k2(2) by simp
  from clear_head_ok[OF k2(1) log_set_kept[OF g s2(2)] c2 finite.emptyI] obtain s3 l3 where
    s3: "sq (setlog (\<lambda>l. l\<lparr>lh_n := 0\<rparr>)) write_head s2 = Ok () s3" "kept (s2\<lparr>sh := (sh s2)\<lparr>klog := l3\<rparr>\<rparr>) s3" "log_set ls [] s3"
      "cinv {} (v'(ls := cleared (v' ls))) {} (mypid s2) (sh s3)" "dwrites (sh s3) = dwrites (sh s2) @ [(unat ls, cleared (v' ls))]"
    by auto
  have k3: "alone s3" "mypid s3 = mypid s2" using s3(2) by (simp_all add: kept_def)
  have "recover_from_log s = Ok () s3"
    using s1(1) s2(1) s3(1) by (simp add: recover_from_log_def sq_def bnd_def)
  then show ?thesis using k3 s3(3-5) s2(4) s1(4) by (intro exI[of _ s3]) simp
qed

text \<open>All writes of a commit, in order.  After them the log blocks have the new contents and the
  header has no blocks.\<close>

definition commit_writes :: "u32 \<Rightarrow> u32 list \<Rightarrow> (u32 \<Rightarrow> u8 list) \<Rightarrow> (u32 \<times> u8 list) list" where
  "commit_writes ls bl v = (let k = length bl; h = head_bytes (of_nat k) bl (v ls) k in
     log_writes ls bl v k @ [(ls, h)] @ map (\<lambda>n. (n, v n)) bl @ [(ls, cleared h)])"

lemma log_slot_ls: "j < LOGSIZE \<Longrightarrow> ls + of_nat j + 1 \<noteq> (ls :: u32)"
  using log_slots[of "Suc j" 0 ls] by (auto simp: ac_simps)

lemma log_writes_ls: "k \<le> LOGSIZE \<Longrightarrow> puts (log_writes ls bl v k) w ls = w ls"
proof (rule puts_notin, unfold fst_writes, rule notI)
  assume "k \<le> LOGSIZE" "ls \<in> (\<lambda>j. ls + of_nat j + 1) ` {..<k}"
  then obtain j where j: "j < k" "ls + of_nat (Suc j) = ls + of_nat 0" by (auto simp: algebra_simps)
  then show False using log_slots[of "Suc j" 0 ls] \<open>k \<le> LOGSIZE\<close> by auto
qed

lemma log_writes_slot:
  assumes "k \<le> LOGSIZE" "j < k"
  shows "puts (log_writes ls bl v k) w (ls + of_nat j + 1) = v (bl ! j)"
proof (rule puts_in)
  have "inj_on (\<lambda>j. ls + of_nat j + 1) {0..<k}"
  proof (rule inj_onI)
    fix i j assume "i \<in> {0..<k}" "j \<in> {0..<k}" "ls + of_nat i + 1 = ls + of_nat j + 1"
    then show "i = j" using log_slots[of i j ls] assms(1) by simp
  qed
  then show "distinct (map fst (log_writes ls bl v k))" by (simp add: log_writes_def distinct_map comp_def)
  show "(ls + of_nat j + 1, v (bl ! j)) \<in> set (log_writes ls bl v k)" using assms(2) by (auto simp: log_writes_def)
qed

lemma home_writes_map:
  assumes "\<And>j. j < length bl \<Longrightarrow> w (ls + of_nat j + 1) = v (bl ! j)"
  shows "home_writes ls bl w (length bl) = map (\<lambda>n. (n, v n)) bl"
  using assms by (intro nth_equalityI) (simp_all add: home_writes_def)

lemma commit_ok:
  assumes a: "alone s" and g: "log_set ls bl s" and c: "cinv {} v (set bl) (mypid s) (sh s)"
    and bl: "distinct bl" "length bl < NBUF" "bl \<noteq> []"
  shows "\<exists>t l. commit s = Ok () t \<and> kept (s\<lparr>sh := (sh s)\<lparr>klog := l\<rparr>\<rparr>) t \<and> l = (klog (sh s))\<lparr>lh_n := 0\<rparr> \<and> log_set ls [] t \<and>
    cinv {} (puts (commit_writes ls bl v) v) {} (mypid s) (sh t) \<and>
    dwrites (sh t) = dwrites (sh s) @ at_disk (commit_writes ls bl v)"
proof -
  let ?n = "length bl"
  define v1 where "v1 = puts (log_writes ls bl v ?n) v"
  define h where "h = head_bytes (of_nat ?n) bl (v ls) ?n"
  define v2 where "v2 = v1(ls := h)"
  define v3 where "v3 = puts (map (\<lambda>n. (n, v n)) bl) v2"
  have n: "?n \<le> LOGSIZE" and ar: "set bl \<inter> log_area ls = {}" using g by (auto simp: log_set_def)
  have D: "finite (set bl)" "card (set bl) < NBUF" using bl(1,2) by (simp_all add: distinct_card)
  have v1: "v1 ls = v ls" unfolding v1_def by (rule log_writes_ls[OF n])
  from write_log_ok[OF a g c D ar] obtain s1 where
    s1: "write_log s = Ok () s1" "kept s s1" "cinv {} v1 (set bl) (mypid s) (sh s1)" "dwrites (sh s1) = dwrites (sh s) @ at_disk (log_writes ls bl v ?n)"
    by (auto simp: v1_def)
  have k1: "alone s1" "mypid s1 = mypid s" using s1(2) by (simp_all add: kept_def)
  have c1: "cinv {} v1 (set bl) (mypid s1) (sh s1)" using s1(3) k1(2) by simp
  from write_head_ok[OF k1(1) log_set_kept[OF g s1(2)] c1 D ar] obtain s2 where
    s2: "write_head s1 = Ok () s2" "kept s1 s2" "cinv {} v2 (set bl) (mypid s1) (sh s2)" "dwrites (sh s2) = dwrites (sh s1) @ [(unat ls, h)]"
    by (auto simp: v2_def h_def v1)
  have k2: "alone s2" "mypid s2 = mypid s" "kept s s2" using s2(2) k1 s1(2) by (simp_all add: kept_def)
  have c2: "cinv {} v2 (set bl) (mypid s2) (sh s2)" using s2(3) k2(2) k1(2) by simp
  have "v2 (ls + of_nat j + 1) = v (bl ! j)" if "j < ?n" for j
    using log_writes_slot[OF n that, of ls bl v v] log_slot_ls[of j ls] n that by (simp add: v2_def v1_def)
  then have hw: "home_writes ls bl v2 ?n = map (\<lambda>n. (n, v n)) bl" by (rule home_writes_map)
  from install_trans_ok[OF k2(1) log_set_kept[OF g k2(3)] c2 D ar bl(1)] obtain s3 where
    s3: "install_trans s2 = Ok () s3" "kept s2 s3" "cinv {} v3 {} (mypid s2) (sh s3)" "dwrites (sh s3) = dwrites (sh s2) @ at_disk (map (\<lambda>n. (n, v n)) bl)"
    by (auto simp: hw v3_def)
  have k3: "alone s3" "mypid s3 = mypid s" "kept s s3" using s3(2) k2 by (simp_all add: kept_def)
  have c3: "cinv {} v3 {} (mypid s3) (sh s3)" using s3(3) k3(2) k2(2) by simp
  have "ls \<notin> set bl" using ar in_log_area(2)[of ls] by auto
  then have v3: "v3 ls = h" unfolding v3_def by (subst puts_notin) (auto simp: v2_def)
  from clear_head_ok[OF k3(1) log_set_kept[OF g k3(3)] c3 finite.emptyI] obtain s4 l4 where
    s4: "sq (setlog (\<lambda>l. l\<lparr>lh_n := 0\<rparr>)) write_head s3 = Ok () s4" "kept (s3\<lparr>sh := (sh s3)\<lparr>klog := l4\<rparr>\<rparr>) s4" "log_set ls [] s4"
      "l4 = (klog (sh s3))\<lparr>lh_n := 0\<rparr>" "cinv {} (v3(ls := cleared h)) {} (mypid s3) (sh s4)" "dwrites (sh s4) = dwrites (sh s3) @ [(unat ls, cleared h)]"
    by (auto simp: v3)
  have "commit s = Ok () s4"
    using s1(1) s2(1) s3(1) s4(1) g bl(3) by (simp add: commit_def sq_def bnd_def getlog_def getsh_def whenk_def log_set_def)
  moreover have "puts (commit_writes ls bl v) v = v3(ls := cleared h)"
    by (simp add: commit_writes_def Let_def puts_append v3_def v2_def v1_def h_def puts_def)
  moreover have "kept (s\<lparr>sh := (sh s)\<lparr>klog := l4\<rparr>\<rparr>) s4" "l4 = (klog (sh s))\<lparr>lh_n := 0\<rparr>" using s4(2,4) k3(2,3) by (simp_all add: kept_def)
  ultimately show ?thesis using s4(3,5,6) s3(4) s2(4) s1(4) k3(2)
    by (intro exI[of _ s4] exI[of _ l4]) (simp add: commit_writes_def Let_def h_def)
qed

section \<open>Stopping at any moment\<close>

text \<open>The disk after some of the recorded writes, and a machine that boots from it, with the cache
  empty or at least in agreement with the disk.\<close>

definition replay :: "(nat \<times> u8 list) list \<Rightarrow> (nat \<Rightarrow> u8 list) \<Rightarrow> nat \<Rightarrow> u8 list" where
  "replay ws d = foldl (\<lambda>d (n, x). d(n := x)) d ws"

definition booted :: "u32 \<Rightarrow> nat \<Rightarrow> (nat \<Rightarrow> u8 list) \<Rightarrow> kst \<Rightarrow> bool" where
  "booted ls N d y \<longleftrightarrow> alone y \<and> disk (sh y) = d \<and> disksize (sh y) = N \<and> log_start (klog (sh y)) = ls \<and>
     log_dev (klog (sh y)) = 1 \<and> length (lh_block (klog (sh y))) = LOGSIZE \<and> cinv {} (\<lambda>m. d (unat m)) {} (mypid y) (sh y)"

lemma replay_view: "replay (at_disk ws) d (unat m) = puts ws (\<lambda>m. d (unat m)) m"
proof (induction ws rule: rev_induct)
  case (snoc w ws)
  obtain n x where w: "w = (n, x)" by force
  have "unat m = unat n \<longleftrightarrow> m = n" by (simp add: word_unat_eq_iff)
  then show ?case using snoc w by (simp add: replay_def)
qed (simp add: replay_def)

lemma recovered:
  assumes "booted ls N d y" and "unat ls + LOGSIZE < N" "N \<le> 2 ^ 32" and w: "\<And>m. d (unat m) = w m"
    and n: "sint (get32 (w ls) 0) = int (length bl)" "length bl \<le> LOGSIZE" "\<And>i. i < length bl \<Longrightarrow> get32 (w ls) (4 + 4 * i) = bl ! i"
    and bl: "distinct bl" "\<forall>n \<in> set bl. unat n < N \<and> n \<notin> log_area ls"
  shows "\<exists>u. recover_from_log y = Ok () u \<and> (\<forall>m. m \<notin> log_area ls \<longrightarrow> disk (sh u) (unat m) = puts (home_writes ls bl w (length bl)) w m)"
proof -
  have e: "(\<lambda>m. d (unat m)) = w" using w by auto
  let ?v = "puts (home_writes ls bl w (length bl)) w"
  have "\<exists>t. recover_from_log y = Ok () t \<and> alone t \<and> log_set ls [] t \<and> cinv {} (?v(ls := cleared (?v ls))) {} (mypid t) (sh t) \<and>
    dwrites (sh t) = dwrites (sh y) @ at_disk (home_writes ls bl w (length bl)) @ [(unat ls, cleared (?v ls))]"
    using assms(1-3) n bl unfolding booted_def e by (intro recover_ok) auto
  then obtain u where u: "recover_from_log y = Ok () u" "cinv {} (?v(ls := cleared (?v ls))) {} (mypid u) (sh u)" by blast
  have "disk (sh u) (unat m) = ?v m" if "m \<notin> log_area ls" for m
    using cinvD(7)[OF u(2), of m] in_log_area(2)[of ls] that by auto
  then show ?thesis using u(1) by blast
qed

lemma sint_count: "n \<le> 30 \<Longrightarrow> sint (of_nat n :: u32) = int n"
proof -
  assume "n \<le> 30"
  then have "uint (of_nat n :: u32) = int n" by (simp add: uint_nat unat_of_nat)
  then show ?thesis using \<open>n \<le> 30\<close> by (simp add: sint32)
qed

text \<open>The view of the disk when the machine stops after \<open>k\<close> writes of the commit.\<close>

lemma stopped_early:
  assumes "k \<le> length bl" "length bl \<le> LOGSIZE"
  shows "puts (take k (commit_writes ls bl v)) w ls = w ls"
    and "m \<notin> log_area ls \<Longrightarrow> puts (take k (commit_writes ls bl v)) w m = w m"
proof -
  have "take k (commit_writes ls bl v) = take k (log_writes ls bl v (length bl))"
    using assms(1) by (simp add: commit_writes_def Let_def log_writes_def)
  also have "\<dots> = log_writes ls bl v k" using assms(1) by (simp add: log_writes_def take_map)
  finally have e: "take k (commit_writes ls bl v) = log_writes ls bl v k" .
  show "puts (take k (commit_writes ls bl v)) w ls = w ls" unfolding e using assms by (intro log_writes_ls) linarith
  show "puts (take k (commit_writes ls bl v)) w m = w m" if "m \<notin> log_area ls"
    unfolding e by (rule puts_notin) (use that in_log_area(1)[of _ ls] assms in \<open>auto simp: fst_writes simp del: LOGSIZE_def\<close>)
qed

lemma puts_home: "puts (map (\<lambda>n. (n, v n)) bl) w m = (if m \<in> set bl then v m else w m)"
  by (induction bl rule: rev_induct) (auto simp: puts_def)

lemma stopped_late:
  assumes "length bl < k" "length bl \<le> LOGSIZE" and ar: "set bl \<inter> log_area ls = {}"
  obtains j c where "puts (take k (commit_writes ls bl v)) w ls = (if c then cleared else id) (head_bytes (of_nat (length bl)) bl (v ls) (length bl))"
    "\<And>m. m \<notin> log_area ls \<Longrightarrow> puts (take k (commit_writes ls bl v)) w m = (if m \<in> set (take j bl) then v m else w m)"
    "\<And>i. i < length bl \<Longrightarrow> puts (take k (commit_writes ls bl v)) w (ls + of_nat i + 1) = v (bl ! i)" "c \<Longrightarrow> length bl \<le> j"
proof -
  let ?n = "length bl" and ?h = "head_bytes (of_nat (length bl)) bl (v ls) (length bl)"
  define j where "j = k - ?n - 1"
  define c where "c \<longleftrightarrow> ?n < j"
  let ?tl = "if c then [(ls, cleared ?h)] else []"
  have "take k (commit_writes ls bl v) = log_writes ls bl v ?n @ (ls, ?h) # map (\<lambda>n. (n, v n)) (take j bl) @ ?tl"
  proof -
    have k: "k = ?n + Suc j" using assms(1) by (simp add: j_def)
    have t: "take (?n + Suc j) (xs @ y # ys) = xs @ y # take j ys" if "length xs = ?n" for xs ys :: "'q list" and y using that by simp
    have "take j (map (\<lambda>n. (n, v n)) bl @ [(ls, cleared ?h)]) = map (\<lambda>n. (n, v n)) (take j bl) @ ?tl"
      by (auto simp: take_map c_def take_Cons')
    then show ?thesis unfolding k commit_writes_def Let_def by (simp add: t log_writes_def)
  qed
  then have e: "puts (take k (commit_writes ls bl v)) w = puts ?tl (puts (map (\<lambda>n. (n, v n)) (take j bl)) ((puts (log_writes ls bl v ?n) w)(ls := ?h)))"
    by (simp add: puts_append puts_def)
  have ls: "ls \<notin> set (take j bl)" using ar in_log_area(2)[of ls] set_take_subset[of j bl] by blast
  have sl: "i < ?n \<Longrightarrow> ls + of_nat i + 1 \<notin> set (take j bl) \<and> ls + of_nat i + 1 \<noteq> ls" for i
    using ar in_log_area(1)[of i ls] set_take_subset[of j bl] log_slot_ls[of i ls] assms(2) by (auto simp del: LOGSIZE_def)
  show ?thesis
  proof
    show "puts (take k (commit_writes ls bl v)) w ls = (if c then cleared else id) ?h"
      using ls unfolding e by (simp add: puts_home) (simp add: puts_def)
    show "puts (take k (commit_writes ls bl v)) w m = (if m \<in> set (take j bl) then v m else w m)" if "m \<notin> log_area ls" for m
    proof -
      have "m \<noteq> ls" "m \<notin> fst ` set (log_writes ls bl v ?n)"
        using that in_log_area(1)[of _ ls] in_log_area(2)[of ls] assms(2) by (auto simp: fst_writes simp del: LOGSIZE_def)
      then show ?thesis unfolding e using puts_notin[of m "log_writes ls bl v ?n" w] by (simp add: puts_home) (simp add: puts_def puts_home[unfolded puts_def])
    qed
    show "puts (take k (commit_writes ls bl v)) w (ls + of_nat i + 1) = v (bl ! i)" if "i < ?n" for i
      unfolding e using sl[OF that] log_writes_slot[OF assms(2) that, of ls bl v w] by (simp add: puts_home) (simp add: puts_def puts_home[unfolded puts_def])
    show "?n \<le> j" if c using that by (simp add: c_def)
  qed
qed

lemma crash_recovers:
  assumes g: "log_set ls bl s" and c: "cinv {} v (set bl) (mypid s) (sh s)" and bl: "distinct bl"
    and h: "length (disk (sh s) (unat ls)) = BSIZE" "get32 (disk (sh s) (unat ls)) 0 = 0"
    and y: "booted ls (disksize (sh s)) (replay (take k (at_disk (commit_writes ls bl v))) (disk (sh s))) y"
  shows "\<exists>u. recover_from_log y = Ok () u \<and>
    (\<forall>m. m \<notin> log_area ls \<longrightarrow> disk (sh u) (unat m) = (if k \<le> length bl then disk (sh s) (unat m) else v m))"
proof -
  let ?d = "\<lambda>m. disk (sh s) (unat m)" and ?n = "length bl"
  define w where "w = puts (take k (commit_writes ls bl v)) ?d"
  have n: "?n \<le> LOGSIZE" "unat ls + LOGSIZE < disksize (sh s)" "disksize (sh s) \<le> 2 ^ 32" "\<forall>n \<in> set bl. unat n < disksize (sh s) \<and> n \<notin> log_area ls"
    and ar: "set bl \<inter> log_area ls = {}" using g by (auto simp: log_set_def)
  have view: "replay (take k (at_disk (commit_writes ls bl v))) (disk (sh s)) (unat m) = w m" for m
    by (simp add: w_def take_at_disk replay_view)
  have "ls \<notin> set bl" using ar in_log_area(2)[of ls] by auto
  then have vls: "v ls = disk (sh s) (unat ls)" using cinvD(7)[OF c] by simp
  have vm: "m \<notin> set bl \<Longrightarrow> v m = disk (sh s) (unat m)" for m using cinvD(7)[OF c] by simp
  note rec = recovered[OF y n(2,3) view]
  let ?h = "head_bytes (of_nat ?n) bl (v ls) ?n"
  have hl: "length (v ls) = 512" "?n \<le> 30" using h(1) n(1) by (simp_all add: vls)
  show ?thesis
  proof (cases "k \<le> ?n")
    case True
    note e = stopped_early[OF True n(1), where v = v and w = ?d and ls = ls, folded w_def]
    have "\<exists>u. recover_from_log y = Ok () u \<and> (\<forall>m. m \<notin> log_area ls \<longrightarrow> disk (sh u) (unat m) = w m)"
      using rec[of "[]"] e(1) h(2) by simp
    then show ?thesis using True e(2) by auto
  next
    case False
    then have nk: "?n < k" by simp
    show ?thesis
    proof (rule stopped_late[OF nk n(1) ar, where v = v and w = ?d, folded w_def])
      fix j b assume e: "w ls = (if b then cleared else id) ?h"
        "\<And>m. m \<notin> log_area ls \<Longrightarrow> w m = (if m \<in> set (take j bl) then v m else disk (sh s) (unat m))"
        "\<And>i. i < ?n \<Longrightarrow> w (ls + of_nat i + 1) = v (bl ! i)" "b \<Longrightarrow> ?n \<le> j"
      have sub: "set (take j bl) \<subseteq> set bl" by (rule set_take_subset)
      show ?thesis
      proof (cases b)
        case True
        have "get32 (cleared ?h) 0 = 0" using hl by (simp add: cleared_def get32_put32)
        then have "\<exists>u. recover_from_log y = Ok () u \<and> (\<forall>m. m \<notin> log_area ls \<longrightarrow> disk (sh u) (unat m) = w m)"
          using rec[of "[]"] e(1) True by simp
        moreover have "w m = v m" if "m \<notin> log_area ls" for m using e(2)[OF that] e(4)[OF True] vm[of m] by auto
        ultimately show ?thesis using False by auto
      next
        case nb: False
        have "w ls = ?h" using e(1) nb by simp
        then have "\<exists>u. recover_from_log y = Ok () u \<and> (\<forall>m. m \<notin> log_area ls \<longrightarrow> disk (sh u) (unat m) = puts (home_writes ls bl w ?n) w m)"
          by (intro rec) (use head_count[OF hl] head_block[OF hl] sint_count[OF hl(2)] n(1,4) bl in simp_all)
        moreover have "home_writes ls bl w ?n = map (\<lambda>n. (n, v n)) bl" by (rule home_writes_map) (rule e(3))
        moreover have "puts (map (\<lambda>n. (n, v n)) bl) w m = v m" if "m \<notin> log_area ls" for m
          unfolding puts_home using e(2)[OF that] vm[of m] sub by auto
        ultimately show ?thesis using False by auto
      qed
    qed
  qed
qed

lemma commit_home:
  assumes "set bl \<inter> log_area ls = {}" "length bl \<le> LOGSIZE" and "m \<notin> log_area ls"
  shows "puts (commit_writes ls bl v) v m = v m"
proof -
  have "m \<noteq> ls" "m \<notin> fst ` set (log_writes ls bl v (length bl))"
    using assms(2,3) in_log_area(1)[of _ ls] in_log_area(2)[of ls] by (auto simp: fst_writes simp del: LOGSIZE_def)
  then have "puts (log_writes ls bl v (length bl)) v m = v m" by (intro puts_notin)
  then show ?thesis using \<open>m \<noteq> ls\<close> by (simp add: commit_writes_def Let_def puts_append puts_def) (simp add: puts_home[unfolded puts_def])
qed

section \<open>A machine with one modified block\<close>

text \<open>The buffers in the order of their indices; block 40 is in the cache, modified, and recorded in
  the log that starts at block 2.\<close>

definition ringed :: "shared \<Rightarrow> shared" where
  "ringed x = x\<lparr>bc_next := \<lambda>b. if b = NBUF then 0 else Suc b, bc_prev := \<lambda>b. if b = 0 then NBUF else b - 1\<rparr>"

definition empty_cache :: "(nat \<Rightarrow> u8 list) \<Rightarrow> shared" where
  "empty_cache d = ringed ((zeroed sample_layout)\<lparr>disk := d, disksize := 1000,
     klog := \<lparr>log_start = 2, log_size = 30, outstanding = 1, committing = False, log_dev = 1, lh_n = 0,
       lh_block = replicate LOGSIZE 0\<rparr>\<rparr>)"

definition booting :: "(nat \<Rightarrow> u8 list) \<Rightarrow> kst" where
  "booting d = fresh_kst (empty_cache d) (Some 0) []"

definition modified :: kst where
  "modified = fresh_kst ((empty_cache (\<lambda>_. replicate 512 0))\<lparr>
     bcache := (replicate NBUF zeroed_buf)[3 := \<lparr>b_valid = True, b_dirty = True, bdev = 1, blockno = 40, refcnt = 0, bdata = replicate 512 7\<rparr>],
     klog := \<lparr>log_start = 2, log_size = 30, outstanding = 1, committing = False, log_dev = 1, lh_n = 1,
       lh_block = 40 # replicate 29 0\<rparr>\<rparr>) (Some 0) []"

lemma chain_up: "a < b \<Longrightarrow> b \<le> NBUF \<Longrightarrow> chain (\<lambda>b. if b = NBUF then 0 else Suc b) a [Suc a..<b] b"
proof (induction "b - a" arbitrary: a)
  case (Suc k)
  show ?case
  proof (cases "Suc a < b")
    case True
    then show ?thesis using Suc.hyps(1)[of "Suc a"] Suc.hyps(2) Suc.prems(2) by (simp add: upt_conv_Cons del: NBUF_def)
  next
    case False
    then have "Suc a = b" using Suc.prems(1) by simp
    then show ?thesis using Suc.prems(2) by auto
  qed
qed simp

lemma chain_down: "a \<le> NBUF \<Longrightarrow> chain (\<lambda>b. if b = 0 then NBUF else b - 1) a (rev [0..<a]) NBUF"
  by (induction a) (simp_all del: NBUF_def)

lemma ringed_list: "blist (ringed x) [0..<NBUF]"
proof -
  have "[0..<NBUF] = 0 # [Suc 0..<NBUF]" by (simp add: upt_conv_Cons del: upt_Suc)
  then have "chain (bc_next (ringed x)) NBUF [0..<NBUF] NBUF"
    using chain_up[of 0 NBUF] by (simp add: ringed_def del: NBUF_def upt_Suc) simp
  then show ?thesis using chain_down[of NBUF] by (simp add: blist_def ringed_def del: NBUF_def)
qed

lemma ringed_ok: "length (bcache x) = NBUF \<Longrightarrow> bc_next x = bc_next (ringed y) \<Longrightarrow> bc_prev x = bc_prev (ringed y) \<Longrightarrow> list_ok x"
  using ringed_list[of y] unfolding list_ok_def blist_def by (intro conjI exI[of _ "[0..<NBUF]"]) (auto simp del: NBUF_def)

lemma booted_booting: "booted 2 1000 d (booting d)"
proof -
  have l: "list_ok (empty_cache d)" by (rule ringed_ok[of _ "zeroed sample_layout"]) (simp_all add: empty_cache_def ringed_def zeroed_def)
  have b: "bcache (empty_cache d) ! b = zeroed_buf" "slocks (empty_cache d) k = \<lparr>slocked = False, slpid = 0\<rparr>" if "b < NBUF" for b k
    using that by (simp_all add: empty_cache_def ringed_def zeroed_def)
  have "cinv {} (\<lambda>m. d (unat m)) {} i (empty_cache d)" for i
    by (rule cinvI) (use l b in \<open>auto simp: once_def cached_def buf_ok_def zeroed_buf_def empty_cache_def[of d] ringed_def simp del: NBUF_def\<close>)
  then show ?thesis by (simp add: booted_def booting_def alone_def empty_cache_def ringed_def zeroed_def)
qed

definition new_view :: "u32 \<Rightarrow> u8 list" where
  "new_view m = (if m = 40 then replicate 512 7 else replicate 512 0)"

lemma modified_ok: "alone modified" "log_set 2 [40] modified" "cinv {} new_view (set [40]) (mypid modified) (sh modified)"
proof -
  show "alone modified" by (simp add: modified_def alone_def empty_cache_def ringed_def zeroed_def)
  have "(40 :: u32) \<notin> log_area 2" using log_range[of 2 33 40] by auto
  then show "log_set 2 [40] modified" by (simp add: log_set_def modified_def empty_cache_def ringed_def)
  have b: "bcache (sh modified) ! b = (if b = 3 then \<lparr>b_valid = True, b_dirty = True, bdev = 1, blockno = 40, refcnt = 0, bdata = replicate 512 7\<rparr> else zeroed_buf)"
    "slocks (sh modified) k = \<lparr>slocked = False, slpid = 0\<rparr>" if "b < NBUF" for b k
    using that by (simp_all add: modified_def empty_cache_def ringed_def zeroed_def nth_list_update)
  show "cinv {} new_view (set [40]) (mypid modified) (sh modified)"
  proof (rule cinvI)
    show "list_ok (sh modified)" by (rule ringed_ok[of _ "zeroed sample_layout"]) (simp_all add: modified_def empty_cache_def ringed_def)
    show "once (sh modified)" unfolding once_def cached_def using b by (auto simp: zeroed_buf_def simp del: NBUF_def split: if_splits)
    show "\<exists>b < NBUF. cached (sh modified) b n \<and> b_dirty (bcache (sh modified) ! b)" if "n \<in> set [40]" for n
      using that b[of 3] by (intro exI[of _ 3]) (simp add: cached_def)
    show "disk (sh modified) (unat n) = new_view n" if "n \<notin> set [40]" for n
      using that by (simp add: modified_def empty_cache_def ringed_def new_view_def)
  qed (use b in \<open>auto simp: buf_ok_def zeroed_buf_def new_view_def simp del: NBUF_def\<close>)
qed

section \<open>The last operation of a transaction\<close>

text \<open>C1: crash atomicity.  When the last outstanding file-system operation ends, \<open>end_op\<close> commits:
  it returns with the updates \<open>v\<close> of the blocks \<open>bl\<close> on disk at their home, the log empty and
  nothing outstanding.  If the machine stops after any number \<open>k\<close> of its disk writes, the recovery
  at the next boot returns, and leaves all home blocks as they were before, when the header was
  not yet written, or all of them updated.\<close>

theorem end_op_atomic:
  assumes "alone s" and "log_set ls bl s" and "cinv {} v (set bl) (mypid s) (sh s)"
    and "distinct bl" and "bl \<noteq> []" and "length bl < NBUF"
    and "outstanding (klog (sh s)) = 1" and "\<not> committing (klog (sh s))"
    and "length (disk (sh s) (unat ls)) = BSIZE" and "get32 (disk (sh s) (unat ls)) 0 = 0"
  shows "\<exists>t ws. end_op s = Ok () t \<and> dwrites (sh t) = dwrites (sh s) @ ws \<and>
    log_set ls [] t \<and> outstanding (klog (sh t)) = 0 \<and> \<not> committing (klog (sh t)) \<and>
    (\<forall>m. m \<notin> log_area ls \<longrightarrow> disk (sh t) (unat m) = v m) \<and>
    (\<forall>k y. booted ls (disksize (sh s)) (replay (take k ws) (disk (sh s))) y \<longrightarrow>
      (\<exists>u. recover_from_log y = Ok () u \<and>
        (\<forall>m. m \<notin> log_area ls \<longrightarrow> disk (sh u) (unat m) = (if k \<le> length bl then disk (sh s) (unat m) else v m))))"
proof -
  let ?l = "(klog (sh s))\<lparr>outstanding := 0, committing := True\<rparr>"
  let ?s = "s\<lparr>sh := (sh s)\<lparr>klog := ?l\<rparr>\<rparr>"
  have hd: "others s = []" "held s = []" using assms(1) by (simp_all add: alone_def)
  have g: "log_set ls bl ?s" using assms(2) by (simp add: log_set_def)
  have ar: "set bl \<inter> log_area ls = {}" "length bl \<le> LOGSIZE" using assms(2) by (auto simp: log_set_def)
  from commit_ok[OF _ g _ assms(4,6,5), of v] assms(1,3) obtain t l where
    t: "commit ?s = Ok () t" "kept (?s\<lparr>sh := (sh ?s)\<lparr>klog := l\<rparr>\<rparr>) t" "l = (klog (sh ?s))\<lparr>lh_n := 0\<rparr>" "log_set ls [] t"
      "cinv {} (puts (commit_writes ls bl v) v) {} (mypid ?s) (sh t)" "dwrites (sh t) = dwrites (sh s) @ at_disk (commit_writes ls bl v)"
    by auto
  have k: "others t = []" "held t = []" "outstanding (klog (sh t)) = 0" using t(2,3) by (simp_all add: kept_def alone_def)
  let ?x = "(sh t)\<lparr>klog := (klog (sh t))\<lparr>committing := False\<rparr>, ptable := map (wake (log_addr (lay (sh t)))) (ptable (sh t))\<rparr>"
  have e: "t\<lparr>sh := x, held := []\<rparr> = t\<lparr>sh := x\<rparr>" for x using k(2) by simp
  have e': "s\<lparr>held := [], sh := x\<rparr> = s\<lparr>sh := x\<rparr>" "s\<lparr>sh := x, held := []\<rparr> = s\<lparr>sh := x\<rparr>" for x using hd(2) by simp_all
  have "end_op s = Ok () (t\<lparr>sh := ?x\<rparr>)"
    using hd assms(7,8) t(1) k by (simp add: end_op_def wakeup_log_def wakeup_def kdefs e e')
  moreover have "disk (sh t) (unat m) = v m" if "m \<notin> log_area ls" for m
    using cinvD(7)[OF t(5), of m] commit_home[OF ar that] by simp
  moreover have "log_set ls [] (t\<lparr>sh := ?x\<rparr>)" using t(4) by (simp add: log_set_def)
  ultimately show ?thesis
    using t(6) k(3) crash_recovers[OF assms(2,3,4,9,10)]
    by (intro exI[of _ "t\<lparr>sh := ?x\<rparr>"] exI[of _ "at_disk (commit_writes ls bl v)"]) simp
qed

theorem end_op_atomic_witness:
  "\<exists>t ws u r. end_op modified = Ok () t \<and> dwrites (sh t) = dwrites (sh modified) @ ws \<and>
    recover_from_log (booting (replay (take 1 ws) (disk (sh modified)))) = Ok () r \<and> disk (sh r) 40 = replicate 512 0 \<and>
    recover_from_log (booting (replay (take 2 ws) (disk (sh modified)))) = Ok () u \<and> disk (sh u) 40 = replicate 512 7"
proof -
  have z: "disk (sh modified) = (\<lambda>_. replicate 512 0)" "outstanding (klog (sh modified)) = 1" "\<not> committing (klog (sh modified))" "disksize (sh modified) = 1000"
    by (simp_all add: modified_def empty_cache_def ringed_def)
  have g: "get32 (replicate 512 0) 0 = 0" by (simp add: get32_def join32_def eval_nat_numeral)
  have a: "(40 :: u32) \<notin> log_area 2" using modified_ok(2) by (simp add: log_set_def)
  have p: "distinct [40 :: u32]" "[40 :: u32] \<noteq> []" "length [40 :: u32] < NBUF" by simp_all
  have q: "length (disk (sh modified) (unat (2 :: u32))) = BSIZE" "get32 (disk (sh modified) (unat (2 :: u32))) 0 = 0" using g by (simp_all add: z(1))
  note end_op_atomic[OF modified_ok p z(2,3) q, unfolded z(4)]
  then obtain t ws where t: "end_op modified = Ok () t" "dwrites (sh t) = dwrites (sh modified) @ ws"
    and r: "\<And>k. \<exists>u. recover_from_log (booting (replay (take k ws) (disk (sh modified)))) = Ok () u \<and>
      (\<forall>m. m \<notin> log_area 2 \<longrightarrow> disk (sh u) (unat m) = (if k \<le> length [40 :: u32] then disk (sh modified) (unat m) else new_view m))"
    using booted_booting by blast
  from r[of 1] obtain r1 where "recover_from_log (booting (replay (take 1 ws) (disk (sh modified)))) = Ok () r1" "disk (sh r1) 40 = replicate 512 0"
    using a z(1) by force
  moreover from r[of 2] obtain r2 where "recover_from_log (booting (replay (take 2 ws) (disk (sh modified)))) = Ok () r2" "disk (sh r2) 40 = replicate 512 7"
    using a by (force simp: new_view_def)
  ultimately show ?thesis using t by blast
qed

section \<open>Adding a block to the transaction\<close>

definition absorb :: "u32 \<Rightarrow> u32 list \<Rightarrow> u32 list" where
  "absorb n bl = (if n \<in> set bl then bl else bl @ [n])"

lemma log_record_ok:
  assumes "log_set ls bl s" and "length bl < LOGSIZE" and "n \<notin> log_area ls" "unat n < disksize (sh s)"
  shows "log_set ls (absorb n bl) (s\<lparr>sh := (sh s)\<lparr>klog := log_record n (klog (sh s))\<rparr>\<rparr>)"
proof -
  let ?l = "klog (sh s)"
  have l: "take (length bl) (lh_block ?l) = bl" "lh_n ?l = int (length bl)" "length (lh_block ?l) = LOGSIZE" using assms(1) by (simp_all add: log_set_def)
  show ?thesis
  proof (cases "n \<in> set bl")
    case True
    then obtain i where i: "scan (\<lambda>w. w = n) bl = Some i" using scan_Some_ex[of "\<lambda>w. w = n" bl] by auto
    note j = scan_SomeD[OF i]
    have "lh_block ?l ! i = bl ! i" using nth_take[of i "length bl" "lh_block ?l"] l(1) j(1) by simp
    then have "log_record n ?l = ?l" using i l j(2) list_update_id[of "lh_block ?l" i] by (simp add: log_record_def)
    then show ?thesis using True assms(1) by (simp add: absorb_def)
  next
    case False
    then have n: "scan (\<lambda>w. w = n) bl = None" by auto
    have r: "log_record n ?l = ?l\<lparr>lh_block := (lh_block ?l)[length bl := n], lh_n := int (length bl) + 1\<rparr>"
      using l by (simp add: log_record_def n del: scan_None)
    have "take (Suc (length bl)) ((lh_block ?l)[length bl := n]) = bl @ [n]"
      using l(1,3) assms(2) by (simp add: take_Suc_conv_app_nth)
    then show ?thesis using assms False r by (simp add: log_set_def absorb_def)
  qed
qed

lemma cinv_dirty:
  assumes c: "cinv L v D i x" and "b \<in> L" and n: "blockno (bcache x ! b) = n"
  shows "cinv L (v(n := d)) (insert n D) i (upd_buf b (\<lambda>r. r\<lparr>b_dirty := True\<rparr>) x)"
proof -
  let ?y = "upd_buf b (\<lambda>r. r\<lparr>b_dirty := True\<rparr>) x"
  have b: "b < NBUF" using cinvD(3)[OF c] assms(2) by (auto simp del: NBUF_def)
  have e: "bcache ?y ! j = (if j = b then (bcache x ! b)\<lparr>b_dirty := True\<rparr> else bcache x ! j)" if "j < NBUF" for j
    using cinvD(4)[OF c] that by (simp del: NBUF_def)
  then have ca: "cached ?y j m = cached x j m" if "j < NBUF" for j m using that by (simp add: cached_def)
  have cb: "cached x b n" using cinvD(5)[OF c b] assms(2) n by (simp add: buf_ok_def cached_def)
  have u: "j = b" if "j < NBUF" "cached x j n" for j by (rule onceD[OF cinvD(2)[OF c] that(1) b that(2) cb])
  show ?thesis
  proof (rule cinvI)
    show "once ?y" using cinvD(2)[OF c] ca unfolding once_def by blast
    fix j assume j: "j < NBUF"
    have nj: "j \<noteq> b \<Longrightarrow> bdev (bcache x ! j) = 1 \<Longrightarrow> blockno (bcache x ! j) \<noteq> n" using u[OF j] by (auto simp: cached_def)
    show "buf_ok L (v(n := d)) (insert n D) i j (bcache ?y ! j) (slocks ?y (BufLock j))"
      using cinvD(5)[OF c j] assms(2) nj n unfolding e[OF j] by (auto simp: buf_ok_def)
  next
    fix m assume m: "m \<in> insert n D"
    show "\<exists>j < NBUF. cached ?y j m \<and> b_dirty (bcache ?y ! j)"
    proof (cases "m = n")
      case True
      then show ?thesis using b cb ca[OF b] e[OF b] by (intro exI[of _ b]) simp
    next
      case False
      then obtain j where j: "j < NBUF" "cached x j m" "b_dirty (bcache x ! j)" using cinvD(6)[OF c, of m] m by blast
      then show ?thesis using ca[OF j(1)] e[OF j(1)] by (intro exI[of _ j]) auto
    qed
  next
    fix m assume "m \<notin> insert n D"
    then show "disk ?y (unat m) = (v(n := d)) m" using cinvD(7)[OF c, of m] by simp
  qed (use cinvD(1,3)[OF c] in simp_all)
qed

text \<open>C19: \<open>log_write\<close> of a locked buffer makes its contents part of the transaction without touching
  the disk: the block joins the list of the log once, however often it is written, and is pinned in
  the cache, so that the state is again one \<open>end_op\<close> commits atomically.\<close>

theorem log_write_joins:
  assumes "alone s" and "log_set ls bl s" and "cinv L v (set bl) (mypid s) (sh s)" and "distinct bl"
    and "b \<in> L" and "blockno (bcache (sh s) ! b) = n" and "n \<notin> log_area ls" and "unat n < disksize (sh s)"
    and "length bl < LOGSIZE" and "int (length bl) < sint (log_size (klog (sh s))) - 1" and "1 \<le> outstanding (klog (sh s))"
  shows "\<exists>t. log_write b s = Ok () t \<and> alone t \<and> mypid t = mypid s \<and> disk (sh t) = disk (sh s) \<and> dwrites (sh t) = dwrites (sh s) \<and>
    log_set ls (absorb n bl) t \<and> distinct (absorb n bl) \<and>
    cinv L (v(n := bdata (bcache (sh s) ! b))) (set (absorb n bl)) (mypid s) (sh t) \<and>
    bdata (bcache (sh t) ! b) = bdata (bcache (sh s) ! b) \<and> blockno (bcache (sh t) ! b) = n"
proof -
  let ?x = "(sh s)\<lparr>klog := log_record n (klog (sh s))\<rparr>"
  let ?t = "s\<lparr>sh := upd_buf b (\<lambda>r. r\<lparr>b_dirty := True\<rparr>) ?x\<rparr>"
  have hd: "others s = []" "held s = []" using assms(1) by (simp_all add: alone_def)
  have n: "lh_n (klog (sh s)) = int (length bl)" using assms(2) by (simp add: log_set_def)
  have e: "s\<lparr>sh := y, held := []\<rparr> = s\<lparr>sh := y\<rparr>" for y using hd(2) by simp
  have b: "b < length (bcache (sh s))" using cinvD(3,4)[OF assms(3)] assms(5) by (auto simp del: NBUF_def)
  have "log_write b s = Ok () ?t" using hd n assms(6,9-11) by (simp add: log_write_def kdefs e)
  moreover have "log_set ls (absorb n bl) ?t"
    using log_record_ok[OF assms(2,9,7,8)] by (simp add: log_set_def)
  moreover have "cinv L (v(n := bdata (bcache (sh s) ! b))) (insert n (set bl)) (mypid s) (sh ?t)"
    using cinv_dirty[of L v "set bl" "mypid s" ?x b n] assms(3,5,6) by simp
  then have "cinv L (v(n := bdata (bcache (sh s) ! b))) (set (absorb n bl)) (mypid s) (sh ?t)"
    by (cases "n \<in> set bl") (simp_all add: absorb_def insert_absorb)
  ultimately show ?thesis using assms(1,4,6) b by (intro exI[of _ ?t]) (simp add: absorb_def alone_def mypid_def)
qed

theorem log_write_joins_witness:
  "\<exists>b s t. bread 1 41 modified = Ok b s \<and> log_write b s = Ok () t \<and> log_set 2 [40, 41] t \<and> dwrites (sh t) = dwrites (sh modified)"
proof -
  have m: "(41 :: u32) \<notin> log_area 2" using log_range[of 2 33 41] by auto
  have z: "disksize (sh modified) = 1000" "klog (sh modified) = \<lparr>log_start = 2, log_size = 30, outstanding = 1, committing = False, log_dev = 1, lh_n = 1,
       lh_block = 40 # replicate 29 0\<rparr>" by (simp_all add: modified_def empty_cache_def ringed_def)
  obtain b s where s: "bread 1 41 modified = Ok b s" "kept modified s" "cinv (insert b {}) new_view (set [40]) (mypid modified) (sh s)"
    "blockno (bcache (sh s) ! b) = 41" "dwrites (sh s) = dwrites (sh modified)"
    by (rule bread_ok[OF modified_ok(1,3)]) (auto simp: z)
  have k: "alone s" "mypid s = mypid modified" "klog (sh s) = klog (sh modified)" "disksize (sh s) = 1000" using s(2) z(1) by (simp_all add: kept_def)
  have "sint (30 :: u32) = 30" by (simp add: sint32)
  then show ?thesis
    using log_write_joins[OF k(1) log_set_kept[OF modified_ok(2) s(2)], of "{b}" new_view b 41] s k z m
    by (auto simp: absorb_def)
qed

section \<open>Stopping during recovery\<close>

definition head_says :: "u32 \<Rightarrow> nat \<Rightarrow> u32 list \<Rightarrow> (nat \<Rightarrow> u8 list) \<Rightarrow> bool" where
  "head_says ls N bl d \<longleftrightarrow> length (d (unat ls)) = BSIZE \<and> sint (get32 (d (unat ls)) 0) = int (length bl) \<and> length bl \<le> LOGSIZE \<and>
     (\<forall>i < length bl. get32 (d (unat ls)) (4 + 4 * i) = bl ! i) \<and> distinct bl \<and> (\<forall>n \<in> set bl. unat n < N \<and> n \<notin> log_area ls)"

text \<open>C18: recovery can be interrupted and repeated.  On a disk whose header lists the blocks \<open>bl\<close>,
  recovery copies the log blocks home and sets the count of the header to 0, in memory and on the
  disk, where the rest of the header block keeps its bytes; when the machine stops after any
  number of its writes and boots again, the next recovery ends with the same home blocks.\<close>

theorem recovery_restartable:
  assumes "booted ls N d y" and "unat ls + LOGSIZE < N" and "N \<le> 2 ^ 32" and "head_says ls N bl d"
  shows "\<exists>t ws. recover_from_log y = Ok () t \<and> dwrites (sh t) = dwrites (sh y) @ ws \<and>
    (\<forall>i < length bl. disk (sh t) (unat (bl ! i)) = d (unat (ls + of_nat i + 1))) \<and>
    (\<forall>m. m \<notin> log_area ls \<union> set bl \<longrightarrow> disk (sh t) (unat m) = d (unat m)) \<and>
    lh_n (klog (sh t)) = 0 \<and> get32 (disk (sh t) (unat ls)) 0 = 0 \<and> drop 4 (disk (sh t) (unat ls)) = drop 4 (d (unat ls)) \<and>
    (\<forall>k z. booted ls N (replay (take k ws) d) z \<longrightarrow>
      (\<exists>u. recover_from_log z = Ok () u \<and> (\<forall>m. m \<notin> log_area ls \<longrightarrow> disk (sh u) (unat m) = disk (sh t) (unat m))))"
proof -
  let ?w = "\<lambda>m. d (unat m)" and ?n = "length bl"
  let ?hw = "home_writes ls bl ?w ?n"
  define v where "v = puts ?hw ?w"
  have h: "length (?w ls) = 512" "sint (get32 (?w ls) 0) = int ?n" "?n \<le> LOGSIZE" "\<And>i. i < ?n \<Longrightarrow> get32 (?w ls) (4 + 4 * i) = bl ! i"
    "distinct bl" "\<forall>n \<in> set bl. unat n < N \<and> n \<notin> log_area ls" using assms(4) by (simp_all add: head_says_def)
  have keys: "fst ` set (home_writes ls bl x k) \<subseteq> set bl" if "k \<le> ?n" for x k using that by (auto simp: home_writes_def)
  have area: "puts (home_writes ls bl x k) x m = x m" if "k \<le> ?n" "m \<in> log_area ls" for x k m
    using keys[OF that(1), of x] h(6) that(2) by (intro puts_notin) auto
  have vi: "v (bl ! i) = d (unat (ls + of_nat i + 1))" if "i < ?n" for i
    unfolding v_def using h(5) that by (intro puts_in) (auto simp: home_writes_def comp_def map_nth)
  have vo: "v m = d (unat m)" if "m \<notin> set bl" for m
    unfolding v_def using keys[of ?n ?w] that by (intro puts_notin) auto
  have "\<exists>t. recover_from_log y = Ok () t \<and> alone t \<and> log_set ls [] t \<and> cinv {} (v(ls := cleared (v ls))) {} (mypid t) (sh t) \<and>
    dwrites (sh t) = dwrites (sh y) @ at_disk ?hw @ [(unat ls, cleared (v ls))]"
    unfolding v_def using assms(1-3) h by (intro recover_ok) (auto simp: booted_def)
  then obtain t where t: "recover_from_log y = Ok () t" "cinv {} (v(ls := cleared (v ls))) {} (mypid t) (sh t)"
    "dwrites (sh t) = dwrites (sh y) @ at_disk (?hw @ [(ls, cleared (v ls))])" "lh_n (klog (sh t)) = 0" by (auto simp: log_set_def)
  have dt: "disk (sh t) (unat m) = v m" if "m \<notin> log_area ls" for m
    using cinvD(7)[OF t(2), of m] in_log_area(2)[of ls] that by auto
  have vls: "v ls = ?w ls" using area[of ?n ls ?w] in_log_area(2)[of ls] by (simp add: v_def)
  have hd: "get32 (disk (sh t) (unat ls)) 0 = 0" "drop 4 (disk (sh t) (unat ls)) = drop 4 (d (unat ls))"
    using cinvD(7)[OF t(2), of ls] h(1) by (simp_all add: cleared_def get32_put32 vls) (simp add: put32_def)
  have rest: "\<exists>u. recover_from_log z = Ok () u \<and> (\<forall>m. m \<notin> log_area ls \<longrightarrow> disk (sh u) (unat m) = v m)"
    if z: "booted ls N (replay (take k (at_disk (?hw @ [(ls, cleared (v ls))]))) d) z" for k z
  proof -
    define x where "x = puts (take k (?hw @ [(ls, cleared (v ls))])) ?w"
    have view: "replay (take k (at_disk (?hw @ [(ls, cleared (v ls))]))) d (unat m) = x m" for m
      by (simp only: x_def take_at_disk replay_view)
    note rec = recovered[OF z assms(2,3) view]
    show ?thesis
    proof (cases "k \<le> ?n")
      case True
      have x: "x = puts (home_writes ls bl ?w k) ?w" using True by (simp add: x_def home_writes_def take_map)
      have xa: "x m = ?w m" if "m \<in> log_area ls" for m using area[OF True that] x by simp
      have "home_writes ls bl x ?n = ?hw" using xa in_log_area(1)[of _ ls] h(3) by (auto simp: home_writes_def)
      moreover have "puts ?hw x m = v m" for m
      proof (cases "m \<in> set bl")
        case True
        then obtain i where "i < ?n" "m = bl ! i" by (auto simp: in_set_conv_nth)
        then show ?thesis using vi[of i] h(5) by (simp, intro puts_in) (auto simp: home_writes_def comp_def map_nth)
      next
        case False
        then have "m \<notin> fst ` set ?hw" "m \<notin> fst ` set (home_writes ls bl ?w k)" using keys[of ?n ?w] keys[OF \<open>k \<le> ?n\<close>, of ?w] by blast+
        then show ?thesis using vo[OF False] by (simp add: puts_notin x)
      qed
      ultimately show ?thesis using rec[of bl] xa[OF in_log_area(2)] h(2-) by auto
    next
      case False
      then have x: "x = v(ls := cleared (v ls))" by (simp add: x_def v_def home_writes_def take_Cons')
      have "get32 (cleared (v ls)) 0 = 0" using h(1) by (simp add: cleared_def get32_put32 vls)
      then have "\<exists>u. recover_from_log z = Ok () u \<and> (\<forall>m. m \<notin> log_area ls \<longrightarrow> disk (sh u) (unat m) = x m)"
        using rec[of "[]"] x by simp
      then show ?thesis using x in_log_area(2)[of ls] by auto
    qed
  qed
  have "bl ! i \<notin> log_area ls" if "i < ?n" for i using h(6) that by simp
  then show ?thesis using t(1,3,4) hd dt vi vo rest
    by (intro exI[of _ t] exI[of _ "at_disk (?hw @ [(ls, cleared (v ls))])"]) simp
qed

definition committed :: "nat \<Rightarrow> u8 list" where
  "committed = (\<lambda>_. replicate 512 0)(2 := head_bytes 1 [40] (replicate 512 0) 1, 3 := replicate 512 7)"

theorem recovery_restartable_witness:
  "\<exists>t ws u. recover_from_log (booting committed) = Ok () t \<and> dwrites (sh t) = dwrites (sh (booting committed)) @ ws \<and>
    recover_from_log (booting (replay (take 1 ws) committed)) = Ok () u \<and> disk (sh u) 40 = replicate 512 7"
proof -
  have a: "(40 :: u32) \<notin> log_area 2" using log_range[of 2 33 40] by auto
  have e: "get32 (head_bytes 1 [40] (replicate 512 0) 1) 0 = 1" "get32 (head_bytes 1 [40] (replicate 512 0) 1) 4 = 40"
    "length (head_bytes 1 [40] (replicate 512 0) 1) = 512"
    using head_count[of "replicate 512 0" 1 1 "[40]"] head_block[of "replicate 512 0" 1 0 1 "[40]"] length_head_bytes[of "replicate 512 0" 1 1 "[40]"] by simp_all
  have h: "head_says 2 1000 [40] committed" using e a unfolding head_says_def committed_def by (simp del: head_bytes.simps)
  have n: "unat (2 :: u32) + LOGSIZE < 1000" "(1000 :: nat) \<le> 2 ^ 32" by simp_all
  from recovery_restartable[OF booted_booting n h] obtain t ws where
    t: "recover_from_log (booting committed) = Ok () t" "dwrites (sh t) = dwrites (sh (booting committed)) @ ws"
      "\<forall>i < length [40 :: u32]. disk (sh t) (unat ([40 :: u32] ! i)) = committed (unat (2 + of_nat i + 1 :: u32))"
    and r: "\<forall>k z. booted 2 1000 (replay (take k ws) committed) z \<longrightarrow>
      (\<exists>u. recover_from_log z = Ok () u \<and> (\<forall>m. m \<notin> log_area 2 \<longrightarrow> disk (sh u) (unat m) = disk (sh t) (unat m)))" by blast
  have "disk (sh t) 40 = replicate 512 7" using t(3) by (simp add: committed_def)
  moreover obtain u where "recover_from_log (booting (replay (take 1 ws) committed)) = Ok () u"
    "\<forall>m. m \<notin> log_area 2 \<longrightarrow> disk (sh u) (unat m) = disk (sh t) (unat m)" using r booted_booting by blast
  ultimately show ?thesis using t(1,2) a by force
qed

end
