(* ===== verification/Spinlock.thy ===== *)
theory Spinlock
  imports User_Locks
begin

text \<open>
  Spinlocks as the CPUs execute them (\<open>spinlock.c\<close>, \<open>mycpu\<close> of \<open>proc.c\<close>): any number of CPUs, one
  access to the shared lock per step, interrupts disabled and enabled by \<open>pushcli\<close> and \<open>popcli\<close>.
  The rest of the library uses these locks as one atomic step; the theorems here say why it may.
\<close>

section \<open>Disabling interrupts\<close>

text \<open>\<open>eif\<close> is the bit \<open>FL_IF\<close> of the CPU's flags.\<close>

record cpu =
  ncli :: int
  intena :: bool
  eif :: bool

definition pushcli :: "cpu \<Rightarrow> cpu" where
  "pushcli c = (let e = eif c; c1 = c\<lparr>eif := False\<rparr>; c2 = (if ncli c1 = 0 then c1\<lparr>intena := e\<rparr> else c1)
     in c2\<lparr>ncli := ncli c2 + 1\<rparr>)"

definition popcli :: "cpu \<Rightarrow> string + cpu" where
  "popcli c = (if eif c then Inl ''popcli - interruptible''
     else let c1 = c\<lparr>ncli := ncli c - 1\<rparr> in
       if ncli c1 < 0 then Inl ''popcli''
       else Inr (if ncli c1 = 0 \<and> intena c1 then c1\<lparr>eif := True\<rparr> else c1))"

section \<open>Locks\<close>

record spinlock =
  locked :: u32
  lcpu :: "nat option"

definition initlock_s :: "spinlock \<Rightarrow> spinlock" where
  "initlock_s l = l\<lparr>locked := 0, lcpu := None\<rparr>"

text \<open>Where a CPU is: in \<open>holding\<close> called by \<open>acquire\<close> (\<open>AChk1\<close>: before it reads \<open>locked\<close>, \<open>AChk2\<close>:
  before it reads \<open>cpu\<close>), at the \<open>xchg\<close> loop, before it sets \<open>cpu\<close>; in \<open>holding\<close> called by
  \<open>release\<close>, before it clears \<open>cpu\<close>, before it clears \<open>locked\<close>, before \<open>popcli\<close>; or stopped by
  \<open>panic\<close>.\<close>

datatype spc = Idle | AChk1 nat | AChk2 nat | ASpin nat | ASet nat | RChk1 nat | RChk2 nat | RClr nat | RUnl nat | RPop
  | Dead string

text \<open>\<open>crit\<close> is not part of the code: it records which CPU has returned from \<open>acquire\<close> of which lock and
  has not passed the check of \<open>release\<close> since.\<close>

record smp =
  locks :: "nat \<Rightarrow> spinlock"
  cpus :: "nat \<Rightarrow> cpu"
  spcs :: "nat \<Rightarrow> spc"
  crit :: "(nat \<times> nat) set"

definition goto :: "nat \<Rightarrow> spc \<Rightarrow> smp \<Rightarrow> smp" where
  "goto c pc s = s\<lparr>spcs := (spcs s)(c := pc)\<rparr>"

definition set_cpu :: "nat \<Rightarrow> cpu \<Rightarrow> smp \<Rightarrow> smp" where
  "set_cpu c v s = s\<lparr>cpus := (cpus s)(c := v)\<rparr>"

definition set_lock :: "nat \<Rightarrow> (spinlock \<Rightarrow> spinlock) \<Rightarrow> smp \<Rightarrow> smp" where
  "set_lock l f s = s\<lparr>locks := (locks s)(l := f (locks s l))\<rparr>"

text \<open>\<open>mycpu()\<close> on CPU \<open>c\<close>: its check; the loop over the APIC ids finds the entry of \<open>c\<close>.\<close>

definition mycpu :: "nat \<Rightarrow> smp \<Rightarrow> string + nat" where
  "mycpu c s = (if eif (cpus s c) then Inl (''mycpu called with interrupts enabled'' @ [CHR 0x0A]) else Inr c)"

definition pop_to :: "nat \<Rightarrow> spc \<Rightarrow> smp \<Rightarrow> smp" where
  "pop_to c pc s = (case popcli (cpus s c) of Inl e \<Rightarrow> goto c (Dead e) s | Inr v \<Rightarrow> goto c pc (set_cpu c v s))"

text \<open>\<open>holding(lk)\<close>: \<open>pushcli\<close>, the two reads, \<open>popcli\<close>, and on to \<open>yes\<close> or \<open>no\<close>.\<close>

definition hold_enter :: "nat \<Rightarrow> spc \<Rightarrow> smp \<Rightarrow> smp" where
  "hold_enter c pc s = goto c pc (set_cpu c (pushcli (cpus s c)) s)"

definition hold_locked :: "nat \<Rightarrow> nat \<Rightarrow> spc \<Rightarrow> spc \<Rightarrow> smp \<Rightarrow> smp" where
  "hold_locked c l next no s = (if locked (locks s l) \<noteq> 0 then goto c next s else pop_to c no s)"

definition hold_cpu :: "nat \<Rightarrow> nat \<Rightarrow> spc \<Rightarrow> spc \<Rightarrow> smp \<Rightarrow> smp" where
  "hold_cpu c l yes no s = (case mycpu c s of Inl e \<Rightarrow> goto c (Dead e) s
     | Inr i \<Rightarrow> pop_to c (if lcpu (locks s l) = Some i then yes else no) s)"

definition acquire_enter :: "nat \<Rightarrow> nat \<Rightarrow> smp \<Rightarrow> smp" where
  "acquire_enter c l s = hold_enter c (AChk1 l) (set_cpu c (pushcli (cpus s c)) s)"

definition acquire_spin :: "nat \<Rightarrow> nat \<Rightarrow> smp \<Rightarrow> smp" where
  "acquire_spin c l s = (let (r, m) = xchg (locked (locks s l)) 1; s1 = set_lock l (\<lambda>k. k\<lparr>locked := m\<rparr>) s
     in if r \<noteq> 0 then s1 else goto c (ASet l) s1)"

definition acquire_set :: "nat \<Rightarrow> nat \<Rightarrow> smp \<Rightarrow> smp" where
  "acquire_set c l s = (case mycpu c s of Inl e \<Rightarrow> goto c (Dead e) s
     | Inr i \<Rightarrow> goto c Idle (set_lock l (\<lambda>k. k\<lparr>lcpu := Some i\<rparr>) (s\<lparr>crit := insert (c, l) (crit s)\<rparr>)))"

definition acquire_step :: "nat \<Rightarrow> smp \<Rightarrow> smp" where
  "acquire_step c s = (case spcs s c of
     AChk1 l \<Rightarrow> hold_locked c l (AChk2 l) (ASpin l) s
   | AChk2 l \<Rightarrow> hold_cpu c l (Dead ''acquire'') (ASpin l) s
   | ASpin l \<Rightarrow> acquire_spin c l s
   | ASet l \<Rightarrow> acquire_set c l s
   | _ \<Rightarrow> s)"

definition release_enter :: "nat \<Rightarrow> nat \<Rightarrow> smp \<Rightarrow> smp" where
  "release_enter c l s = hold_enter c (RChk1 l) s"

definition release_step :: "nat \<Rightarrow> smp \<Rightarrow> smp" where
  "release_step c s = (case spcs s c of
     RChk1 l \<Rightarrow> hold_locked c l (RChk2 l) (Dead ''release'') s
   | RChk2 l \<Rightarrow> hold_cpu c l (RClr l) (Dead ''release'') s
   | RClr l \<Rightarrow> goto c (RUnl l) (set_lock l (\<lambda>k. k\<lparr>lcpu := None\<rparr>) (s\<lparr>crit := crit s - {(c, l)}\<rparr>))
   | RUnl l \<Rightarrow> goto c RPop (set_lock l (\<lambda>k. k\<lparr>locked := 0\<rparr>) s)
   | RPop \<Rightarrow> pop_to c Idle s
   | _ \<Rightarrow> s)"

text \<open>A CPU outside the lock code may call \<open>acquire\<close> or \<open>release\<close> for any lock.\<close>

inductive smp_step :: "smp \<Rightarrow> smp \<Rightarrow> bool" where
  call_acquire: "spcs s c = Idle \<Longrightarrow> smp_step s (acquire_enter c l s)"
| call_release: "spcs s c = Idle \<Longrightarrow> smp_step s (release_enter c l s)"
| in_acquire: "smp_step s (acquire_step c s)"
| in_release: "smp_step s (release_step c s)"

text \<open>At the start no lock is taken; interrupts are on or off as \<open>on\<close> says.\<close>

definition smp_start :: "(nat \<Rightarrow> bool) \<Rightarrow> (nat \<Rightarrow> spinlock) \<Rightarrow> smp" where
  "smp_start on lk = \<lparr>locks = \<lambda>l. initlock_s (lk l), cpus = \<lambda>c. \<lparr>ncli = 0, intena = False, eif = on c\<rparr>, spcs = \<lambda>_. Idle, crit = {}\<rparr>"

inductive smp_reach :: "(nat \<Rightarrow> bool) \<Rightarrow> smp \<Rightarrow> bool" for on where
  start: "smp_reach on (smp_start on lk)"
| step: "smp_reach on s \<Longrightarrow> smp_step s t \<Longrightarrow> smp_reach on t"

section \<open>The flags of one CPU\<close>

definition flags_ok :: "bool \<Rightarrow> cpu \<Rightarrow> bool" where
  "flags_ok on c \<longleftrightarrow> 0 \<le> ncli c \<and> (ncli c = 0 \<longrightarrow> eif c = on) \<and> (0 < ncli c \<longrightarrow> \<not> eif c \<and> intena c = on)"

lemma pushcli_ok: "flags_ok on c \<Longrightarrow> flags_ok on (pushcli c) \<and> ncli (pushcli c) = ncli c + 1"
  by (auto simp: flags_ok_def pushcli_def Let_def)

lemma popcli_ok: "flags_ok on c \<Longrightarrow> 0 < ncli c \<Longrightarrow> \<exists>d. popcli c = Inr d \<and> flags_ok on d \<and> ncli d = ncli c - 1"
  by (auto simp: flags_ok_def popcli_def Let_def)

section \<open>The invariant\<close>

definition holder :: "smp \<Rightarrow> nat \<Rightarrow> nat \<Rightarrow> bool" where
  "holder s l c \<longleftrightarrow> lcpu (locks s l) = Some c \<or> spcs s c = ASet l \<or> spcs s c = RUnl l"

definition lock_inv :: "smp \<Rightarrow> bool" where
  "lock_inv s \<longleftrightarrow> (\<forall>l c d. holder s l c \<and> holder s l d \<longrightarrow> c = d) \<and> (\<forall>l. locked (locks s l) \<noteq> 0 \<longleftrightarrow> (\<exists>c. holder s l c)) \<and>
     (\<forall>l c. lcpu (locks s l) = Some c \<longrightarrow> spcs s c \<noteq> ASet l \<and> spcs s c \<noteq> RUnl l) \<and>
     (\<forall>l c. spcs s c = RClr l \<longrightarrow> lcpu (locks s l) = Some c) \<and> (\<forall>l c. (c, l) \<in> crit s \<longleftrightarrow> lcpu (locks s l) = Some c)"

fun extra :: "spc \<Rightarrow> int" where
  "extra (AChk1 _) = 2" | "extra (AChk2 _) = 2" | "extra (ASpin _) = 1" | "extra (RChk1 _) = 1" | "extra (RChk2 _) = 1" | "extra RPop = 1"
| "extra _ = 0"

fun dead :: "spc \<Rightarrow> bool" where
  "dead (Dead _) = True"
| "dead _ = False"

definition cpu_inv :: "(nat \<Rightarrow> bool) \<Rightarrow> nat \<Rightarrow> smp \<Rightarrow> bool" where
  "cpu_inv on c s \<longleftrightarrow> (\<not> dead (spcs s c) \<longrightarrow> finite {l. holder s l c} \<and> flags_ok (on c) (cpus s c) \<and>
     ncli (cpus s c) = int (card {l. holder s l c}) + extra (spcs s c))"

definition smp_inv :: "(nat \<Rightarrow> bool) \<Rightarrow> smp \<Rightarrow> bool" where
  "smp_inv on s \<longleftrightarrow> lock_inv s \<and> (\<forall>c. cpu_inv on c s)"

lemma set_fields [simp]:
  "locks (goto c pc s) = locks s" "cpus (goto c pc s) = cpus s" "spcs (goto c pc s) = (spcs s)(c := pc)" "crit (goto c pc s) = crit s"
  "locks (set_cpu c v s) = locks s" "cpus (set_cpu c v s) = (cpus s)(c := v)" "spcs (set_cpu c v s) = spcs s" "crit (set_cpu c v s) = crit s"
  "locks (set_lock l f s) = (locks s)(l := f (locks s l))" "cpus (set_lock l f s) = cpus s" "spcs (set_lock l f s) = spcs s" "crit (set_lock l f s) = crit s"
  by (simp_all add: goto_def set_cpu_def set_lock_def)

text \<open>A step that only concerns the CPU itself.\<close>

lemma local_step:
  assumes "smp_inv on s" and e: "locks t = locks s" "crit t = crit s" "spcs t = (spcs s)(c := pc)" "\<And>d. d \<noteq> c \<Longrightarrow> cpus t d = cpus s d"
    and p: "\<And>l. spcs s c \<noteq> ASet l \<and> spcs s c \<noteq> RUnl l \<and> pc \<noteq> ASet l \<and> pc \<noteq> RUnl l" "\<And>l. pc = RClr l \<Longrightarrow> lcpu (locks s l) = Some c"
    and q: "\<not> dead pc \<Longrightarrow> \<not> dead (spcs s c) \<and> flags_ok (on c) (cpus t c) \<and> ncli (cpus t c) - extra pc = ncli (cpus s c) - extra (spcs s c)"
  shows "smp_inv on t"
proof -
  have h: "holder t l d = holder s l d" for l d using p(1) by (auto simp: holder_def e)
  have "lock_inv t"
    using assms(1) p unfolding smp_inv_def lock_inv_def h e by (auto simp del: fun_upd_apply) (auto split: if_splits)
  moreover have "cpu_inv on d t" for d
    using assms(1) q unfolding smp_inv_def cpu_inv_def h by (cases "d = c") (auto simp: e)
  ultimately show ?thesis by (simp add: smp_inv_def)
qed

lemma cpuD:
  assumes "smp_inv on s" and "\<not> dead (spcs s c)"
  shows "flags_ok (on c) (cpus s c)" "finite {l. holder s l c}" "ncli (cpus s c) = int (card {l. holder s l c}) + extra (spcs s c)"
    "0 < extra (spcs s c) \<Longrightarrow> 0 < ncli (cpus s c) \<and> \<not> eif (cpus s c)"
proof -
  show *: "flags_ok (on c) (cpus s c)" "finite {l. holder s l c}" "ncli (cpus s c) = int (card {l. holder s l c}) + extra (spcs s c)"
    using assms by (simp_all add: smp_inv_def cpu_inv_def)
  show "0 < ncli (cpus s c) \<and> \<not> eif (cpus s c)" if "0 < extra (spcs s c)"
    using that *(1,3) by (auto simp: flags_ok_def)
qed

lemma enter_ok:
  assumes "smp_inv on s" and "spcs s c = Idle"
  shows "smp_inv on (acquire_enter c l s)" "smp_inv on (release_enter c l s)"
proof -
  note f = cpuD(1)[OF assms(1), of c] assms(2)
  have p: "flags_ok (on c) (pushcli (cpus s c))" "ncli (pushcli (cpus s c)) = ncli (cpus s c) + 1" using f pushcli_ok by auto
  show "smp_inv on (acquire_enter c l s)"
    using assms(2) p pushcli_ok[OF p(1)] by (intro local_step[OF assms(1), of _ c "AChk1 l"]) (simp_all add: acquire_enter_def hold_enter_def)
  show "smp_inv on (release_enter c l s)"
    using assms(2) p by (intro local_step[OF assms(1), of _ c "RChk1 l"]) (simp_all add: release_enter_def hold_enter_def)
qed

lemma pop_to_ok:
  assumes "smp_inv on s" and "\<not> dead (spcs s c)" "extra (spcs s c) = extra pc + 1 \<or> dead pc" "0 < extra (spcs s c)"
    and "\<And>l. pc = RClr l \<Longrightarrow> lcpu (locks s l) = Some c" "\<And>l. pc \<noteq> ASet l \<and> pc \<noteq> RUnl l"
  shows "smp_inv on (pop_to c pc s)" "spcs (pop_to c pc s) c = pc" "crit (pop_to c pc s) = crit s"
proof -
  obtain v where v: "popcli (cpus s c) = Inr v" "flags_ok (on c) v" "ncli v = ncli (cpus s c) - 1"
    using popcli_ok cpuD(1,4)[OF assms(1,2)] assms(4) by blast
  have e: "pop_to c pc s = goto c pc (set_cpu c v s)" using v(1) by (simp add: pop_to_def)
  have n: "spcs s c \<noteq> ASet l \<and> spcs s c \<noteq> RUnl l" for l using assms(4) by auto
  show "smp_inv on (pop_to c pc s)" unfolding e
    using v assms(2,3,5,6) n by (intro local_step[OF assms(1), of _ c pc]) auto
  show "spcs (pop_to c pc s) c = pc" "crit (pop_to c pc s) = crit s" by (simp_all add: e)
qed

lemma spin_ok:
  assumes v: "smp_inv on s" and pc: "spcs s c = ASpin l"
  shows "smp_inv on (acquire_spin c l s)"
proof (cases "locked (locks s l) = 0")
  case False
  let ?t = "acquire_spin c l s"
  have e: "locks ?t = (locks s)(l := (locks s l)\<lparr>locked := 1\<rparr>)" "cpus ?t = cpus s" "spcs ?t = spcs s" "crit ?t = crit s"
    using False by (simp_all add: acquire_spin_def xchg_def)
  have k: "lcpu (locks ?t m) = lcpu (locks s m)" "(locked (locks ?t m) = 0) = (locked (locks s m) = 0)" for m using False by (auto simp: e)
  have h: "holder ?t = holder s" by (simp add: holder_def[abs_def] k e(3))
  show ?thesis using v unfolding smp_inv_def lock_inv_def cpu_inv_def h k e(2-4) .
next
  case True
  let ?t = "acquire_spin c l s"
  have e: "locks ?t = (locks s)(l := (locks s l)\<lparr>locked := 1\<rparr>)" "cpus ?t = cpus s" "spcs ?t = (spcs s)(c := ASet l)" "crit ?t = crit s"
    using True by (simp_all add: acquire_spin_def xchg_def)
  have I: "lock_inv s" using v by (simp add: smp_inv_def)
  have none: "\<not> holder s l d" for d using I True unfolding lock_inv_def by blast
  have k: "lcpu (locks ?t m) = lcpu (locks s m)" for m by (simp add: e)
  have h: "holder ?t m d = (if m = l \<and> d = c then True else holder s m d)" for m d
    using pc by (auto simp: holder_def k e(3))
  have "lock_inv ?t" unfolding lock_inv_def
  proof (intro conjI allI impI)
    show "d = d'" if "holder ?t m d \<and> holder ?t m d'" for m d d'
      using that none I unfolding h lock_inv_def by (auto split: if_splits)
    show "(locked (locks ?t m) \<noteq> 0) = (\<exists>d. holder ?t m d)" for m
      using I unfolding h lock_inv_def by (auto simp: e)
    show "spcs ?t d \<noteq> ASet m" "spcs ?t d \<noteq> RUnl m" if "lcpu (locks ?t m) = Some d" for m d
      using that I none[of d] unfolding k lock_inv_def by (auto simp: e holder_def)
    show "lcpu (locks ?t m) = Some d" if "spcs ?t d = RClr m" for m d
      using that I unfolding k lock_inv_def by (auto simp: e split: if_splits)
    show "((d, m) \<in> crit ?t) = (lcpu (locks ?t m) = Some d)" for m d using I unfolding k e(4) lock_inv_def by blast
  qed
  moreover have "cpu_inv on d ?t" for d
  proof (cases "d = c")
    case True
    have "{m. holder ?t m c} = insert l {m. holder s m c}" by (auto simp: h)
    then show ?thesis using cpuD(1-3)[OF v, of c] pc none True by (simp add: cpu_inv_def e)
  next
    case False
    then show ?thesis using v by (auto simp: smp_inv_def cpu_inv_def e h)
  qed
  ultimately show ?thesis by (simp add: smp_inv_def)
qed

text \<open>Setting and clearing \<open>cpu\<close> does not change who has the lock.\<close>

lemma relabel_ok:
  assumes v: "smp_inv on s" and e: "locks t = (locks s)(l := (locks s l)\<lparr>lcpu := x\<rparr>)" "cpus t = cpus s" "spcs t = (spcs s)(c := pc)"
    and h: "\<And>m d. holder t m d = holder s m d" and c: "\<And>m d. (d, m) \<in> crit t \<longleftrightarrow> lcpu (locks t m) = Some d"
    and pc: "\<not> dead (spcs s c)" "extra pc = extra (spcs s c)" "\<And>m. pc \<noteq> RClr m" "\<And>m. pc = ASet m \<or> pc = RUnl m \<Longrightarrow> m = l \<and> x = None"
    and o: "x = None \<and> spcs s c = RClr l \<or> x = Some c \<and> pc = Idle"
  shows "smp_inv on t"
proof -
  have I: "lock_inv s" using v by (simp add: smp_inv_def)
  have "lock_inv t" unfolding lock_inv_def
  proof (intro conjI allI impI)
    show "d = d'" if "holder t m d \<and> holder t m d'" for m d d' using that I unfolding h lock_inv_def by blast
    show "(locked (locks t m) \<noteq> 0) = (\<exists>d. holder t m d)" for m using I unfolding h lock_inv_def by (auto simp: e)
    show "spcs t d \<noteq> ASet m" "spcs t d \<noteq> RUnl m" if "lcpu (locks t m) = Some d" for m d
      using that I pc(4) o h[of m d] unfolding lock_inv_def by (auto simp: e split: if_splits)
    show "lcpu (locks t m) = Some d" if "spcs t d = RClr m" for m d
    proof -
      have d: "d \<noteq> c" "spcs s d = RClr m" using that pc(3) by (auto simp: e split: if_splits)
      then have "lcpu (locks s m) = Some d" using I unfolding lock_inv_def by blast
      moreover have "m \<noteq> l"
      proof
        assume "m = l"
        have "holder s l d" using calculation \<open>m = l\<close> by (simp add: holder_def)
        moreover have "holder s l c" using o I h[of l c] unfolding lock_inv_def by (auto simp: holder_def e)
        ultimately show False using I d(1) unfolding lock_inv_def by blast
      qed
      ultimately show ?thesis by (simp add: e)
    qed
    show "((d, m) \<in> crit t) = (lcpu (locks t m) = Some d)" for m d by (rule c)
  qed
  moreover have "cpu_inv on d t" for d
    using v pc(1,2) unfolding smp_inv_def cpu_inv_def h by (cases "d = c") (auto simp: e)
  ultimately show ?thesis by (simp add: smp_inv_def)
qed

lemma set_ok:
  assumes v: "smp_inv on s" and pc: "spcs s c = ASet l"
  shows "smp_inv on (acquire_set c l s)" "spcs (acquire_set c l s) c = Idle" "(c, l) \<in> crit (acquire_set c l s)"
proof -
  have I: "lock_inv s" using v by (simp add: smp_inv_def)
  have hl: "holder s l c" using pc by (simp add: holder_def)
  have nl: "lcpu (locks s l) = None"
  proof (cases "lcpu (locks s l)")
    case (Some d)
    then have "holder s l d" by (simp add: holder_def)
    then have "d = c" using hl I unfolding lock_inv_def by blast
    then show ?thesis using I Some pc unfolding lock_inv_def by blast
  qed simp
  have "0 < card {m. holder s m c}" using cpuD(2)[OF v, of c] hl pc by (auto simp: card_gt_0_iff)
  then have "\<not> eif (cpus s c)" using cpuD(1,3)[OF v, of c] pc by (simp add: flags_ok_def)
  then have e: "acquire_set c l s = goto c Idle (set_lock l (\<lambda>k. k\<lparr>lcpu := Some c\<rparr>) (s\<lparr>crit := insert (c, l) (crit s)\<rparr>))"
    by (simp add: acquire_set_def mycpu_def)
  show "spcs (acquire_set c l s) c = Idle" "(c, l) \<in> crit (acquire_set c l s)" by (simp_all add: e)
  have oth: "d \<noteq> c \<Longrightarrow> spcs s d \<noteq> ASet l \<and> spcs s d \<noteq> RUnl l" for d
    using I hl unfolding lock_inv_def holder_def by blast
  show "smp_inv on (acquire_set c l s)" unfolding e
  proof (rule relabel_ok[OF v, of _ l "Some c" c Idle])
    let ?t = "goto c Idle (set_lock l (\<lambda>k. k\<lparr>lcpu := Some c\<rparr>) (s\<lparr>crit := insert (c, l) (crit s)\<rparr>))"
    show "holder ?t m d = holder s m d" for m d using nl pc oth[of d] by (auto simp: holder_def)
    show "((d, m) \<in> crit ?t) = (lcpu (locks ?t m) = Some d)" for m d using I nl unfolding lock_inv_def by auto
  qed (simp_all add: pc)
qed

lemma clear_ok:
  assumes v: "smp_inv on s" and pc: "spcs s c = RClr l"
  shows "smp_inv on (release_step c s)"
proof -
  have I: "lock_inv s" using v by (simp add: smp_inv_def)
  have nl: "lcpu (locks s l) = Some c" using I pc unfolding lock_inv_def by blast
  have oth: "spcs s d \<noteq> ASet l \<and> spcs s d \<noteq> RUnl l" for d
    using I nl unfolding lock_inv_def holder_def by blast
  have e: "release_step c s = goto c (RUnl l) (set_lock l (\<lambda>k. k\<lparr>lcpu := None\<rparr>) (s\<lparr>crit := crit s - {(c, l)}\<rparr>))" using pc by (simp add: release_step_def)
  show ?thesis unfolding e
  proof (rule relabel_ok[OF v, of _ l None c "RUnl l"])
    let ?t = "goto c (RUnl l) (set_lock l (\<lambda>k. k\<lparr>lcpu := None\<rparr>) (s\<lparr>crit := crit s - {(c, l)}\<rparr>))"
    show "holder ?t m d = holder s m d" for m d using nl pc oth[of d] by (auto simp: holder_def)
    show "((d, m) \<in> crit ?t) = (lcpu (locks ?t m) = Some d)" for m d using I nl unfolding lock_inv_def by auto
  qed (simp_all add: pc)
qed

lemma unlock_ok:
  assumes v: "smp_inv on s" and pc: "spcs s c = RUnl l"
  shows "smp_inv on (release_step c s)"
proof -
  let ?t = "release_step c s"
  have e: "locks ?t = (locks s)(l := (locks s l)\<lparr>locked := 0\<rparr>)" "cpus ?t = cpus s" "spcs ?t = (spcs s)(c := RPop)" "crit ?t = crit s"
    using pc by (simp_all add: release_step_def)
  have I: "lock_inv s" using v by (simp add: smp_inv_def)
  have hl: "holder s l c" using pc by (simp add: holder_def)
  have nl: "lcpu (locks s l) \<noteq> Some d" for d using I hl pc unfolding lock_inv_def holder_def by blast
  have k: "lcpu (locks ?t m) = lcpu (locks s m)" for m by (simp add: e)
  have h: "holder ?t m d = (holder s m d \<and> \<not> (m = l \<and> d = c))" for m d using pc nl[of c] by (auto simp: holder_def k e(3))
  have "lock_inv ?t" unfolding lock_inv_def
  proof (intro conjI allI impI)
    show "d = d'" if "holder ?t m d \<and> holder ?t m d'" for m d d' using that I unfolding h lock_inv_def by blast
    show "(locked (locks ?t m) \<noteq> 0) = (\<exists>d. holder ?t m d)" for m
      using I hl unfolding h lock_inv_def by (cases "m = l") (auto simp: e)
    show "spcs ?t d \<noteq> ASet m" "spcs ?t d \<noteq> RUnl m" if "lcpu (locks ?t m) = Some d" for m d
      using that I unfolding k lock_inv_def by (auto simp: e)
    show "lcpu (locks ?t m) = Some d" if "spcs ?t d = RClr m" for m d
      using that I unfolding k lock_inv_def by (auto simp: e split: if_splits)
    show "((d, m) \<in> crit ?t) = (lcpu (locks ?t m) = Some d)" for m d using I unfolding k e(4) lock_inv_def by blast
  qed
  moreover have "cpu_inv on d ?t" for d
  proof (cases "d = c")
    case True
    have "{m. holder ?t m c} = {m. holder s m c} - {l}" by (auto simp: h)
    moreover have "0 < card {m. holder s m c}" using cpuD(2)[OF v, of c] hl pc by (auto simp: card_gt_0_iff)
    ultimately show ?thesis using cpuD(1-3)[OF v, of c] pc hl True by (simp add: cpu_inv_def e)
  next
    case False
    then show ?thesis using v by (auto simp: smp_inv_def cpu_inv_def e h)
  qed
  ultimately show ?thesis by (simp add: smp_inv_def)
qed

text \<open>Where a step can lead to: the panics are those of \<open>acquire\<close> on a lock the CPU has and of
  \<open>release\<close> on one it has not.\<close>

definition blamed :: "smp \<Rightarrow> nat \<Rightarrow> spc \<Rightarrow> bool" where
  "blamed s c pc \<longleftrightarrow> (\<forall>m. pc = Dead m \<longrightarrow> spcs s c = Dead m \<or> m = ''acquire'' \<and> (\<exists>l. spcs s c = AChk2 l \<and> (c, l) \<in> crit s) \<or>
     m = ''release'' \<and> (\<exists>l. spcs s c \<in> {RChk1 l, RChk2 l} \<and> (c, l) \<notin> crit s))"

lemma hold_locked_ok:
  assumes "smp_inv on s" and "spcs s c = AChk1 l"
  shows "smp_inv on (hold_locked c l (AChk2 l) (ASpin l) s)" "blamed s c (spcs (hold_locked c l (AChk2 l) (ASpin l) s) c)"
proof -
  note p = pop_to_ok[OF assms(1), of c "ASpin l"]
  have g: "smp_inv on (goto c (AChk2 l) s)"
    using cpuD(1)[OF assms(1), of c] assms(2) by (intro local_step[OF assms(1), of _ c "AChk2 l"]) simp_all
  show "smp_inv on (hold_locked c l (AChk2 l) (ASpin l) s)" "blamed s c (spcs (hold_locked c l (AChk2 l) (ASpin l) s) c)"
    using p g assms(2) by (auto simp: hold_locked_def blamed_def)
qed

lemma hold_locked_release_ok:
  assumes "smp_inv on s" and "spcs s c = RChk1 l"
  shows "smp_inv on (hold_locked c l (RChk2 l) (Dead ''release'') s)" "blamed s c (spcs (hold_locked c l (RChk2 l) (Dead ''release'') s) c)"
proof -
  note p = pop_to_ok[OF assms(1), of c "Dead ''release''"]
  have g: "smp_inv on (goto c (RChk2 l) s)"
    using cpuD(1)[OF assms(1), of c] assms(2) by (intro local_step[OF assms(1), of _ c "RChk2 l"]) simp_all
  have I: "lock_inv s" using assms(1) by (simp add: smp_inv_def)
  have "(c, l) \<notin> crit s" if "locked (locks s l) = 0" using I that unfolding lock_inv_def holder_def by blast
  then show "smp_inv on (hold_locked c l (RChk2 l) (Dead ''release'') s)" "blamed s c (spcs (hold_locked c l (RChk2 l) (Dead ''release'') s) c)"
    using p g assms(2) by (auto simp: hold_locked_def blamed_def)
qed

lemma hold_cpu_ok:
  assumes v: "smp_inv on s" and "spcs s c = AChk2 l \<and> yes = Dead ''acquire'' \<and> no = ASpin l \<or> spcs s c = RChk2 l \<and> yes = RClr l \<and> no = Dead ''release''"
  shows "smp_inv on (hold_cpu c l yes no s)" "blamed s c (spcs (hold_cpu c l yes no s) c)"
proof -
  have I: "lock_inv s" using v by (simp add: smp_inv_def)
  have cr: "(c, l) \<in> crit s \<longleftrightarrow> lcpu (locks s l) = Some c" using I unfolding lock_inv_def by blast
  let ?pc = "if lcpu (locks s l) = Some c then yes else no"
  have "\<not> eif (cpus s c)" using cpuD(4)[OF v, of c] assms(2) by auto
  then have e: "hold_cpu c l yes no s = pop_to c ?pc s" by (simp add: hold_cpu_def mycpu_def)
  have "smp_inv on (pop_to c ?pc s) \<and> spcs (pop_to c ?pc s) c = ?pc"
    using assms(2) by (intro conjI pop_to_ok[OF v]) (auto split: if_splits)
  then show "smp_inv on (hold_cpu c l yes no s)" "blamed s c (spcs (hold_cpu c l yes no s) c)"
    unfolding e using assms(2) cr by (auto simp: blamed_def)
qed

lemma acquire_step_ok:
  assumes "smp_inv on s"
  shows "smp_inv on (acquire_step c s)" "blamed s c (spcs (acquire_step c s) c)"
proof -
  have "smp_inv on (acquire_step c s) \<and> blamed s c (spcs (acquire_step c s) c)"
  proof (cases "spcs s c")
    case (AChk1 l)
    then show ?thesis using hold_locked_ok[OF assms AChk1] by (simp add: acquire_step_def)
  next
    case (AChk2 l)
    then show ?thesis using hold_cpu_ok[OF assms, of c l "Dead ''acquire''" "ASpin l"] by (simp add: acquire_step_def)
  next
    case (ASpin l)
    then have "spcs (acquire_spin c l s) c \<in> {ASpin l, ASet l}" by (auto simp: acquire_spin_def xchg_def Let_def)
    then show ?thesis using ASpin spin_ok[OF assms ASpin] by (auto simp: acquire_step_def blamed_def)
  next
    case (ASet l)
    then show ?thesis using set_ok[OF assms ASet] by (simp add: acquire_step_def blamed_def)
  qed (use assms in \<open>simp_all add: acquire_step_def blamed_def\<close>)
  then show "smp_inv on (acquire_step c s)" "blamed s c (spcs (acquire_step c s) c)" by blast+
qed

lemma release_step_ok:
  assumes "smp_inv on s"
  shows "smp_inv on (release_step c s)" "blamed s c (spcs (release_step c s) c)"
proof -
  have "smp_inv on (release_step c s) \<and> blamed s c (spcs (release_step c s) c)"
  proof (cases "spcs s c")
    case (RChk1 l)
    then show ?thesis using hold_locked_release_ok[OF assms RChk1] by (simp add: release_step_def)
  next
    case (RChk2 l)
    then show ?thesis using hold_cpu_ok[OF assms, of c l "RClr l" "Dead ''release''"] by (simp add: release_step_def)
  next
    case (RClr l)
    then show ?thesis using clear_ok[OF assms RClr] by (simp add: release_step_def blamed_def)
  next
    case (RUnl l)
    then show ?thesis using unlock_ok[OF assms RUnl] by (simp add: release_step_def blamed_def)
  next
    case RPop
    then show ?thesis using pop_to_ok[OF assms, of c Idle] by (simp add: release_step_def blamed_def)
  qed (use assms in \<open>simp_all add: release_step_def blamed_def\<close>)
  then show "smp_inv on (release_step c s)" "blamed s c (spcs (release_step c s) c)" by blast+
qed

lemma smp_start_inv: "smp_inv on (smp_start on lk)"
  by (simp add: smp_inv_def lock_inv_def cpu_inv_def holder_def smp_start_def initlock_s_def flags_ok_def)

lemma smp_reach_inv: "smp_reach on s \<Longrightarrow> smp_inv on s"
proof (induction rule: smp_reach.induct)
  case (step s t)
  show ?case using step.hyps(2) step.IH
    by (cases rule: smp_step.cases) (simp_all add: enter_ok acquire_step_ok(1) release_step_ok(1))
qed (rule smp_start_inv)

section \<open>What the locks guarantee\<close>

text \<open>Two CPUs that run \<open>acquire(0)\<close> and \<open>acquire(1)\<close> up to their return, CPU 1 next in the way of CPU 0.\<close>

definition two_cpus :: smp where
  "two_cpus = smp_start (\<lambda>_. True) (\<lambda>_. \<lparr>locked = 0, lcpu = None\<rparr>)"

definition acquired :: "nat \<Rightarrow> nat \<Rightarrow> smp \<Rightarrow> smp" where
  "acquired c l s = acquire_step c (acquire_step c (acquire_step c (acquire_enter c l s)))"

lemma acquired_reach: "smp_reach on s \<Longrightarrow> spcs s c = Idle \<Longrightarrow> smp_reach on (acquired c l s)"
  unfolding acquired_def by (intro smp_reach.step[OF _ in_acquire] smp_reach.step[OF _ call_acquire])

lemmas smp_simps = acquire_enter_def hold_enter_def hold_locked_def hold_cpu_def pop_to_def acquire_step_def acquire_spin_def acquire_set_def
  mycpu_def pushcli_def popcli_def xchg_def goto_def set_cpu_def set_lock_def Let_def

lemma acquired_0: "acquired 0 7 two_cpus = \<lparr>locks = (\<lambda>_. \<lparr>locked = 0, lcpu = None\<rparr>)(7 := \<lparr>locked = 1, lcpu = Some 0\<rparr>),
    cpus = (\<lambda>_. \<lparr>ncli = 0, intena = False, eif = True\<rparr>)(0 := \<lparr>ncli = 1, intena = True, eif = False\<rparr>), spcs = \<lambda>_. Idle, crit = {(0, 7)}\<rparr>"
  by (auto simp: acquired_def two_cpus_def smp_start_def initlock_s_def smp_simps)

lemma two_reach: "smp_reach (\<lambda>_. True) (acquired 0 7 two_cpus)" "smp_reach (\<lambda>_. True) (acquire_enter 1 7 (acquired 0 7 two_cpus))"
proof -
  have "smp_reach (\<lambda>_. True) two_cpus" unfolding two_cpus_def by (rule smp_reach.start)
  then show *: "smp_reach (\<lambda>_. True) (acquired 0 7 two_cpus)" by (rule acquired_reach) (simp add: two_cpus_def smp_start_def)
  show "smp_reach (\<lambda>_. True) (acquire_enter 1 7 (acquired 0 7 two_cpus))"
    by (rule smp_reach.step[OF * call_acquire]) (simp add: acquired_0)
qed

text \<open>C22: in every interleaving of any number of CPUs, between the return of \<open>acquire\<close> and \<open>release\<close>
  of a lock no other CPU is between them for the same lock, the lock names the CPU, and the CPU runs
  with interrupts disabled.\<close>

theorem spinlock_mutual_exclusion:
  assumes "smp_reach on s" and "(c, l) \<in> crit s" and "\<not> dead (spcs s c)"
  shows "\<not> eif (cpus s c) \<and> locked (locks s l) \<noteq> 0 \<and> lcpu (locks s l) = Some c \<and> {d. (d, l) \<in> crit s} = {c}"
proof -
  have v: "smp_inv on s" by (rule smp_reach_inv[OF assms(1)])
  then have I: "lock_inv s" by (simp add: smp_inv_def)
  have l: "lcpu (locks s l) = Some c" using I assms(2) unfolding lock_inv_def by blast
  then have h: "holder s l c" by (simp add: holder_def)
  then have "0 < card {m. holder s m c}" using cpuD(2)[OF v assms(3)] by (auto simp: card_gt_0_iff)
  moreover have "0 \<le> extra (spcs s c)" by (cases "spcs s c") simp_all
  ultimately have "0 < ncli (cpus s c)" using cpuD(3)[OF v assms(3)] by linarith
  then have "\<not> eif (cpus s c)" using cpuD(1)[OF v assms(3)] by (simp add: flags_ok_def)
  moreover have "locked (locks s l) \<noteq> 0" using I h unfolding lock_inv_def by blast
  moreover have "{d. (d, l) \<in> crit s} = {c}" using I l unfolding lock_inv_def by auto
  ultimately show ?thesis using l by blast
qed

theorem spinlock_mutual_exclusion_witness:
  "(0, 7) \<in> crit (acquired 0 7 two_cpus) \<and> \<not> eif (cpus (acquired 0 7 two_cpus) 0) \<and> {d. (d, 7) \<in> crit (acquired 0 7 two_cpus)} = {0}"
  using spinlock_mutual_exclusion[OF two_reach(1), of 0 7] by (simp add: acquired_0)

text \<open>C23: the nesting of \<open>pushcli\<close> and \<open>popcli\<close> is balanced: a CPU outside the lock code has as many
  pushes pending as it holds locks, and once it holds none, interrupts are enabled or disabled as
  they were before.\<close>

theorem interrupts_restored:
  assumes "smp_reach on s" and "spcs s c = Idle"
  shows "ncli (cpus s c) = int (card {l. (c, l) \<in> crit s}) \<and> ({l. (c, l) \<in> crit s} = {} \<longrightarrow> eif (cpus s c) = on c)"
proof -
  have v: "smp_inv on s" by (rule smp_reach_inv[OF assms(1)])
  then have "{l. holder s l c} = {l. (c, l) \<in> crit s}" using assms(2) by (auto simp: smp_inv_def lock_inv_def holder_def)
  then have "ncli (cpus s c) = int (card {l. (c, l) \<in> crit s})" "flags_ok (on c) (cpus s c)" using cpuD(1,3)[OF v, of c] assms(2) by simp_all
  then show ?thesis by (simp add: flags_ok_def)
qed

theorem interrupts_restored_witness:
  "ncli (cpus (acquired 0 7 two_cpus) 0) = 1 \<and> eif (cpus (acquired 0 7 two_cpus) 1) = True"
  using interrupts_restored[OF two_reach(1), of 0] interrupts_restored[OF two_reach(1), of 1] by (simp add: acquired_0)

text \<open>C24: the test of \<open>holding\<close>, two separate reads of a lock other CPUs change, never errs: a CPU
  panics in the lock code only when it acquires a lock it already has or releases one it has not.\<close>

theorem spinlock_panics:
  assumes "smp_reach on s" and "smp_step s t" and "spcs t c = Dead m" and "\<not> dead (spcs s c)"
  shows "m = ''acquire'' \<and> (\<exists>l. spcs s c = AChk2 l \<and> (c, l) \<in> crit s) \<or>
    m = ''release'' \<and> (\<exists>l. spcs s c \<in> {RChk1 l, RChk2 l} \<and> (c, l) \<notin> crit s)"
proof -
  have v: "smp_inv on s" by (rule smp_reach_inv[OF assms(1)])
  have oth: "spcs (acquire_step d s) c = spcs s c" "spcs (release_step d s) c = spcs s c" if "d \<noteq> c" for d
    using that by (auto simp: acquire_step_def release_step_def hold_locked_def hold_cpu_def pop_to_def acquire_spin_def acquire_set_def Let_def
      split: spc.splits sum.splits prod.splits)
  have "blamed s c (spcs t c)"
    using assms(2)
  proof (cases rule: smp_step.cases)
    case (call_acquire d l)
    then show ?thesis by (auto simp: blamed_def acquire_enter_def hold_enter_def)
  next
    case (call_release d l)
    then show ?thesis by (auto simp: blamed_def release_enter_def hold_enter_def)
  next
    case (in_acquire d)
    then show ?thesis using acquire_step_ok(2)[OF v, of c] oth(1)[of d] by (cases "d = c") (auto simp: blamed_def)
  next
    case (in_release d)
    then show ?thesis using release_step_ok(2)[OF v, of c] oth(2)[of d] by (cases "d = c") (auto simp: blamed_def)
  qed
  then show ?thesis using assms(3,4) by (auto simp: blamed_def)
qed

definition again :: smp where
  "again = acquire_step 0 (acquire_enter 0 7 (acquired 0 7 two_cpus))"

theorem spinlock_panics_witness:
  "spcs (acquire_step 0 again) 0 = Dead ''acquire'' \<and> spcs again 0 = AChk2 7 \<and> (0, 7) \<in> crit again"
proof -
  have r: "smp_reach (\<lambda>_. True) again" unfolding again_def
    by (rule smp_reach.step[OF smp_reach.step[OF two_reach(1) call_acquire] in_acquire]) (simp add: acquired_0)
  have d: "spcs (acquire_step 0 again) 0 = Dead ''acquire''" "spcs again 0 = AChk2 7"
    by (simp_all add: again_def acquired_0 smp_simps)
  show ?thesis using spinlock_panics[OF r in_acquire d(1)] d by simp
qed

end
