(* ===== verification/Grep.thy ===== *)
theory Grep
  imports Prelude
begin

text \<open>
  The user program \<open>grep\<close> (\<open>grep.c\<close>): the matcher for the operators \<open>^ . * $\<close> and the loop that
  splits what \<open>read\<close> delivers into lines.  A C string is the list of its characters before the
  NUL.
\<close>

section \<open>The matcher\<close>

function (sequential) matchhere :: "string \<Rightarrow> string \<Rightarrow> bool"
  and matchstar :: "char \<Rightarrow> string \<Rightarrow> string \<Rightarrow> bool" where
  "matchhere re str = (case re of
     [] \<Rightarrow> True
   | c # r \<Rightarrow>
       if r \<noteq> [] \<and> hd r = CHR ''*'' then matchstar c (tl r) str
       else if c = CHR ''$'' \<and> r = [] then str = []
       else if str \<noteq> [] \<and> (c = CHR ''.'' \<or> c = hd str) then matchhere r (tl str)
       else False)"
| "matchstar c re str = (if matchhere re str then True
     else if str \<noteq> [] \<and> (hd str = c \<or> c = CHR ''.'') then matchstar c re (tl str)
     else False)"
  by pat_completeness auto
termination
  by (relation "measures [\<lambda>p. (case p of Inl (r, t) \<Rightarrow> length r | Inr (c, r, t) \<Rightarrow> Suc (length r)), \<lambda>p. (case p of Inl (r, t) \<Rightarrow> length t | Inr (c, r, t) \<Rightarrow> length t)]") auto

declare matchhere.simps [simp del] matchstar.simps [simp del]

text \<open>The loop of \<open>match\<close>: at every position of the str, the end included.\<close>

fun match_any :: "string \<Rightarrow> string \<Rightarrow> bool" where
  "match_any re [] = matchhere re []"
| "match_any re (t # ts) = (if matchhere re (t # ts) then True else match_any re ts)"

definition match :: "string \<Rightarrow> string \<Rightarrow> bool" where
  "match re str = (if re \<noteq> [] \<and> hd re = CHR ''^'' then matchhere (tl re) str else match_any re str)"

section \<open>Lines\<close>

abbreviation NL :: char where "NL \<equiv> CHR 0x0A"

text \<open>\<open>strchr\<close> of \<open>ulib.c\<close>: the index of the first \<open>c\<close> before the NUL.\<close>

fun strchr :: "string \<Rightarrow> char \<Rightarrow> nat option" where
  "strchr [] c = None"
| "strchr (x # xs) c = (if x = CHR 0x00 then None else if x = c then Some 0 else map_option Suc (strchr xs c))"

lemma strchr_bound: "strchr p c = Some i \<Longrightarrow> i < length p"
  by (induction p arbitrary: i) (auto split: if_splits)

text \<open>The inner loop on the buffer from \<open>p\<close> on: what is written, what is left, and whether \<open>p\<close> moved.\<close>

function grep_lines :: "string \<Rightarrow> string \<Rightarrow> string \<times> string \<times> bool" where
  "grep_lines pat p = (case strchr p NL of
     None \<Rightarrow> ([], p, False)
   | Some i \<Rightarrow> (let (out, r, _) = grep_lines pat (drop (Suc i) p)
       in ((if match pat (take i p) then take i p @ [NL] else []) @ out, r, True)))"
  by pat_completeness auto
termination
  by (relation "measure (length \<circ> snd)") (auto dest: strchr_bound)

declare grep_lines.simps [simp del]

text \<open>What stays in the buffer: nothing when no line ended in it.\<close>

definition grep_buf :: "string \<Rightarrow> string \<Rightarrow> string \<times> string" where
  "grep_buf pat b = (let (out, r, moved) = grep_lines pat b in (out, if moved then r else []))"

text \<open>The outer loop.  The list has what the successive calls of \<open>read\<close> deliver, each at most as much
  as there is room for in the buffer; an empty one ends the file.\<close>

fun grep :: "string \<Rightarrow> string \<Rightarrow> string list \<Rightarrow> string" where
  "grep pat b [] = []"
| "grep pat b (c # cs) = (if c = [] then [] else let (out, b') = grep_buf pat (b @ c) in out @ grep pat b' cs)"

section \<open>The language of a pattern\<close>

text \<open>A pattern as a sequence of items, each a character (\<open>.\<close> for any) taken once or any number of
  times, and whether it is anchored at the end.\<close>

datatype item = One char | Star char

fun items :: "string \<Rightarrow> item list \<times> bool" where
  "items [] = ([], False)"
| "items [c] = (if c = CHR ''$'' then ([], True) else ([One c], False))"
| "items (c # d # r) = (if d = CHR ''*'' then let (its, a) = items r in (Star c # its, a)
     else let (its, a) = items (d # r) in (One c # its, a))"

definition fits :: "char \<Rightarrow> char \<Rightarrow> bool" where
  "fits c x \<longleftrightarrow> c = CHR ''.'' \<or> x = c"

fun item_lang :: "item \<Rightarrow> string set" where
  "item_lang (One c) = {[x] | x. fits c x}"
| "item_lang (Star c) = {w. \<forall>x \<in> set w. fits c x}"

fun lang :: "item list \<Rightarrow> string set" where
  "lang [] = {[]}"
| "lang (i # its) = {u @ w | u w. u \<in> item_lang i \<and> w \<in> lang its}"

text \<open>The str begins with a word of the language, or is one when the pattern is anchored.\<close>

definition begins :: "string \<Rightarrow> string \<Rightarrow> bool" where
  "begins re str \<longleftrightarrow> (\<exists>u w. str = u @ w \<and> u \<in> lang (fst (items re)) \<and> (snd (items re) \<longrightarrow> w = []))"

definition found :: "string \<Rightarrow> string \<Rightarrow> bool" where
  "found re str \<longleftrightarrow> (if re \<noteq> [] \<and> hd re = CHR ''^'' then begins (tl re) str else (\<exists>u w. str = u @ w \<and> begins re w))"

definition accepts :: "item list \<times> bool \<Rightarrow> string \<Rightarrow> bool" where
  "accepts p str \<longleftrightarrow> (\<exists>u w. str = u @ w \<and> u \<in> lang (fst p) \<and> (snd p \<longrightarrow> w = []))"

lemma accepts_Cons:
  "accepts (i # its, a) str \<longleftrightarrow> (\<exists>u t. str = u @ t \<and> u \<in> item_lang i \<and> accepts (its, a) t)"
proof
  assume "accepts (i # its, a) str"
  then obtain x w where x: "str = x @ w" "x \<in> lang (i # its)" "a \<longrightarrow> w = []" unfolding accepts_def fst_conv snd_conv by blast
  then obtain u v where "str = (u @ v) @ w" "u \<in> item_lang i" "v \<in> lang its" "a \<longrightarrow> w = []" by auto
  then show "\<exists>u t. str = u @ t \<and> u \<in> item_lang i \<and> accepts (its, a) t"
    unfolding accepts_def by (intro exI[of _ u] exI[of _ "v @ w"]) auto
next
  assume "\<exists>u t. str = u @ t \<and> u \<in> item_lang i \<and> accepts (its, a) t"
  then obtain u v w where "str = u @ v @ w" "u \<in> item_lang i" "v \<in> lang its" "a \<longrightarrow> w = []" unfolding accepts_def fst_conv snd_conv by blast
  then show "accepts (i # its, a) str" unfolding accepts_def by (intro exI[of _ "u @ v"] exI[of _ w]) auto
qed

lemma accepts_simps:
  "accepts ([], False) str" "accepts ([], True) str \<longleftrightarrow> str = []"
  "accepts (One c # its, a) str \<longleftrightarrow> str \<noteq> [] \<and> fits c (hd str) \<and> accepts (its, a) (tl str)"
proof -
  show "accepts ([], False) str" "accepts ([], True) str \<longleftrightarrow> str = []" by (simp_all add: accepts_def)
  show "accepts (One c # its, a) str \<longleftrightarrow> str \<noteq> [] \<and> fits c (hd str) \<and> accepts (its, a) (tl str)"
  proof
    assume "str \<noteq> [] \<and> fits c (hd str) \<and> accepts (its, a) (tl str)"
    then show "accepts (One c # its, a) str" unfolding accepts_Cons by (intro exI[of _ "[hd str]"] exI[of _ "tl str"]) simp
  qed (auto simp: accepts_Cons)
qed

lemma accepts_Star:
  "accepts (Star c # its, a) str \<longleftrightarrow> accepts (its, a) str \<or> str \<noteq> [] \<and> fits c (hd str) \<and> accepts (Star c # its, a) (tl str)"
proof
  assume "accepts (Star c # its, a) str"
  then obtain u t where u: "str = u @ t" "\<forall>x \<in> set u. fits c x" "accepts (its, a) t" unfolding accepts_Cons by auto
  show "accepts (its, a) str \<or> str \<noteq> [] \<and> fits c (hd str) \<and> accepts (Star c # its, a) (tl str)"
    using u by (cases u) (auto simp: accepts_Cons)
next
  assume "accepts (its, a) str \<or> str \<noteq> [] \<and> fits c (hd str) \<and> accepts (Star c # its, a) (tl str)"
  then show "accepts (Star c # its, a) str"
  proof
    assume "accepts (its, a) str"
    then show ?thesis unfolding accepts_Cons by (intro exI[of _ "[]"] exI[of _ str]) simp
  next
    assume h: "str \<noteq> [] \<and> fits c (hd str) \<and> accepts (Star c # its, a) (tl str)"
    then obtain u t where "tl str = u @ t" "\<forall>x \<in> set u. fits c x" "accepts (its, a) t" unfolding accepts_Cons by auto
    then show ?thesis using h unfolding accepts_Cons by (intro exI[of _ "hd str # u"] exI[of _ t]) (cases str, auto)
  qed
qed

lemma match_correct:
  "matchhere re str = accepts (items re) str"
  "matchstar c re str = accepts (Star c # fst (items re), snd (items re)) str"
proof (induction re str and c re str rule: matchhere_matchstar.induct)
  case (1 re str)
  show ?case
  proof (cases re rule: items.cases)
    case 1
    then show ?thesis by (simp add: matchhere.simps[of "[]"] accepts_simps)
  next
    case (2 c)
    then show ?thesis using "1.IH"(2)[of c "[]"] matchhere.simps[of "[]" "tl str"]
      by (auto simp: matchhere.simps[of "[c]"] accepts_simps fits_def)
  next
    case (3 c d r)
    have e: "matchhere (c # d # r) str = (if d = CHR ''*'' then matchstar c r str
        else str \<noteq> [] \<and> (c = CHR ''.'' \<or> c = hd str) \<and> matchhere (d # r) (tl str))"
      by (simp add: matchhere.simps[of "c # d # r"])
    show ?thesis
    proof (cases "d = CHR ''*''")
      case True
      then show ?thesis using 3 e "1.IH"(1)[of c "d # r"] by (simp add: case_prod_beta)
    next
      case False
      then show ?thesis using 3 e "1.IH"(2)[of c "d # r"]
        by (auto simp: case_prod_beta accepts_simps fits_def)
    qed
  qed
next
  case (2 c re str)
  show ?case using 2 by (subst matchstar.simps, subst accepts_Star) (auto simp: fits_def)
qed

lemma match_any_found: "match_any re str \<longleftrightarrow> (\<exists>u w. str = u @ w \<and> accepts (items re) w)"
proof (induction str)
  case Nil
  then show ?case by (simp add: match_correct(1))
next
  case (Cons x xs)
  have "(\<exists>u w. x # xs = u @ w \<and> accepts (items re) w) \<longleftrightarrow> accepts (items re) (x # xs) \<or> (\<exists>u w. xs = u @ w \<and> accepts (items re) w)"
    by (auto simp: Cons_eq_append_conv)
  then show ?case using Cons by (simp add: match_correct(1))
qed

lemma match_found: "match re str = found re str"
  by (auto simp: match_def found_def begins_def match_any_found match_correct(1) accepts_def)

text \<open>C37: the backtracking matcher of \<open>grep\<close> decides the language of the pattern: it finds a match
  exactly when some part of the line, at its beginning for \<open>^\<close> and up to its end for a final \<open>$\<close>,
  is a word of the pattern read as a regular expression.\<close>

theorem match_decides_language: "match re str = found re str"
  by (rule match_found)

section \<open>Which lines are printed\<close>

text \<open>The complete lines of a text and what follows the last of them.\<close>

fun lines_of :: "string \<Rightarrow> string \<Rightarrow> string list" where
  "lines_of acc [] = []"
| "lines_of acc (x # xs) = (if x = NL then acc # lines_of [] xs else lines_of (acc @ [x]) xs)"

fun rest_of :: "string \<Rightarrow> string \<Rightarrow> string" where
  "rest_of acc [] = acc"
| "rest_of acc (x # xs) = (if x = NL then rest_of [] xs else rest_of (acc @ [x]) xs)"

definition print_matches :: "string \<Rightarrow> string list \<Rightarrow> string" where
  "print_matches pat ls = concat (map (\<lambda>l. l @ [NL]) (filter (found pat) ls))"

lemma lines_append: "lines_of acc (a @ b) = lines_of acc a @ lines_of (rest_of acc a) b"
  by (induction a arbitrary: acc) simp_all

lemma rest_append: "rest_of acc (a @ b) = rest_of (rest_of acc a) b"
  by (induction a arbitrary: acc) simp_all

lemma lines_acc: "NL \<notin> set acc \<Longrightarrow> lines_of [] (acc @ xs) = lines_of acc xs" "NL \<notin> set acc \<Longrightarrow> rest_of [] (acc @ xs) = rest_of acc xs"
proof -
  have "NL \<notin> set acc \<Longrightarrow> lines_of b acc = [] \<and> rest_of b acc = b @ acc" for b by (induction acc arbitrary: b) auto
  then show "NL \<notin> set acc \<Longrightarrow> lines_of [] (acc @ xs) = lines_of acc xs" "NL \<notin> set acc \<Longrightarrow> rest_of [] (acc @ xs) = rest_of acc xs"
    by (simp_all add: lines_append rest_append)
qed

lemma strchr_None: "CHR 0x00 \<notin> set p \<Longrightarrow> strchr p NL = None \<longleftrightarrow> NL \<notin> set p"
  by (induction p) auto

lemma strchr_Some: "strchr p NL = Some i \<Longrightarrow> NL \<notin> set (take i p) \<and> p ! i = NL \<and> i < length p"
  by (induction p arbitrary: i) (auto split: if_splits)

lemma grep_lines_spec:
  "CHR 0x00 \<notin> set p \<Longrightarrow> grep_lines pat p = (print_matches pat (lines_of [] p), rest_of [] p, NL \<in> set p)"
proof (induction pat p rule: grep_lines.induct)
  case (1 pat p)
  show ?case
  proof (cases "strchr p NL")
    case None
    then have "NL \<notin> set p" using strchr_None[OF 1(2)] by simp
    then show ?thesis using None lines_acc[of p "[]"] by (simp add: grep_lines.simps[of pat p] print_matches_def)
  next
    case (Some i)
    note i = strchr_Some[OF Some]
    have p: "p = take i p @ NL # drop (Suc i) p" using i id_take_nth_drop[of i p] by simp
    have n: "CHR 0x00 \<notin> set (drop (Suc i) p)" using 1(2) by (meson in_set_dropD)
    have l: "lines_of [] p = take i p # lines_of [] (drop (Suc i) p)" "rest_of [] p = rest_of [] (drop (Suc i) p)"
      using lines_acc[of "take i p" "NL # drop (Suc i) p"] i p by auto
    have "NL \<in> set p" using i by (metis nth_mem)
    then show ?thesis using Some 1(1)[OF Some n] by (simp add: grep_lines.simps[of pat p] l print_matches_def match_found)
  qed
qed

lemma rest_no_NUL: "CHR 0x00 \<notin> set acc \<Longrightarrow> CHR 0x00 \<notin> set xs \<Longrightarrow> CHR 0x00 \<notin> set (rest_of acc xs)"
  by (induction xs arbitrary: acc) auto

lemma rest_no_NL: "NL \<notin> set acc \<Longrightarrow> NL \<notin> set (rest_of acc xs)"
  by (induction xs arbitrary: acc) auto

lemma grep_spec:
  assumes "\<forall>c \<in> set cs. NL \<in> set c \<and> CHR 0x00 \<notin> set c" and "CHR 0x00 \<notin> set b" "NL \<notin> set b"
  shows "grep pat b cs = print_matches pat (lines_of b (concat cs))"
  using assms
proof (induction cs arbitrary: b)
  case Nil
  then show ?case by (simp add: print_matches_def)
next
  case (Cons c cs)
  have c: "NL \<in> set c" "CHR 0x00 \<notin> set (b @ c)" "c \<noteq> []" using Cons.prems by auto
  have r: "rest_of [] (b @ c) = rest_of b c" "lines_of [] (b @ c) = lines_of b c" using lines_acc[OF Cons.prems(3)] by simp_all
  have "grep pat (rest_of b c) cs = print_matches pat (lines_of (rest_of b c) (concat cs))"
    using Cons.prems rest_no_NUL[of b c] rest_no_NL[of b c] by (intro Cons.IH) auto
  moreover have "grep_lines pat (b @ c) = (print_matches pat (lines_of b c), rest_of b c, True)"
    unfolding grep_lines_spec[OF c(2)] r using c(1) by simp
  ultimately show ?case using c(3) by (simp add: grep_buf_def lines_append[of b c] print_matches_def)
qed

text \<open>C38: on a text without NULs of which every \<open>read\<close> delivers the end of some line, \<open>grep\<close> prints
  exactly the lines that contain a match, in order, wherever the reads cut the text.\<close>

theorem grep_prints_matching_lines:
  assumes "\<forall>c \<in> set cs. NL \<in> set c \<and> CHR 0x00 \<notin> set c"
  shows "grep pat [] cs = print_matches pat (lines_of [] (concat cs))"
  using grep_spec[OF assms, of "[]"] by simp

theorem grep_prints_matching_lines_witness:
  "grep ''^ab*$'' [] [''abb'' @ [NL] @ ''x'', ''ab'' @ [NL], ''a'' @ [NL]] = print_matches ''^ab*$'' [''abb'', ''xab'', ''a'']"
  using grep_prints_matching_lines[of "[''abb'' @ [NL] @ ''x'', ''ab'' @ [NL], ''a'' @ [NL]]" "''^ab*$''"] by simp

text \<open>A read that ends no line is lost: of the line \<open>abc\<close>, delivered in two pieces, the first piece is
  dropped, and the line is not printed although it matches.\<close>

lemma grep_drops_partial_line:
  "grep ''a'' [] [''ab'', ''c'' @ [NL]] = [] \<and> match ''a'' ''abc''"
  by (simp add: grep_buf_def grep_lines.simps match_def matchhere.simps)

end
