(* ===== verification/Sh.thy ===== *)
theory Sh
  imports Grep
begin

text \<open>
  The parser of the shell (\<open>sh.c\<close>).  The line is a C string, the list of its characters before the NUL; a
  pointer into it is a position.  The structs of a parsed command are one datatype over the type of
  the strings in it: the parser delivers pairs of positions (\<open>q\<close>, \<open>eq\<close>), and \<open>nulterminate\<close> makes C strings
  of them.  A parse that panics is \<open>Inl\<close> with what is printed.  \<open>malloc\<close> is taken to deliver memory for
  the structs.
\<close>

section \<open>Commands\<close>

datatype 's cmd =
    EXEC "'s list"
  | REDIR "'s cmd" 's int int
  | PIPE "'s cmd" "'s cmd"
  | LIST "'s cmd" "'s cmd"
  | BACK "'s cmd"

definition MAXARGS :: nat where [simp]: "MAXARGS = 10"
definition rdonly :: int where [simp]: "rdonly = 0x000"
definition wronly_create :: int where [simp]: "wronly_create = 0x201"

type_synonym span = "nat \<times> nat"

section \<open>Tokens\<close>

abbreviation NUL :: char where "NUL \<equiv> CHR 0x00"

definition whitespace :: string where
  "whitespace = [CHR 0x20, CHR 0x09, CHR 0x0D, CHR 0x0A, CHR 0x0B]"

definition symbols :: string where
  "symbols = ''<|>&;()''"

lemma strchr_mem: "NUL \<notin> set p \<Longrightarrow> strchr p c = None \<longleftrightarrow> c \<notin> set p"
  by (induction p) auto

lemma strchr_classes [simp]:
  "strchr whitespace c = None \<longleftrightarrow> c \<notin> set whitespace" "strchr symbols c = None \<longleftrightarrow> c \<notin> set symbols"
  by (simp_all add: strchr_mem whitespace_def symbols_def)

text \<open>The character a pointer points to: the NUL at the end of the string.\<close>

definition at :: "string \<Rightarrow> nat \<Rightarrow> char" where
  "at b i = (if i < length b then b ! i else NUL)"

function skip_ws :: "string \<Rightarrow> nat \<Rightarrow> nat" where
  "skip_ws b i = (if i < length b \<and> strchr whitespace (at b i) \<noteq> None then skip_ws b (Suc i) else i)"
  by pat_completeness auto
termination by (relation "measure (\<lambda>(b, i). length b - i)") auto

function word_end :: "string \<Rightarrow> nat \<Rightarrow> nat" where
  "word_end b i = (if i < length b \<and> strchr whitespace (at b i) = None \<and> strchr symbols (at b i) = None
     then word_end b (Suc i) else i)"
  by pat_completeness auto
termination by (relation "measure (\<lambda>(b, i). length b - i)") auto

declare skip_ws.simps [simp del] word_end.simps [simp del]

text \<open>The result of \<open>gettoken\<close>: the kind of the token, \<open>q\<close>, \<open>eq\<close> and the new \<open>ps\<close>.\<close>

definition gettoken :: "string \<Rightarrow> nat \<Rightarrow> char \<times> nat \<times> nat \<times> nat" where
  "gettoken b i =
    (let q = skip_ws b i;
         c = at b q;
         (r, eq) =
           (if c = NUL then (c, q)
            else if c \<in> set ''|();&<'' then (c, Suc q)
            else if c = CHR ''>'' then
              (if at b (Suc q) = CHR ''>'' then (CHR ''+'', Suc (Suc q)) else (c, Suc q))
            else (CHR ''a'', word_end b q))
     in (r, q, eq, skip_ws b eq))"

definition peek :: "string \<Rightarrow> nat \<Rightarrow> string \<Rightarrow> bool \<times> nat" where
  "peek b i ts = (let s = skip_ws b i in (at b s \<noteq> NUL \<and> strchr ts (at b s) \<noteq> None, s))"

text \<open>\<open>gettoken(ps, es, 0, 0)\<close>: only the pointer moves.\<close>

definition eat :: "string \<Rightarrow> nat \<Rightarrow> nat" where
  "eat b i = (let (_, _, _, j) = gettoken b i in j)"

subsection \<open>The pointer moves forward\<close>

lemma skip_ws_ge: "i \<le> skip_ws b i"
  by (induction b i rule: skip_ws.induct) (subst skip_ws.simps, auto)

lemma skip_ws_le: "i \<le> length b \<Longrightarrow> skip_ws b i \<le> length b"
  by (induction b i rule: skip_ws.induct) (subst skip_ws.simps, auto)

lemma word_end_ge: "i \<le> word_end b i"
  by (induction b i rule: word_end.induct) (subst word_end.simps, auto)

lemma word_end_le: "i \<le> length b \<Longrightarrow> word_end b i \<le> length b"
  by (induction b i rule: word_end.induct) (subst word_end.simps, auto)

lemma skip_ws_stops: "skip_ws b i < length b \<Longrightarrow> at b (skip_ws b i) \<notin> set whitespace"
proof (induction b i rule: skip_ws.induct)
  case (1 b i)
  show ?case
  proof (cases "i < length b \<and> strchr whitespace (at b i) \<noteq> None")
    case True
    then show ?thesis using 1 skip_ws.simps[of b i] by simp
  next
    case False
    then show ?thesis using 1(2) skip_ws.simps[of b i] by auto
  qed
qed

lemma skip_ws_idem: "skip_ws b (skip_ws b i) = skip_ws b i"
proof (cases "skip_ws b i < length b")
  case True
  then show ?thesis using skip_ws_stops[OF True] by (subst skip_ws.simps) simp
next
  case False
  then show ?thesis by (subst skip_ws.simps) simp
qed

lemma at_NUL: "at b i \<noteq> NUL \<Longrightarrow> i < length b"
  by (simp add: at_def split: if_splits)

lemma word_end_more:
  assumes "i < length b" "at b i \<notin> set whitespace" "at b i \<notin> set symbols"
  shows "i < word_end b i"
  using assms word_end_ge[of "Suc i" b] by (subst word_end.simps) simp

lemma gettoken_moves:
  assumes "gettoken b i = (r, q, e, j)"
  shows "i \<le> q" "q \<le> e" "e \<le> j" "i \<le> length b \<Longrightarrow> j \<le> length b" "r \<noteq> NUL \<Longrightarrow> q < e"
    "r = NUL \<Longrightarrow> q = e"
proof -
  let ?q = "skip_ws b i"
  have more: "?q < word_end b ?q" if "at b ?q \<noteq> NUL" "at b ?q \<notin> set symbols"
    using word_end_more[OF at_NUL[OF that(1)] skip_ws_stops[OF at_NUL[OF that(1)]] that(2)] .
  have e: "e \<le> length b" if "i \<le> length b"
    using assms skip_ws_le[OF that] word_end_le[of ?q b] at_NUL[of b ?q] at_NUL[of b "Suc ?q"]
    by (auto simp: gettoken_def Let_def split: if_splits)
  show "i \<le> q" using assms skip_ws_ge[of i b] by (auto simp: gettoken_def Let_def split: if_splits)
  show "q \<le> e" using assms word_end_ge[of ?q b] by (auto simp: gettoken_def Let_def split: if_splits)
  show "e \<le> j" using assms skip_ws_ge[of e b] by (auto simp: gettoken_def Let_def split: if_splits)
  show "i \<le> length b \<Longrightarrow> j \<le> length b" using assms e skip_ws_le[of e b]
    by (auto simp: gettoken_def Let_def split: if_splits)
  show "r \<noteq> NUL \<Longrightarrow> q < e" using assms more by (auto simp: gettoken_def Let_def symbols_def split: if_splits)
  show "r = NUL \<Longrightarrow> q = e" using assms by (auto simp: gettoken_def Let_def split: if_splits)
qed

lemma peek_moves:
  assumes "peek b i ts = (t, j)"
  shows "i \<le> j" "i \<le> length b \<Longrightarrow> j \<le> length b" "t \<Longrightarrow> j < length b" "t \<Longrightarrow> j < eat b j"
proof -
  have j: "j = skip_ws b i" "t \<longleftrightarrow> at b j \<noteq> NUL \<and> strchr ts (at b j) \<noteq> None" using assms by (auto simp: peek_def Let_def)
  show "i \<le> j" "i \<le> length b \<Longrightarrow> j \<le> length b" using j skip_ws_ge skip_ws_le by auto
  show l: "t \<Longrightarrow> j < length b" using j at_NUL by auto
  assume t
  obtain r q e k where g: "gettoken b j = (r, q, e, k)" by (metis prod_cases4)
  then have "q = j" using j skip_ws_idem[of b i] by (auto simp: gettoken_def Let_def split: if_splits)
  moreover have "r \<noteq> NUL" using g j \<open>t\<close> skip_ws_idem[of b i] by (auto simp: gettoken_def Let_def split: if_splits)
  ultimately show "j < eat b j" using gettoken_moves(3,5)[OF g] g by (simp add: eat_def)
qed

section \<open>The parser\<close>

text \<open>What a parsing function delivers: \<open>None\<close> when the nesting is deeper than the fuel, otherwise the message
  of the panic, or the result with the new pointer.\<close>

type_synonym 'a parse = "(string + 'a \<times> nat) option"

definition pbnd :: "'a parse \<Rightarrow> ('a \<Rightarrow> nat \<Rightarrow> 'b parse) \<Rightarrow> 'b parse" where
  "pbnd m k = (case m of None \<Rightarrow> None | Some (Inl e) \<Rightarrow> Some (Inl e) | Some (Inr (x, i)) \<Rightarrow> k x i)"

subsection \<open>Constructors\<close>

definition execcmd :: "'s cmd" where
  "execcmd = EXEC []"

definition redircmd :: "'s cmd \<Rightarrow> 's \<Rightarrow> int \<Rightarrow> int \<Rightarrow> 's cmd" where
  [simp]: "redircmd subcmd f mode fd = REDIR subcmd f mode fd"

definition pipecmd :: "'s cmd \<Rightarrow> 's cmd \<Rightarrow> 's cmd" where
  [simp]: "pipecmd left right = PIPE left right"

definition listcmd :: "'s cmd \<Rightarrow> 's cmd \<Rightarrow> 's cmd" where
  [simp]: "listcmd left right = LIST left right"

definition backcmd :: "'s cmd \<Rightarrow> 's cmd" where
  [simp]: "backcmd subcmd = BACK subcmd"

text \<open>\<open>cmd->argv[argc] = q; cmd->eargv[argc] = eq\<close>, where \<open>cmd\<close> points to the \<open>execcmd\<close> inside the
  redirections around it.\<close>

fun set_arg :: "'s \<Rightarrow> 's cmd \<Rightarrow> 's cmd" where
  "set_arg a (EXEC as) = EXEC (as @ [a])"
| "set_arg a (REDIR c f m fd) = REDIR (set_arg a c) f m fd"
| "set_arg a c = c"

subsection \<open>Redirections\<close>

definition redir :: "char \<Rightarrow> 's cmd \<Rightarrow> 's \<Rightarrow> 's cmd" where
  "redir tok c f =
    (if tok = CHR ''<'' then redircmd c f rdonly 0
     else if tok = CHR ''>'' then redircmd c f wronly_create 1
     else if tok = CHR ''+'' then redircmd c f wronly_create 1
     else c)"

lemma parseredirs_moves:
  assumes "peek b i ts = (True, i1)" and "gettoken b i1 = (tok, q1, e1, i2)" and "gettoken b i2 = (r, q, e, i3)"
  shows "i < length b" "i < i3"
proof -
  show "i < length b" using peek_moves(1,3)[OF assms(1)] by simp
  have "i1 < i2" using peek_moves(4)[OF assms(1)] assms(2) by (simp add: eat_def)
  then show "i < i3" using peek_moves(1)[OF assms(1)] gettoken_moves(1,2,3)[OF assms(3)] by simp
qed

function parseredirs :: "string \<Rightarrow> span cmd \<Rightarrow> nat \<Rightarrow> string + span cmd \<times> nat" where
  "parseredirs b c i =
    (case peek b i ''<>'' of
       (False, i1) \<Rightarrow> Inr (c, i1)
     | (True, i1) \<Rightarrow>
         (case gettoken b i1 of (tok, _, _, i2) \<Rightarrow>
          (case gettoken b i2 of (r, q, eq, i3) \<Rightarrow>
             if r \<noteq> CHR ''a'' then Inl ''missing file for redirection''
             else parseredirs b (redir tok c (q, eq)) i3)))"
  by pat_completeness auto

termination
proof (relation "measure (\<lambda>(b, c, i). length b - i)", goal_cases)
  case (2 b c i x i1 tok y q1 y1 e1 i2 r z q z1 e i3)
  then show ?case using parseredirs_moves[of b i "''<>''" i1 tok q1 e1 i2 r q e i3] by auto
qed simp

declare parseredirs.simps [simp del]

subsection \<open>Words\<close>

text \<open>The loop of \<open>parseexec\<close>.\<close>

function parse_args :: "string \<Rightarrow> nat \<Rightarrow> span cmd \<Rightarrow> nat \<Rightarrow> string + span cmd \<times> nat" where
  "parse_args b argc c i =
    (case peek b i ''|)&;'' of
       (True, i1) \<Rightarrow> Inr (c, i1)
     | (False, i1) \<Rightarrow>
         (case gettoken b i1 of (tok, q, eq, i2) \<Rightarrow>
            if tok = NUL then Inr (c, i2)
            else if tok \<noteq> CHR ''a'' then Inl ''syntax''
            else if MAXARGS \<le> Suc argc then Inl ''too many args''
            else
             (case parseredirs b (set_arg (q, eq) c) i2 of
                Inl e \<Rightarrow> Inl e
              | Inr (c', i3) \<Rightarrow> parse_args b (Suc argc) c' i3)))"
  by pat_completeness auto
termination
  by (relation "measure (\<lambda>(b, n, c, i). MAXARGS - n)") auto


declare parse_args.simps [simp del]

subsection \<open>Lines, pipes, blocks\<close>

text \<open>The loop of \<open>parseline\<close> over \<open>&\<close>.\<close>

function parse_backs :: "string \<Rightarrow> span cmd \<Rightarrow> nat \<Rightarrow> span cmd \<times> nat" where
  "parse_backs b c i =
    (case peek b i ''&'' of
       (True, i1) \<Rightarrow> parse_backs b (backcmd c) (eat b i1)
     | (False, i1) \<Rightarrow> (c, i1))"
  by pat_completeness auto
termination
proof (relation "measure (\<lambda>(b, c, i). length b - i)", goal_cases)
  case (2 b c i t i1)
  then show ?case using peek_moves[of b i "''&''" t i1] by auto
qed simp

declare parse_backs.simps [simp del]

fun parseline :: "nat \<Rightarrow> string \<Rightarrow> nat \<Rightarrow> span cmd parse"
  and parsepipe :: "nat \<Rightarrow> string \<Rightarrow> nat \<Rightarrow> span cmd parse"
  and parseexec :: "nat \<Rightarrow> string \<Rightarrow> nat \<Rightarrow> span cmd parse"
  and parseblock :: "nat \<Rightarrow> string \<Rightarrow> nat \<Rightarrow> span cmd parse" where
  "parseline 0 b i = None"
| "parseline (Suc n) b i =
    pbnd (parsepipe n b i) (\<lambda>c0 i0.
      case parse_backs b c0 i0 of (c, i1) \<Rightarrow>
       (case peek b i1 '';'' of
          (True, i2) \<Rightarrow> pbnd (parseline n b (eat b i2)) (\<lambda>r i3. Some (Inr (listcmd c r, i3)))
        | (False, i2) \<Rightarrow> Some (Inr (c, i2))))"
| "parsepipe 0 b i = None"
| "parsepipe (Suc n) b i =
    pbnd (parseexec n b i) (\<lambda>c i1.
      case peek b i1 ''|'' of
        (True, i2) \<Rightarrow> pbnd (parsepipe n b (eat b i2)) (\<lambda>r i3. Some (Inr (pipecmd c r, i3)))
      | (False, i2) \<Rightarrow> Some (Inr (c, i2)))"
| "parseexec 0 b i = None"
| "parseexec (Suc n) b i =
    (case peek b i ''('' of
       (True, i1) \<Rightarrow> parseblock n b i1
     | (False, i1) \<Rightarrow>
        (case parseredirs b execcmd i1 of
           Inl e \<Rightarrow> Some (Inl e)
         | Inr (c, i2) \<Rightarrow> Some (parse_args b 0 c i2)))"
| "parseblock 0 b i = None"
| "parseblock (Suc n) b i =
    (case peek b i ''('' of
       (False, _) \<Rightarrow> Some (Inl ''parseblock'')
     | (True, i1) \<Rightarrow>
        pbnd (parseline n b (eat b i1)) (\<lambda>c i2.
          case peek b i2 '')'' of
            (False, _) \<Rightarrow> Some (Inl ''syntax - missing )'')
          | (True, i3) \<Rightarrow> Some (parseredirs b c (eat b i3))))"

text \<open>The line with NULs written at the ends of the words.\<close>

fun nulterminate :: "span cmd \<Rightarrow> string \<Rightarrow> string" where
  "nulterminate (EXEC as) s = fold (\<lambda>(q, eq) s. s[eq := NUL]) as s"
| "nulterminate (REDIR c (q, eq) m fd) s = (nulterminate c s)[eq := NUL]"
| "nulterminate (PIPE l r) s = nulterminate r (nulterminate l s)"
| "nulterminate (LIST l r) s = nulterminate r (nulterminate l s)"
| "nulterminate (BACK c) s = nulterminate c s"

text \<open>Nesting is at most four calls for every character of the line.\<close>

definition parse_fuel :: "string \<Rightarrow> nat" where
  "parse_fuel b = 4 * length b + 4"

text \<open>\<open>parsecmd\<close>: what is printed on a syntax error, or the command with the line it points into.\<close>

definition parsecmd :: "string \<Rightarrow> (string + span cmd \<times> string) option" where
  "parsecmd b =
    (case parseline (parse_fuel b) b 0 of
       None \<Rightarrow> None
     | Some (Inl e) \<Rightarrow> Some (Inl (e @ [NL]))
     | Some (Inr (c, i)) \<Rightarrow>
        (case peek b i '''' of (_, i1) \<Rightarrow>
           if i1 \<noteq> length b then Some (Inl (''leftovers: '' @ drop i1 b @ [NL] @ ''syntax'' @ [NL]))
           else Some (Inr (c, nulterminate c (b @ [NUL])))))"

text \<open>The C string a pointer points to.\<close>

definition cstr :: "string \<Rightarrow> nat \<Rightarrow> string" where
  "cstr s q = takeWhile (\<lambda>c. c \<noteq> NUL) (drop q s)"

definition strings :: "string \<Rightarrow> span cmd \<Rightarrow> string cmd" where
  "strings s = map_cmd (\<lambda>(q, eq). cstr s q)"

end
