(* ===== verification/Sh_Properties.thy ===== *)
theory Sh_Properties
  imports Sh
begin

text \<open>
  The parser of the shell against a grammar.  Shown: it returns on every line, it accepts exactly the
  lines whose tokens the grammar derives, with the tree of the derivation, the C strings that
  \<open>nulterminate\<close> makes are the words of the line, and a printed command parses back.
\<close>

section \<open>The pointer moves forward\<close>

lemma eat_le: "i \<le> length b \<Longrightarrow> eat b i \<le> length b"
  using gettoken_moves(4)[of b i] by (cases "gettoken b i") (simp add: eat_def)

lemma peek_eat:
  assumes "peek b i ts = (True, j)"
  shows "i < eat b j" "j < eat b j" "eat b j \<le> length b" "i < length b" "j < length b"
  using peek_moves[OF assms] eat_le[of j b] by auto

lemma parseredirs_fwd:
  "parseredirs b c i = Inr (c', j) \<Longrightarrow> i \<le> length b \<Longrightarrow> i \<le> j \<and> j \<le> length b"
proof (induction b c i rule: parseredirs.induct)
  case (1 b c i)
  obtain t i1 where p: "peek b i ''<>'' = (t, i1)" by fastforce
  obtain tok q1 e1 i2 where g: "gettoken b i1 = (tok, q1, e1, i2)" by (metis prod_cases4)
  obtain r q e i3 where h: "gettoken b i2 = (r, q, e, i3)" by (metis prod_cases4)
  show ?case
  proof (cases t)
    case True
    then have r: "r = CHR ''a''" and n: "parseredirs b (redir tok c (q, e)) i3 = Inr (c', j)"
      using 1(2) p g h by (auto simp: parseredirs.simps[of b c i] split: if_splits)
    have "i3 \<le> length b" using peek_moves(2)[OF p] gettoken_moves(4)[OF g] gettoken_moves(4)[OF h] 1(3) by simp
    moreover have "i < i3" using parseredirs_moves(2)[of b i "''<>''"] p g h True by simp
    ultimately show ?thesis using "1.IH"[OF p[symmetric]] True g h r n by fastforce
  next
    case False
    then show ?thesis using 1(2,3) p peek_moves(1,2)[OF p] by (simp add: parseredirs.simps[of b c i])
  qed
qed

lemma parse_args_fwd:
  "parse_args b n c i = Inr (c', j) \<Longrightarrow> i \<le> length b \<Longrightarrow> i \<le> j \<and> j \<le> length b"
proof (induction b n c i rule: parse_args.induct)
  case (1 b n c i)
  obtain t i1 where p: "peek b i ''|)&;'' = (t, i1)" by fastforce
  obtain tok q e i2 where g: "gettoken b i1 = (tok, q, e, i2)" by (metis prod_cases4)
  have m: "i \<le> i1" "i1 \<le> length b" "i1 \<le> i2" "i2 \<le> length b"
    using peek_moves(1,2)[OF p] gettoken_moves(1,2,3,4)[OF g] 1(3) by auto
  show ?case
  proof (cases "\<not> t \<and> tok \<noteq> NUL")
    case True
    then obtain c2 i3 where a: "tok = CHR ''a''" "\<not> MAXARGS \<le> Suc n" "parseredirs b (set_arg (q, e) c) i2 = Inr (c2, i3)"
        "parse_args b (Suc n) c2 i3 = Inr (c', j)"
      using 1(2) p g by (auto simp: parse_args.simps[of b n c i] split: if_splits sum.splits)
    have "i2 \<le> i3 \<and> i3 \<le> length b" using parseredirs_fwd[OF a(3)] m by simp
    then show ?thesis using "1.IH"[OF p[symmetric]] True g a m by fastforce
  next
    case False
    then show ?thesis using 1(2,3) p g m by (auto simp: parse_args.simps[of b n c i] split: if_splits bool.splits)
  qed
qed

lemma parse_backs_fwd:
  "parse_backs b c i = (c', j) \<Longrightarrow> i \<le> length b \<Longrightarrow> i \<le> j \<and> j \<le> length b"
proof (induction b c i rule: parse_backs.induct)
  case (1 b c i)
  obtain t i1 where p: "peek b i ''&'' = (t, i1)" by fastforce
  show ?case
  proof (cases t)
    case True
    then have "parse_backs b (backcmd c) (eat b i1) = (c', j)" using 1(2) p by (simp add: parse_backs.simps[of b c i])
    from "1.IH"[OF p[symmetric] _ this] True show ?thesis using p peek_eat[of b i "''&''" i1] by simp
  next
    case False
    then show ?thesis using 1(2,3) p peek_moves(1,2)[OF p] by (simp add: parse_backs.simps[of b c i])
  qed
qed

lemmas parse_simps = parseline.simps parsepipe.simps parseexec.simps parseblock.simps

lemma pbnd_eq:
  "pbnd m k = Some (Inr r) \<longleftrightarrow> (\<exists>x i. m = Some (Inr (x, i)) \<and> k x i = Some (Inr r))"
  by (auto simp: pbnd_def split: option.splits sum.splits)

lemma pbnd_None: "m \<noteq> None \<Longrightarrow> (\<And>x i. m = Some (Inr (x, i)) \<Longrightarrow> k x i \<noteq> None) \<Longrightarrow> pbnd m k \<noteq> None"
  by (auto simp: pbnd_def split: option.splits sum.splits)

lemma pbnd_Inr_None: "pbnd m (\<lambda>x i. Some (f x i)) = None \<longleftrightarrow> m = None"
  by (auto simp: pbnd_def split: option.splits sum.splits)

text \<open>What a successful call of each function went through.\<close>

lemma parseline_elim:
  assumes "parseline n b i = Some (Inr (c, j))"
  obtains m c0 i0 c1 i1 t i2 where "n = Suc m" "parsepipe m b i = Some (Inr (c0, i0))" "parse_backs b c0 i0 = (c1, i1)"
    "peek b i1 '';'' = (t, i2)" "\<not> t \<Longrightarrow> c = c1 \<and> j = i2"
    "t \<Longrightarrow> \<exists>r. parseline m b (eat b i2) = Some (Inr (r, j)) \<and> c = LIST c1 r"
proof -
  obtain m where n: "n = Suc m" using assms by (cases n) auto
  then obtain c0 i0 where p: "parsepipe m b i = Some (Inr (c0, i0))" using assms by (auto simp: pbnd_eq)
  obtain c1 i1 where s: "parse_backs b c0 i0 = (c1, i1)" by fastforce
  obtain t i2 where k: "peek b i1 '';'' = (t, i2)" by fastforce
  show ?thesis using assms n p s k by (intro that[OF n p s k]) (auto simp: pbnd_eq)
qed

lemma parsepipe_elim:
  assumes "parsepipe n b i = Some (Inr (c, j))"
  obtains m c1 i1 t i2 where "n = Suc m" "parseexec m b i = Some (Inr (c1, i1))"
    "peek b i1 ''|'' = (t, i2)" "\<not> t \<Longrightarrow> c = c1 \<and> j = i2"
    "t \<Longrightarrow> \<exists>r. parsepipe m b (eat b i2) = Some (Inr (r, j)) \<and> c = PIPE c1 r"
proof -
  obtain m where n: "n = Suc m" using assms by (cases n) auto
  then obtain c1 i1 where p: "parseexec m b i = Some (Inr (c1, i1))" using assms by (auto simp: pbnd_eq)
  obtain t i2 where k: "peek b i1 ''|'' = (t, i2)" by fastforce
  show ?thesis using assms n p k by (intro that[OF n p k]) (auto simp: pbnd_eq)
qed

lemma parseexec_elim:
  assumes "parseexec n b i = Some (Inr (c, j))"
  obtains m t i1 where "n = Suc m" "peek b i ''('' = (t, i1)" "t \<Longrightarrow> parseblock m b i1 = Some (Inr (c, j))"
    "\<not> t \<Longrightarrow> \<exists>c2 i2. parseredirs b execcmd i1 = Inr (c2, i2) \<and> parse_args b 0 c2 i2 = Inr (c, j)"
proof -
  obtain m where n: "n = Suc m" using assms by (cases n) auto
  obtain t i1 where k: "peek b i ''('' = (t, i1)" by fastforce
  show ?thesis using assms n k by (intro that[OF n k]) (auto split: sum.splits)
qed

lemma parseblock_elim:
  assumes "parseblock n b i = Some (Inr (c, j))"
  obtains m i1 c2 i2 i3 where "n = Suc m" "peek b i ''('' = (True, i1)" "parseline m b (eat b i1) = Some (Inr (c2, i2))"
    "peek b i2 '')'' = (True, i3)" "parseredirs b c2 (eat b i3) = Inr (c, j)"
proof -
  obtain m where n: "n = Suc m" using assms by (cases n) auto
  obtain t i1 where k: "peek b i ''('' = (t, i1)" by fastforce
  have t: t using assms n k by (cases t) auto
  then obtain c2 i2 where p: "parseline m b (eat b i1) = Some (Inr (c2, i2))" using assms n k by (auto simp: pbnd_eq)
  obtain u i3 where h: "peek b i2 '')'' = (u, i3)" by fastforce
  show ?thesis using assms n k t p h by (cases u) (auto simp: pbnd_eq intro: that)
qed

lemma parse_fwd:
  "parseline n b i = Some (Inr (c, j)) \<Longrightarrow> i \<le> length b \<Longrightarrow> i \<le> j \<and> j \<le> length b"
  "parsepipe n b i = Some (Inr (c, j)) \<Longrightarrow> i \<le> length b \<Longrightarrow> i \<le> j \<and> j \<le> length b"
  "parseexec n b i = Some (Inr (c, j)) \<Longrightarrow> i \<le> length b \<Longrightarrow> i \<le> j \<and> j \<le> length b"
  "parseblock n b i = Some (Inr (c, j)) \<Longrightarrow> i \<le> length b \<Longrightarrow> i \<le> j \<and> j \<le> length b"
proof (induction n arbitrary: i c j)
  case (Suc n)
  {
    case 1
    from 1(1) show ?case
    proof (rule parseline_elim, goal_cases)
      case (1 m c0 i0 c1 i1 t i2)
      have m: "i \<le> i1" "i1 \<le> length b" "i1 \<le> i2" "i2 \<le> length b"
        using Suc.IH(2)[of i c0 i0] 1 \<open>i \<le> length b\<close> parse_backs_fwd[OF 1(3)] peek_moves(1,2)[OF 1(4)] by auto
      then show ?thesis using 1 peek_eat[of b i1 "'';''" i2] Suc.IH(1)[of "eat b i2" _ j] by (cases t) auto
    qed
  next
    case 2
    from 2(1) show ?case
    proof (rule parsepipe_elim, goal_cases)
      case (1 m c1 i1 t i2)
      have m: "i \<le> i1" "i1 \<le> length b" "i1 \<le> i2" "i2 \<le> length b"
        using Suc.IH(3)[of i c1 i1] 1 \<open>i \<le> length b\<close> peek_moves(1,2)[OF 1(3)] by auto
      then show ?thesis using 1 peek_eat[of b i1 "''|''" i2] Suc.IH(2)[of "eat b i2" _ j] by (cases t) auto
    qed
  next
    case 3
    from 3(1) show ?case
    proof (rule parseexec_elim, goal_cases)
      case (1 m t i1)
      have m: "i \<le> i1" "i1 \<le> length b" using peek_moves(1,2)[OF 1(2)] \<open>i \<le> length b\<close> by auto
      show ?thesis
      proof (cases t)
        case True
        then show ?thesis using 1 Suc.IH(4)[of i1 c j] m by auto
      next
        case False
        then show ?thesis using 1(4) m parseredirs_fwd[of b execcmd i1] parse_args_fwd[of b 0 _ _ c j] by fastforce
      qed
    qed
  next
    case 4
    from 4(1) show ?case
    proof (rule parseblock_elim, goal_cases)
      case (1 m i1 c2 i2 i3)
      then show ?thesis using Suc.IH(1)[of "eat b i1" c2 i2] peek_eat[OF 1(2)] peek_eat[OF 1(4)] parseredirs_fwd[OF 1(5)] by auto
    qed
  }
qed simp_all

section \<open>The parser returns\<close>

lemma parse_returns:
  "i \<le> length b \<Longrightarrow> 4 * (length b - i) + 4 \<le> n \<Longrightarrow> parseline n b i \<noteq> None"
  "i \<le> length b \<Longrightarrow> 4 * (length b - i) + 3 \<le> n \<Longrightarrow> parsepipe n b i \<noteq> None"
  "i \<le> length b \<Longrightarrow> 4 * (length b - i) + 2 \<le> n \<Longrightarrow> parseexec n b i \<noteq> None"
  "i \<le> length b \<Longrightarrow> 4 * (length b - i) + 1 \<le> n \<Longrightarrow> parseblock n b i \<noteq> None"
proof (induction n arbitrary: i)
  case (Suc n)
  {
    case 1
    show ?case unfolding parseline.simps listcmd_def
    proof (rule pbnd_None)
      show "parsepipe n b i \<noteq> None" using Suc.IH(2) 1 by simp
      fix c0 i0 assume a: "parsepipe n b i = Some (Inr (c0, i0))"
      obtain c1 i1 where s: "parse_backs b c0 i0 = (c1, i1)" by fastforce
      obtain t i2 where p: "peek b i1 '';'' = (t, i2)" by fastforce
      have m: "i \<le> i1" using parse_fwd(2)[OF a] parse_backs_fwd[OF s] 1 by auto
      have "parseline n b (eat b i2) \<noteq> None" if t
        using that peek_eat[of b i1 "'';''" i2] p m 1 by (intro Suc.IH(1)) auto
      then show "(case parse_backs b c0 i0 of (c, i1) \<Rightarrow> (case peek b i1 '';'' of
          (True, i2) \<Rightarrow> pbnd (parseline n b (eat b i2)) (\<lambda>r i3. Some (Inr (LIST c r, i3)))
        | (False, i2) \<Rightarrow> Some (Inr (c, i2)))) \<noteq> None"
        using s p by (auto simp: pbnd_Inr_None simp del: not_None_eq split: bool.splits)
    qed
  next
    case 2
    show ?case unfolding parsepipe.simps pipecmd_def
    proof (rule pbnd_None)
      show "parseexec n b i \<noteq> None" using Suc.IH(3) 2 by simp
      fix c0 i1 assume a: "parseexec n b i = Some (Inr (c0, i1))"
      obtain t i2 where p: "peek b i1 ''|'' = (t, i2)" by fastforce
      have m: "i \<le> i1" using parse_fwd(3)[OF a] 2 by auto
      have "parsepipe n b (eat b i2) \<noteq> None" if t
        using that peek_eat[of b i1 "''|''" i2] p m 2 by (intro Suc.IH(2)) auto
      then show "(case peek b i1 ''|'' of
          (True, i2) \<Rightarrow> pbnd (parsepipe n b (eat b i2)) (\<lambda>r i3. Some (Inr (PIPE c0 r, i3)))
        | (False, i2) \<Rightarrow> Some (Inr (c0, i2))) \<noteq> None"
        using p by (auto simp: pbnd_Inr_None simp del: not_None_eq split: bool.splits)
    qed
  next
    case 3
    obtain t i1 where p: "peek b i ''('' = (t, i1)" by fastforce
    have "parseblock n b i1 \<noteq> None" using peek_moves(1,2)[OF p] 3 by (intro Suc.IH(4)) auto
    then show ?case using p by (auto split: bool.splits sum.splits)
  next
    case 4
    obtain t i1 where p: "peek b i ''('' = (t, i1)" by fastforce
    have "parseline n b (eat b i1) \<noteq> None" if t
      using that peek_eat[of b i "''(''" i1] p 4 by (intro Suc.IH(1)) auto
    then have "t \<Longrightarrow> parseblock (Suc n) b i \<noteq> None"
      unfolding parseblock.simps p by (simp, intro pbnd_None[simplified]) (auto split: prod.splits bool.splits)
    then show ?case using p by (cases t) auto
  }
qed simp_all

section \<open>The tokens of a line\<close>

datatype token = Sym char | Word string

definition lexeme :: "string \<Rightarrow> span \<Rightarrow> string" where
  "lexeme b s = (case s of (q, e) \<Rightarrow> take (e - q) (drop q b))"

lemma gettoken_in:
  assumes "gettoken b i = (r, q, e, j)" "r \<noteq> NUL"
  shows "q < length b" "q = skip_ws b i"
proof -
  show q: "q = skip_ws b i" using assms by (auto simp: gettoken_def Let_def split: if_splits)
  have "at b q \<noteq> NUL" using assms by (auto simp: gettoken_def Let_def split: if_splits)
  then show "q < length b" by (rule at_NUL)
qed

function toks :: "string \<Rightarrow> nat \<Rightarrow> token list" where
  "toks b i = (case gettoken b i of (r, q, e, j) \<Rightarrow>
     if r = NUL then [] else (if r = CHR ''a'' then Word (lexeme b (q, e)) else Sym r) # toks b j)"
  by pat_completeness auto

termination
proof (relation "measure (\<lambda>(b, i). length b - i)", goal_cases)
  case (2 b i r x q y e j)
  then show ?case using gettoken_moves[of b i r q e j] gettoken_in[of b i r q e j] by auto
qed simp

declare toks.simps [simp del]

lemma gettoken_skip: "gettoken b (skip_ws b i) = gettoken b i"
  by (simp add: gettoken_def skip_ws_idem)

lemma toks_skip: "toks b (skip_ws b i) = toks b i"
  by (simp add: toks.simps[of b "skip_ws b i"] toks.simps[of b i] gettoken_skip)

lemma toks_gettoken:
  "gettoken b i = (r, q, e, j) \<Longrightarrow>
   toks b i = (if r = NUL then [] else (if r = CHR ''a'' then Word (lexeme b (q, e)) else Sym r) # toks b j)"
  by (subst toks.simps) simp

lemma toks_end:
  assumes "gettoken b i = (NUL, q, e, j)"
  shows "toks b j = []"
proof -
  have "j = skip_ws b e" "q = skip_ws b i" using assms by (auto simp: gettoken_def Let_def case_prod_beta)
  then have "j = skip_ws b i" using gettoken_moves(6)[OF assms] skip_ws_idem by simp
  then show ?thesis using toks_gettoken[OF assms] toks_skip by simp
qed

text \<open>The first character of a symbol.\<close>

definition fst_char :: "char \<Rightarrow> char" where
  "fst_char c = (if c = CHR ''+'' then CHR ''>'' else c)"

lemma gettoken_eq:
  assumes "gettoken b i = (r, q, e, j)"
  shows "q = skip_ws b i" "at b q = NUL \<Longrightarrow> r = NUL" "at b q \<in> set ''|();&<'' \<Longrightarrow> r = at b q"
    "at b q = CHR ''>'' \<Longrightarrow> r = CHR ''>'' \<or> r = CHR ''+''"
    "at b q \<noteq> NUL \<Longrightarrow> at b q \<notin> set symbols \<Longrightarrow> r = CHR ''a'' \<and> e = word_end b q"
proof -
  show q: "q = skip_ws b i" using assms by (simp add: gettoken_def Let_def case_prod_beta)
  note g = assms[unfolded gettoken_def Let_def q[symmetric]]
  show "at b q = NUL \<Longrightarrow> r = NUL" using g by simp
  show "at b q \<in> set ''|();&<'' \<Longrightarrow> r = at b q" using g by (simp only: if_True split: if_splits) auto
  show "at b q = CHR ''>'' \<Longrightarrow> r = CHR ''>'' \<or> r = CHR ''+''" using g by (simp split: if_splits)
  show "at b q \<noteq> NUL \<Longrightarrow> at b q \<notin> set symbols \<Longrightarrow> r = CHR ''a'' \<and> e = word_end b q" using g by (simp add: symbols_def)
qed

lemma gettoken_kinds:
  assumes "gettoken b i = (r, q, e, j)"
  obtains (nul) "r = NUL" "at b q = NUL" | (sym) "r \<in> set ''|();&<>+''" "at b q = fst_char r" "at b q \<in> set symbols"
    | (word) "r = CHR ''a''" "at b q \<noteq> NUL" "at b q \<notin> set symbols" "e = word_end b q"
proof -
  consider "at b q = NUL" | "at b q \<in> set ''|();&<''" | "at b q = CHR ''>''" | "at b q \<noteq> NUL \<and> at b q \<notin> set symbols"
    by (auto simp: symbols_def)
  then show ?thesis
  proof cases
    case 1
    then show ?thesis using gettoken_eq(2)[OF assms] by (intro nul)
  next
    case 2
    then have "r = at b q" by (rule gettoken_eq(3)[OF assms])
    then show ?thesis using 2 by (intro sym) (auto simp: fst_char_def symbols_def)
  next
    case 3
    then show ?thesis using gettoken_eq(4)[OF assms] by (intro sym) (auto simp: fst_char_def symbols_def)
  next
    case 4
    then show ?thesis using gettoken_eq(5)[OF assms] by (intro word) auto
  qed
qed

lemma toks_Nil: "toks b i = [] \<longleftrightarrow> at b (skip_ws b i) = NUL"
proof -
  obtain r q e j where g: "gettoken b i = (r, q, e, j)" by (metis prod_cases4)
  show ?thesis using gettoken_eq(1)[OF g] toks_gettoken[OF g] by (cases rule: gettoken_kinds[OF g]) (auto simp: symbols_def)
qed

lemma peek_toks:
  assumes "peek b i ts = (t, j)" and "set ts \<subseteq> set symbols"
  shows "toks b j = toks b i" "t \<longleftrightarrow> (\<exists>c rest. toks b i = Sym c # rest \<and> fst_char c \<in> set ts)"
proof -
  have "NUL \<notin> set ts" using assms(2) by (auto simp: symbols_def)
  then have j: "j = skip_ws b i" "t \<longleftrightarrow> at b j \<noteq> NUL \<and> at b j \<in> set ts"
    using assms(1) strchr_mem[of ts "at b j"] by (auto simp: peek_def Let_def)
  show "toks b j = toks b i" using j toks_skip by simp
  obtain r q e k where g: "gettoken b i = (r, q, e, k)" by (metis prod_cases4)
  have q: "q = j" using gettoken_eq(1)[OF g] j by simp
  show "t \<longleftrightarrow> (\<exists>c rest. toks b i = Sym c # rest \<and> fst_char c \<in> set ts)"
    using g
  proof (cases rule: gettoken_kinds)
    case nul
    then show ?thesis using toks_gettoken[OF g] j(2) q by simp
  next
    case sym
    then have "r \<noteq> NUL" "r \<noteq> CHR ''a''" "at b j \<noteq> NUL" using q by (auto simp: symbols_def)
    then show ?thesis using toks_gettoken[OF g] j(2) q sym(2) by simp
  next
    case word
    then show ?thesis using toks_gettoken[OF g] j(2) q assms(2) by auto
  qed
qed

lemma eat_toks: "toks b i = x # rest \<Longrightarrow> toks b (eat b i) = rest"
  by (cases "gettoken b i") (auto simp: toks_gettoken eat_def split: if_splits)

lemma toks_Sym:
  assumes "toks b i = Sym c # rest"
  obtains q e j where "gettoken b i = (c, q, e, j)" "toks b j = rest" "c \<noteq> NUL" "c \<noteq> CHR ''a''"
  using assms by (cases "gettoken b i") (auto simp: toks_gettoken split: if_splits)

lemma toks_Word:
  assumes "toks b i = Word w # rest"
  obtains q e j where "gettoken b i = (CHR ''a'', q, e, j)" "toks b j = rest" "w = lexeme b (q, e)"
  using assms by (cases "gettoken b i") (auto simp: toks_gettoken split: if_splits)

subsection \<open>Words\<close>

definition wordch :: "char \<Rightarrow> bool" where
  "wordch c \<longleftrightarrow> c \<noteq> NUL \<and> c \<notin> set whitespace \<and> c \<notin> set symbols"

text \<open>A longest run of word characters.\<close>

definition word_at :: "string \<Rightarrow> span \<Rightarrow> bool" where
  "word_at b s = (case s of (q, e) \<Rightarrow> q < e \<and> e \<le> length b \<and> (\<forall>k. q \<le> k \<and> k < e \<longrightarrow> wordch (b ! k)) \<and> \<not> wordch (at b e))"

lemma word_end_run:
  assumes "NUL \<notin> set b"
  shows "(i \<le> k \<and> k < word_end b i \<longrightarrow> k < length b \<and> wordch (b ! k)) \<and> \<not> wordch (at b (word_end b i))"
  using assms
proof (induction b i rule: word_end.induct)
  case (1 b i)
  show ?case
  proof (cases "i < length b \<and> at b i \<notin> set whitespace \<and> at b i \<notin> set symbols")
    case True
    then have e: "word_end b i = word_end b (Suc i)" by (subst word_end.simps) simp
    have "b ! i \<in> set b" using True by simp
    then have "b ! i \<noteq> NUL" using "1.prems" by metis
    then have "wordch (b ! i)" using True by (auto simp: wordch_def at_def)
    moreover have "k = i \<or> \<not> i \<le> k \<or> Suc i \<le> k" by auto
    ultimately show ?thesis using 1 True unfolding e by (auto simp: at_def)
  next
    case False
    then have "word_end b i = i" by (subst word_end.simps) auto
    then show ?thesis using False by (auto simp: wordch_def at_def)
  qed
qed

lemma gettoken_word:
  assumes "gettoken b i = (CHR ''a'', q, e, j)" "NUL \<notin> set b"
  shows "word_at b (q, e)"
proof -
  note w = word_end_run[OF assms(2), of q]
  have e: "e = word_end b q" by (rule gettoken_kinds[OF assms(1)]) auto
  have "q < e" using gettoken_moves(5)[OF assms(1)] by simp
  moreover have "e \<le> length b" using word_end_le[of q b] gettoken_in(1)[OF assms(1)] e by simp
  ultimately show ?thesis using w e by (auto simp: word_at_def)
qed

section \<open>The grammar\<close>

text \<open>Redirections wrap the command; the items of a simple command are words and redirections in any order.\<close>

definition redir_sym :: "char \<Rightarrow> bool" where
  "redir_sym k \<longleftrightarrow> fst_char k = CHR ''<'' \<or> fst_char k = CHR ''>''"

inductive redirs :: "token list \<Rightarrow> string cmd \<Rightarrow> string cmd \<Rightarrow> bool" where
  redirs_Nil: "redirs [] c c"
| redirs_Cons: "redir_sym k \<Longrightarrow> redirs ts (redir k c f) c' \<Longrightarrow> redirs (Sym k # Word f # ts) c c'"

inductive simple :: "token list \<Rightarrow> string cmd \<Rightarrow> string cmd \<Rightarrow> bool" where
  simple_Nil: "simple [] c c"
| simple_Word: "redirs rs (set_arg w c) c1 \<Longrightarrow> simple ts c1 c' \<Longrightarrow> simple (Word w # rs @ ts) c c'"

inductive gline :: "token list \<Rightarrow> string cmd \<Rightarrow> bool"
  and gpipe :: "token list \<Rightarrow> string cmd \<Rightarrow> bool"
  and gexec :: "token list \<Rightarrow> string cmd \<Rightarrow> bool" where
  gline_one: "gpipe ts c \<Longrightarrow> gline (ts @ replicate n (Sym CHR ''&'')) ((BACK ^^ n) c)"
| gline_list: "gpipe ts c \<Longrightarrow> gline us r \<Longrightarrow>
    gline (ts @ replicate n (Sym CHR ''&'') @ Sym CHR '';'' # us) (LIST ((BACK ^^ n) c) r)"
| gpipe_one: "gexec ts c \<Longrightarrow> gpipe ts c"
| gpipe_pipe: "gexec ts c \<Longrightarrow> gpipe us r \<Longrightarrow> gpipe (ts @ Sym CHR ''|'' # us) (PIPE c r)"
| gexec_simple: "redirs rs (EXEC []) c \<Longrightarrow> simple ts c c' \<Longrightarrow> gexec (rs @ ts) c'"
| gexec_block: "gline ts c \<Longrightarrow> redirs rs c c' \<Longrightarrow> gexec (Sym CHR ''('' # ts @ Sym CHR '')'' # rs) c'"

text \<open>The command with the words of the line for its pairs of pointers.\<close>

definition tree :: "string \<Rightarrow> span cmd \<Rightarrow> string cmd" where
  "tree b = map_cmd (lexeme b)"

lemma map_set_arg: "map_cmd f (set_arg a c) = set_arg (f a) (map_cmd f c)"
  by (induction a c rule: set_arg.induct) auto

lemma map_redir: "map_cmd f (redir k c s) = redir k (map_cmd f c) (f s)"
  by (simp add: redir_def)

lemma tree_simps [simp]:
  "tree b execcmd = EXEC []" "tree b (set_arg s c) = set_arg (lexeme b s) (tree b c)"
  "tree b (redir k c s) = redir k (tree b c) (lexeme b s)" "tree b (LIST c d) = LIST (tree b c) (tree b d)"
  "tree b (PIPE c d) = PIPE (tree b c) (tree b d)" "tree b (BACK c) = BACK (tree b c)"
  by (simp_all add: tree_def map_set_arg map_redir execcmd_def)

section \<open>What the parser accepts is derived\<close>

lemma parseredirs_sound:
  "parseredirs b c i = Inr (c', j) \<Longrightarrow>
   \<exists>ts. toks b i = ts @ toks b j \<and> redirs ts (tree b c) (tree b c')"
proof (induction b c i rule: parseredirs.induct)
  case (1 b c i)
  obtain t i1 where p: "peek b i ''<>'' = (t, i1)" by fastforce
  obtain tok q1 e1 i2 where g: "gettoken b i1 = (tok, q1, e1, i2)" by (metis prod_cases4)
  obtain r q e i3 where h: "gettoken b i2 = (r, q, e, i3)" by (metis prod_cases4)
  note k = peek_toks[OF p, unfolded symbols_def, simplified]
  show ?case
  proof (cases t)
    case True
    then have r: "r = CHR ''a''" and n: "parseredirs b (redir tok c (q, e)) i3 = Inr (c', j)"
      using 1(2) p g h by (auto simp: parseredirs.simps[of b c i] split: if_splits)
    from "1.IH"[OF p[symmetric]] True g h r n obtain ts where
      ts: "toks b i3 = ts @ toks b j" "redirs ts (redir tok (tree b c) (lexeme b (q, e))) (tree b c')" by fastforce
    have "toks b i = Sym tok # Word (lexeme b (q, e)) # toks b i3 \<and> redir_sym tok"
      using k True toks_gettoken[OF g] toks_gettoken[OF h] r by (auto simp: redir_sym_def split: if_splits)
    then show ?thesis using ts by (auto intro!: exI[of _ "Sym tok # Word (lexeme b (q, e)) # ts"] redirs_Cons)
  next
    case False
    then show ?thesis using 1(2) p k(1) by (auto simp: parseredirs.simps[of b c i] intro: redirs_Nil)
  qed
qed

lemma parse_args_sound:
  "parse_args b n c i = Inr (c', j) \<Longrightarrow>
   \<exists>ts. toks b i = ts @ toks b j \<and> simple ts (tree b c) (tree b c')"
proof (induction b n c i rule: parse_args.induct)
  case (1 b n c i)
  obtain t i1 where p: "peek b i ''|)&;'' = (t, i1)" by fastforce
  obtain tok q e i2 where g: "gettoken b i1 = (tok, q, e, i2)" by (metis prod_cases4)
  note k = peek_toks[OF p, unfolded symbols_def, simplified]
  show ?case
  proof (cases "\<not> t \<and> tok \<noteq> NUL")
    case True
    then obtain c2 i3 where a: "tok = CHR ''a''" "\<not> MAXARGS \<le> Suc n" "parseredirs b (set_arg (q, e) c) i2 = Inr (c2, i3)"
        "parse_args b (Suc n) c2 i3 = Inr (c', j)"
      using 1(2) p g by (auto simp: parse_args.simps[of b n c i] split: if_splits sum.splits)
    obtain rs where rs: "toks b i2 = rs @ toks b i3" "redirs rs (set_arg (lexeme b (q, e)) (tree b c)) (tree b c2)"
      using parseredirs_sound[OF a(3)] by auto
    from "1.IH"[OF p[symmetric]] True g a obtain ts where ts: "toks b i3 = ts @ toks b j" "simple ts (tree b c2) (tree b c')"
      by fastforce
    have "toks b i = Word (lexeme b (q, e)) # rs @ ts @ toks b j" using k(1) toks_gettoken[OF g] a(1) rs ts by simp
    then show ?thesis using simple_Word[OF rs(2) ts(2)] by (intro exI[of _ "Word (lexeme b (q, e)) # rs @ ts"]) simp
  next
    case False
    then have "c' = c \<and> toks b j = toks b i" using 1(2) p g k(1) toks_gettoken[OF g] toks_end[of b i1]
      by (auto simp: parse_args.simps[of b n c i] split: if_splits bool.splits)
    then show ?thesis using simple_Nil by simp
  qed
qed

lemma parse_backs_sound:
  "parse_backs b c i = (c', j) \<Longrightarrow>
   \<exists>n. toks b i = replicate n (Sym CHR ''&'') @ toks b j \<and> c' = (BACK ^^ n) c"
proof (induction b c i rule: parse_backs.induct)
  case (1 b c i)
  obtain t i1 where p: "peek b i ''&'' = (t, i1)" by fastforce
  note k = peek_toks[OF p, unfolded symbols_def, simplified]
  show ?case
  proof (cases t)
    case True
    then have "parse_backs b (backcmd c) (eat b i1) = (c', j)" using 1(2) p by (simp add: parse_backs.simps[of b c i])
    with "1.IH"[OF p[symmetric]] True obtain n where
      n: "toks b (eat b i1) = replicate n (Sym CHR ''&'') @ toks b j" "c' = (BACK ^^ n) (BACK c)" by auto
    have "toks b i = Sym CHR ''&'' # toks b (eat b i1)"
      using k True eat_toks[of b i1] by (auto simp: fst_char_def split: if_splits)
    then show ?thesis using n by (intro exI[of _ "Suc n"]) (simp add: funpow_swap1)
  next
    case False
    then show ?thesis using 1(2) p k(1) by (intro exI[of _ 0]) (simp add: parse_backs.simps[of b c i])
  qed
qed

lemma tree_backs: "tree b ((BACK ^^ n) c) = (BACK ^^ n) (tree b c)"
  by (induction n) auto

lemma peek_Sym:
  assumes "peek b i [k] = (True, j)" "k \<in> set symbols" "k \<noteq> CHR ''>''"
  shows "toks b i = Sym k # toks b (eat b j)"
proof -
  obtain c rest where c: "toks b i = Sym c # rest" "fst_char c = k" using peek_toks[OF assms(1)] assms(2) by auto
  then have "c = k" using assms(3) by (auto simp: fst_char_def split: if_splits)
  then show ?thesis using c eat_toks[of b j] peek_toks(1)[OF assms(1)] assms(2) by simp
qed

lemma parse_sound:
  "parseline n b i = Some (Inr (c, j)) \<Longrightarrow> \<exists>ts. toks b i = ts @ toks b j \<and> gline ts (tree b c)"
  "parsepipe n b i = Some (Inr (c, j)) \<Longrightarrow> \<exists>ts. toks b i = ts @ toks b j \<and> gpipe ts (tree b c)"
  "parseexec n b i = Some (Inr (c, j)) \<Longrightarrow> \<exists>ts. toks b i = ts @ toks b j \<and> gexec ts (tree b c)"
  "parseblock n b i = Some (Inr (c, j)) \<Longrightarrow> \<exists>ts. toks b i = ts @ toks b j \<and> gexec ts (tree b c)"
proof (induction n arbitrary: i c j)
  case (Suc n)
  {
    case 1
    from 1 show ?case
    proof (rule parseline_elim, goal_cases)
      case (1 m c0 i0 c1 i1 t i2)
      obtain ts where ts: "toks b i = ts @ toks b i0" "gpipe ts (tree b c0)" using Suc.IH(2)[of i c0 i0] 1(1,2) by auto
      obtain k where k: "toks b i0 = replicate k (Sym CHR ''&'') @ toks b i1" "c1 = (BACK ^^ k) c0"
        using parse_backs_sound[OF 1(3)] by auto
      show ?thesis
      proof (cases t)
        case True
        then obtain r where r: "parseline n b (eat b i2) = Some (Inr (r, j))" "c = LIST c1 r" using 1 by auto
        obtain us where us: "toks b (eat b i2) = us @ toks b j" "gline us (tree b r)" using Suc.IH(1)[OF r(1)] by auto
        have "toks b i1 = Sym CHR '';'' # us @ toks b j" using peek_Sym[of b i1 "CHR '';''" i2] 1(4) True us by (simp add: symbols_def)
        then show ?thesis using gline_list[OF ts(2) us(2), of k] ts(1) k r(2)
          by (intro exI[of _ "ts @ replicate k (Sym CHR ''&'') @ Sym CHR '';'' # us"]) (simp add: tree_backs)
      next
        case False
        then show ?thesis using 1 ts k gline_one[OF ts(2), of k] peek_toks(1)[OF 1(4)]
          by (intro exI[of _ "ts @ replicate k (Sym CHR ''&'')"]) (simp add: tree_backs symbols_def)
      qed
    qed
  next
    case 2
    from 2 show ?case
    proof (rule parsepipe_elim, goal_cases)
      case (1 m c1 i1 t i2)
      obtain ts where ts: "toks b i = ts @ toks b i1" "gexec ts (tree b c1)" using Suc.IH(3)[of i c1 i1] 1(1,2) by auto
      show ?thesis
      proof (cases t)
        case True
        then obtain r where r: "parsepipe n b (eat b i2) = Some (Inr (r, j))" "c = PIPE c1 r" using 1 by auto
        obtain us where us: "toks b (eat b i2) = us @ toks b j" "gpipe us (tree b r)" using Suc.IH(2)[OF r(1)] by auto
        have "toks b i1 = Sym CHR ''|'' # us @ toks b j" using peek_Sym[of b i1 "CHR ''|''" i2] 1(3) True us by (simp add: symbols_def)
        then show ?thesis using gpipe_pipe[OF ts(2) us(2)] ts(1) r(2)
          by (intro exI[of _ "ts @ Sym CHR ''|'' # us"]) simp
      next
        case False
        then show ?thesis using 1 ts gpipe_one[OF ts(2)] peek_toks(1)[OF 1(3)] by (auto simp: symbols_def)
      qed
    qed
  next
    case 3
    from 3 show ?case
    proof (rule parseexec_elim, goal_cases)
      case (1 m t i1)
      have e: "toks b i1 = toks b i" using peek_toks(1)[OF 1(2)] by (simp add: symbols_def)
      show ?thesis
      proof (cases t)
        case True
        then show ?thesis using 1 Suc.IH(4)[of i1 c j] e by auto
      next
        case False
        then obtain c2 i2 where p: "parseredirs b execcmd i1 = Inr (c2, i2)" "parse_args b 0 c2 i2 = Inr (c, j)" using 1(4) by auto
        obtain rs where rs: "toks b i = rs @ toks b i2" "redirs rs (EXEC []) (tree b c2)" using parseredirs_sound[OF p(1)] e by auto
        obtain ts where ts: "toks b i2 = ts @ toks b j" "simple ts (tree b c2) (tree b c)" using parse_args_sound[OF p(2)] by auto
        show ?thesis using gexec_simple[OF rs(2) ts(2)] rs(1) ts(1) by (intro exI[of _ "rs @ ts"]) simp
      qed
    qed
  next
    case 4
    from 4 show ?case
    proof (rule parseblock_elim, goal_cases)
      case (1 m i1 c2 i2 i3)
      obtain ts where ts: "toks b (eat b i1) = ts @ toks b i2" "gline ts (tree b c2)" using Suc.IH(1)[of "eat b i1" c2 i2] 1 by auto
      obtain rs where rs: "toks b (eat b i3) = rs @ toks b j" "redirs rs (tree b c2) (tree b c)" using parseredirs_sound[OF 1(5)] by auto
      have "toks b i = Sym CHR ''('' # toks b (eat b i1)" "toks b i2 = Sym CHR '')'' # toks b (eat b i3)"
        using peek_Sym[OF 1(2)] peek_Sym[OF 1(4)] by (simp_all add: symbols_def)
      then show ?thesis using gexec_block[OF ts(2) rs(2)] ts(1) rs(1)
        by (intro exI[of _ "Sym CHR ''('' # ts @ Sym CHR '')'' # rs"]) simp
    qed
  }
qed simp_all

subsection \<open>Words and argument counts\<close>

text \<open>The arguments of the simple command inside redirections.\<close>

fun argv :: "'s cmd \<Rightarrow> 's list option" where
  "argv (EXEC as) = Some as"
| "argv (REDIR c f m fd) = argv c"
| "argv c = None"

fun few_args :: "'s cmd \<Rightarrow> bool" where
  "few_args (EXEC as) = (length as < MAXARGS)"
| "few_args (REDIR c f m fd) = few_args c"
| "few_args (PIPE l r) = (few_args l \<and> few_args r)"
| "few_args (LIST l r) = (few_args l \<and> few_args r)"
| "few_args (BACK c) = few_args c"

lemma argv_few: "argv c = Some as \<Longrightarrow> few_args c \<longleftrightarrow> length as < MAXARGS"
  by (induction c) auto

lemma argv_map: "argv (map_cmd f c) = map_option (map f) (argv c)"
  by (induction c) auto

lemma few_map: "few_args (map_cmd f c) = few_args c"
  by (induction c) auto

lemma redir_facts [simp]:
  "argv (redir k c f) = argv c" "few_args (redir k c f) = few_args c"
  by (simp_all add: redir_def)

lemma argv_set_arg: "argv c = Some as \<Longrightarrow> argv (set_arg a c) = Some (as @ [a])"
  by (induction c) auto

lemma spans_redir: "set_cmd (redir k c s) \<subseteq> insert s (set_cmd c)"
  by (auto simp: redir_def)

lemma spans_set_arg: "set_cmd (set_arg s c) \<subseteq> insert s (set_cmd c)"
  by (induction s c rule: set_arg.induct) auto

definition words :: "string \<Rightarrow> span cmd \<Rightarrow> bool" where
  "words b c \<longleftrightarrow> (\<forall>s \<in> set_cmd c. word_at b s)"

lemma words_simps [simp]:
  "words b execcmd" "words b (BACK c) = words b c" "words b (LIST c d) \<longleftrightarrow> words b c \<and> words b d"
  "words b (PIPE c d) \<longleftrightarrow> words b c \<and> words b d"
  by (auto simp: words_def execcmd_def)

lemma parseredirs_keeps:
  "parseredirs b c i = Inr (c', j) \<Longrightarrow> NUL \<notin> set b \<Longrightarrow> words b c \<Longrightarrow>
   words b c' \<and> argv c' = argv c \<and> few_args c' = few_args c"
proof (induction b c i rule: parseredirs.induct)
  case (1 b c i)
  obtain t i1 where p: "peek b i ''<>'' = (t, i1)" by fastforce
  obtain tok q1 e1 i2 where g: "gettoken b i1 = (tok, q1, e1, i2)" by (metis prod_cases4)
  obtain r q e i3 where h: "gettoken b i2 = (r, q, e, i3)" by (metis prod_cases4)
  show ?case
  proof (cases t)
    case True
    then have r: "r = CHR ''a''" and n: "parseredirs b (redir tok c (q, e)) i3 = Inr (c', j)"
      using 1(2) p g h by (auto simp: parseredirs.simps[of b c i] split: if_splits)
    have "words b (redir tok c (q, e))" using 1(4) gettoken_word[of b i2 q e i3] h r 1(3) spans_redir[of tok c "(q, e)"]
      by (auto simp: words_def)
    from "1.IH"[OF p[symmetric] _ g[symmetric] refl refl h[symmetric] refl refl _ n 1(3) this] True r show ?thesis by simp
  next
    case False
    then show ?thesis using 1(2,4) p by (auto simp: parseredirs.simps[of b c i])
  qed
qed

lemma parse_args_keeps:
  "parse_args b n c i = Inr (c', j) \<Longrightarrow> NUL \<notin> set b \<Longrightarrow> words b c \<Longrightarrow> argv c = Some as \<Longrightarrow> length as = n \<Longrightarrow>
   n < MAXARGS \<Longrightarrow> words b c' \<and> few_args c'"
proof (induction b n c i arbitrary: as rule: parse_args.induct)
  case (1 b n c i)
  obtain t i1 where p: "peek b i ''|)&;'' = (t, i1)" by fastforce
  obtain tok q e i2 where g: "gettoken b i1 = (tok, q, e, i2)" by (metis prod_cases4)
  show ?case
  proof (cases "\<not> t \<and> tok \<noteq> NUL")
    case True
    then obtain c2 i3 where a: "tok = CHR ''a''" "\<not> MAXARGS \<le> Suc n" "parseredirs b (set_arg (q, e) c) i2 = Inr (c2, i3)"
        "parse_args b (Suc n) c2 i3 = Inr (c', j)"
      using 1(2) p g by (auto simp: parse_args.simps[of b n c i] split: if_splits sum.splits)
    have "words b (set_arg (q, e) c)" using 1(4) gettoken_word[of b i1 q e i2] g a(1) 1(3) spans_set_arg[of "(q, e)" c]
      by (auto simp: words_def)
    from parseredirs_keeps[OF a(3) 1(3) this] have "words b c2" "argv c2 = Some (as @ [(q, e)])"
      using argv_set_arg[OF 1(5)] by auto
    then show ?thesis using "1.IH"[OF p[symmetric] _ g[symmetric] refl refl _ _ _ a(3) refl a(4) 1(3)] True a 1(6) by simp
  next
    case False
    then have "c' = c" using 1(2) p g by (auto simp: parse_args.simps[of b n c i] split: if_splits bool.splits)
    then show ?thesis using 1 argv_few[of c as] by simp
  qed
qed

lemma words_backs: "words b ((BACK ^^ n) c) = words b c" "few_args ((BACK ^^ n) d) = few_args d"
  by (induction n) auto

lemma parse_keeps:
  assumes "NUL \<notin> set b"
  shows "parseline n b i = Some (Inr (c, j)) \<Longrightarrow> words b c \<and> few_args c"
    "parsepipe n b i = Some (Inr (c, j)) \<Longrightarrow> words b c \<and> few_args c"
    "parseexec n b i = Some (Inr (c, j)) \<Longrightarrow> words b c \<and> few_args c"
    "parseblock n b i = Some (Inr (c, j)) \<Longrightarrow> words b c \<and> few_args c"
proof (induction n arbitrary: i c j)
  case (Suc n)
  {
    case 1
    then show ?case
    proof (rule parseline_elim, goal_cases)
      case (1 m c0 i0 c1 i1 t i2)
      then have "words b c0 \<and> few_args c0" using Suc.IH(2)[of i c0 i0] by simp
      then have "words b c1 \<and> few_args c1" using parse_backs_sound[OF 1(3)] by (auto simp: words_backs)
      then show ?case using 1 Suc.IH(1)[of "eat b i2" _ j] by (cases t) auto
    qed
  next
    case 2
    then show ?case
    proof (rule parsepipe_elim, goal_cases)
      case (1 m c1 i1 t i2)
      then show ?case using Suc.IH(3)[of i c1 i1] Suc.IH(2)[of "eat b i2" _ j] by (cases t) auto
    qed
  next
    case 3
    then show ?case
    proof (rule parseexec_elim, goal_cases)
      case (1 m t i1)
      show ?case
      proof (cases t)
        case True
        then show ?thesis using 1 Suc.IH(4) by auto
      next
        case False
        then obtain c2 i2 where p: "parseredirs b execcmd i1 = Inr (c2, i2)" "parse_args b 0 c2 i2 = Inr (c, j)" using 1(4) by auto
        then show ?thesis using parseredirs_keeps[OF p(1) assms] parse_args_keeps[OF p(2) assms, of "[]"] by (simp add: execcmd_def words_def)
      qed
    qed
  next
    case 4
    then show ?case by (rule parseblock_elim) (use Suc.IH(1) parseredirs_keeps[OF _ assms] in \<open>auto\<close>)
  }
qed simp_all

section \<open>What is derived is accepted\<close>

text \<open>Where a simple command, a pipeline and a line end.\<close>

definition starts :: "string \<Rightarrow> token list \<Rightarrow> bool" where
  "starts ks ts \<longleftrightarrow> (\<exists>k rest. ts = Sym k # rest \<and> fst_char k \<in> set ks)"

definition stop :: "token list \<Rightarrow> bool" where
  "stop ts \<longleftrightarrow> ts = [] \<or> starts ''|)&;'' ts"

lemma starts_simps [simp]: "\<not> starts ks []" "\<not> starts ks (Word w # ts)" "starts ks (Sym k # ts) \<longleftrightarrow> fst_char k \<in> set ks"
  by (auto simp: starts_def)

lemma starts_mono: "starts ks ts \<Longrightarrow> set ks \<subseteq> set ls \<Longrightarrow> starts ls ts"
  by (auto simp: starts_def)

lemma peek_starts:
  assumes "set ks \<subseteq> set symbols"
  obtains j where "peek b i ks = (starts ks (toks b i), j)" "toks b j = toks b i"
  using peek_toks[OF _ assms, of b i] by (cases "peek b i ks") (auto simp: starts_def)

lemma parseredirs_complete:
  "redirs ts d c' \<Longrightarrow> toks b i = ts @ rest \<Longrightarrow> d = tree b c \<Longrightarrow> \<not> starts ''<>'' rest \<Longrightarrow>
   \<exists>p j. parseredirs b c i = Inr (p, j) \<and> tree b p = c' \<and> toks b j = rest"
proof (induction arbitrary: c i rule: redirs.induct)
  case (redirs_Nil d)
  obtain j where "peek b i ''<>'' = (starts ''<>'' (toks b i), j)" "toks b j = toks b i"
    by (rule peek_starts[of "''<>''" b i]) (auto simp: symbols_def)
  then show ?case using redirs_Nil by (auto simp: parseredirs.simps[of b c i])
next
  case (redirs_Cons k ts d f c')
  obtain j where j: "peek b i ''<>'' = (starts ''<>'' (toks b i), j)" "toks b j = toks b i"
    by (rule peek_starts[of "''<>''" b i]) (auto simp: symbols_def)
  have s: "starts ''<>'' (toks b i)" using redirs_Cons(1,4) by (auto simp: redir_sym_def)
  obtain q1 e1 i2 where g: "gettoken b j = (k, q1, e1, i2)" "toks b i2 = Word f # ts @ rest"
    using redirs_Cons(4) j(2) by (auto elim: toks_Sym)
  obtain q e i3 where h: "gettoken b i2 = (CHR ''a'', q, e, i3)" "toks b i3 = ts @ rest" "f = lexeme b (q, e)"
    using g(2) by (auto elim: toks_Word)
  have "redir k d f = tree b (redir k c (q, e))" using redirs_Cons(5) h(3) by simp
  from redirs_Cons.IH[OF h(2) this redirs_Cons(6)] show ?case
    using j s g h by (simp add: parseredirs.simps[of b c i])
qed

lemma redirs_argv: "redirs ts c c' \<Longrightarrow> argv c' = argv c \<and> few_args c' = few_args c"
  by (induction rule: redirs.induct) auto

lemma simple_argv: "simple ts c c' \<Longrightarrow> argv c = Some as \<Longrightarrow> \<exists>bs. argv c' = Some (as @ bs)"
proof (induction arbitrary: as rule: simple.induct)
  case (simple_Word rs w c c1 ts c')
  then show ?case using argv_set_arg[OF simple_Word(4), of w] redirs_argv[OF simple_Word(1)] by fastforce
qed auto

lemma simple_no_redir: "simple ts c c' \<Longrightarrow> stop rest \<Longrightarrow> \<not> starts ''<>'' (ts @ rest) \<and> \<not> starts ''('' (ts @ rest)"
  by (cases rule: simple.cases) (auto simp: stop_def starts_def fst_char_def)

lemma parse_args_complete:
  "simple ts d c' \<Longrightarrow> toks b i = ts @ rest \<Longrightarrow> d = tree b c \<Longrightarrow> stop rest \<Longrightarrow> few_args c' \<Longrightarrow>
   argv c = Some as \<Longrightarrow> length as = n \<Longrightarrow>
   \<exists>p j. parse_args b n c i = Inr (p, j) \<and> tree b p = c' \<and> toks b j = rest"
proof (induction arbitrary: c i as n rule: simple.induct)
  case (simple_Nil d)
  obtain j where j: "peek b i ''|)&;'' = (starts ''|)&;'' (toks b i), j)" "toks b j = toks b i"
    by (rule peek_starts[of "''|)&;''" b i]) (auto simp: symbols_def)
  obtain r q e k where g: "gettoken b j = (r, q, e, k)" by (metis prod_cases4)
  show ?case
  proof (cases "rest = []")
    case True
    then have "r = NUL" using toks_gettoken[OF g] simple_Nil(1) j(2) by (simp split: if_splits)
    then show ?thesis using True simple_Nil j g toks_end[of b j q e k] by (simp add: parse_args.simps[of b n c i])
  next
    case False
    then show ?thesis using simple_Nil j by (auto simp: parse_args.simps[of b n c i] stop_def)
  qed
next
  case (simple_Word rs w d c1 ts c')
  obtain j where j: "peek b i ''|)&;'' = (starts ''|)&;'' (toks b i), j)" "toks b j = toks b i"
    by (rule peek_starts[of "''|)&;''" b i]) (auto simp: symbols_def)
  obtain q e i2 where g: "gettoken b j = (CHR ''a'', q, e, i2)" "toks b i2 = rs @ ts @ rest" "w = lexeme b (q, e)"
    using simple_Word(4) j(2) by (auto elim: toks_Word)
  have "set_arg w d = tree b (set_arg (q, e) c)" using simple_Word(5) g(3) by simp
  from parseredirs_complete[OF simple_Word(1) g(2) this] obtain c2 i3 where
    r: "parseredirs b (set_arg (q, e) c) i2 = Inr (c2, i3)" "tree b c2 = c1" "toks b i3 = ts @ rest"
    using simple_no_redir[OF simple_Word(2,6)] by auto
  have a1: "argv (tree b c2) = Some (map (lexeme b) as @ [w])"
    using redirs_argv[OF simple_Word(1)] argv_set_arg[of d "map (lexeme b) as" w] simple_Word(5,8) r(2)
    by (simp add: tree_def argv_map)
  then obtain bs where "argv c' = Some (map (lexeme b) as @ [w] @ bs)" using simple_argv[OF simple_Word(2)] r(2) by fastforce
  then have n: "\<not> MAXARGS \<le> Suc n" using argv_few[of c'] simple_Word(7,9) by auto
  obtain as2 where a2: "argv c2 = Some as2" "map (lexeme b) as2 = map (lexeme b) as @ [w]" using a1 by (auto simp: tree_def argv_map)
  from arg_cong[OF a2(2), where f = length] have "length as2 = Suc n" using simple_Word(9) by simp
  from simple_Word.IH[OF r(3) r(2)[symmetric] simple_Word(6,7) a2(1) this] show ?case
    using j simple_Word(4) g r n by (simp add: parse_args.simps[of b n c i])
qed

lemma parse_backs_complete:
  "toks b i = replicate n (Sym CHR ''&'') @ rest \<Longrightarrow> \<not> starts ''&'' rest \<Longrightarrow>
   \<exists>j. parse_backs b c i = ((BACK ^^ n) c, j) \<and> toks b j = rest"
proof (induction n arbitrary: c i)
  case 0
  obtain j where "peek b i ''&'' = (starts ''&'' (toks b i), j)" "toks b j = toks b i"
    by (rule peek_starts[of "''&''" b i]) (auto simp: symbols_def)
  then show ?case using 0 by (simp add: parse_backs.simps[of b c i])
next
  case (Suc n)
  obtain j where j: "peek b i ''&'' = (starts ''&'' (toks b i), j)" "toks b j = toks b i"
    by (rule peek_starts[of "''&''" b i]) (auto simp: symbols_def)
  have "toks b (eat b j) = replicate n (Sym CHR ''&'') @ rest" using Suc(2) j(2) eat_toks[of b j] by simp
  from Suc.IH[OF this Suc(3), of "BACK c"] show ?case
    using j Suc(2) by (simp add: parse_backs.simps[of b c i] funpow_swap1 fst_char_def)
qed

lemma pbnd_Some [simp]: "pbnd (Some (Inr (x, i))) k = k x i"
  by (simp add: pbnd_def)

lemma gexec_start: "gexec ts c \<Longrightarrow> (\<exists>us. ts = Sym CHR ''('' # us) \<or> (\<exists>rs us d. ts = rs @ us \<and> redirs rs (EXEC []) d \<and> simple us d c)"
  by (cases rule: gexec.cases) auto

lemma few_backs: "few_args ((BACK ^^ n) c) = few_args c"
  by (induction n) auto

lemma pbnd_defined: "pbnd m k \<noteq> None \<Longrightarrow> m \<noteq> None"
  by (cases m) (simp_all add: pbnd_def)

declare not_None_eq [iff del] pbnd_defined [dest]

lemma parse_complete:
  "gline ts c \<Longrightarrow> few_args c \<Longrightarrow> toks b i = ts @ rest \<Longrightarrow> rest = [] \<or> starts '')'' rest \<Longrightarrow> parseline n b i \<noteq> None \<Longrightarrow>
    \<exists>p j. parseline n b i = Some (Inr (p, j)) \<and> tree b p = c \<and> toks b j = rest"
  "gpipe ts d \<Longrightarrow> few_args d \<Longrightarrow> toks b i = ts @ rest \<Longrightarrow> rest = [] \<or> starts '')&;'' rest \<Longrightarrow> parsepipe n b i \<noteq> None \<Longrightarrow>
    \<exists>p j. parsepipe n b i = Some (Inr (p, j)) \<and> tree b p = d \<and> toks b j = rest"
  "gexec ts e \<Longrightarrow> few_args e \<Longrightarrow> toks b i = ts @ rest \<Longrightarrow> stop rest \<Longrightarrow> parseexec n b i \<noteq> None \<Longrightarrow>
    \<exists>p j. parseexec n b i = Some (Inr (p, j)) \<and> tree b p = e \<and> toks b j = rest"
proof (induction arbitrary: i rest n and i rest n and i rest n rule: gline_gpipe_gexec.inducts)
  case (gline_one ts c k)
  then obtain m where n: "n = Suc m" by (cases n) auto
  have s: "\<not> starts ''&'' rest" "\<not> starts '';'' rest" using gline_one(5) by (auto simp: starts_def)
  have r: "replicate k (Sym CHR ''&'') @ rest = [] \<or> starts '')&;'' (replicate k (Sym CHR ''&'') @ rest)"
    using gline_one(5) starts_mono[of "'')''" rest "'')&;''"] by (cases k) (auto simp: fst_char_def)
  have "parsepipe m b i \<noteq> None" using gline_one(6) n by auto
  with gline_one.IH[of i "replicate k (Sym CHR ''&'') @ rest" m] r gline_one(3,4) obtain c0 i0 where
    p: "parsepipe m b i = Some (Inr (c0, i0))" "tree b c0 = c" "toks b i0 = replicate k (Sym CHR ''&'') @ rest"
    by (auto simp: few_backs)
  obtain i1 where q: "parse_backs b c0 i0 = ((BACK ^^ k) c0, i1)" "toks b i1 = rest" using parse_backs_complete[OF p(3) s(1)] by auto
  obtain j where j: "peek b i1 '';'' = (starts '';'' (toks b i1), j)" "toks b j = toks b i1"
    by (rule peek_starts[of "'';''" b i1]) (auto simp: symbols_def)
  show ?case using n p q j s(2) by (simp add: tree_backs)
next
  case (gline_list ts c us r k)
  then obtain m where n: "n = Suc m" by (cases n) auto
  let ?rest = "replicate k (Sym CHR ''&'') @ Sym CHR '';'' # us @ rest"
  have r: "starts '')&;'' ?rest" by (cases k) (auto simp: fst_char_def)
  have "parsepipe m b i \<noteq> None" using gline_list(8) n by auto
  with gline_list.IH(1)[of i ?rest m] r gline_list(5,6) obtain c0 i0 where
    p: "parsepipe m b i = Some (Inr (c0, i0))" "tree b c0 = c" "toks b i0 = ?rest" by (auto simp: few_backs)
  obtain i1 where q: "parse_backs b c0 i0 = ((BACK ^^ k) c0, i1)" "toks b i1 = Sym CHR '';'' # us @ rest"
    using parse_backs_complete[OF p(3)] by (auto simp: fst_char_def)
  obtain j where j: "peek b i1 '';'' = (starts '';'' (toks b i1), j)" "toks b j = toks b i1"
    by (rule peek_starts[of "'';''" b i1]) (auto simp: symbols_def)
  have t: "starts '';'' (toks b i1)" using q(2) by (simp add: fst_char_def)
  have e: "toks b (eat b j) = us @ rest" using j(2) q(2) eat_toks[of b j] by simp
  have "parseline m b (eat b j) \<noteq> None" using gline_list(8) n p q(1) j t by auto
  with gline_list.IH(2)[OF _ e gline_list(7), of m] gline_list(5) show ?case using n p q j t by (auto simp: tree_backs)
next
  case (gpipe_one ts c)
  then obtain m where n: "n = Suc m" by (cases n) auto
  have "stop rest" using gpipe_one(5) by (auto simp: stop_def starts_def)
  moreover have "parseexec m b i \<noteq> None" using gpipe_one(6) n by auto
  ultimately obtain c0 i1 where p: "parseexec m b i = Some (Inr (c0, i1))" "tree b c0 = c" "toks b i1 = rest"
    using gpipe_one.IH[OF gpipe_one(3,4), of m] by auto
  obtain j where j: "peek b i1 ''|'' = (starts ''|'' (toks b i1), j)" "toks b j = toks b i1"
    by (rule peek_starts[of "''|''" b i1]) (auto simp: symbols_def)
  show ?case using n p j gpipe_one(5) by (auto simp: starts_def)
next
  case (gpipe_pipe ts c us r)
  then obtain m where n: "n = Suc m" by (cases n) auto
  have "parseexec m b i \<noteq> None" using gpipe_pipe(8) n by auto
  then obtain c0 i1 where p: "parseexec m b i = Some (Inr (c0, i1))" "tree b c0 = c" "toks b i1 = Sym CHR ''|'' # us @ rest"
    using gpipe_pipe.IH(1)[of i "Sym CHR ''|'' # us @ rest" m] gpipe_pipe(5,6) by (auto simp: stop_def fst_char_def)
  obtain j where j: "peek b i1 ''|'' = (starts ''|'' (toks b i1), j)" "toks b j = toks b i1"
    by (rule peek_starts[of "''|''" b i1]) (auto simp: symbols_def)
  have t: "starts ''|'' (toks b i1)" using p(3) by (simp add: fst_char_def)
  have e: "toks b (eat b j) = us @ rest" using j(2) p(3) eat_toks[of b j] by simp
  have "parsepipe m b (eat b j) \<noteq> None" using gpipe_pipe(8) n p j t by auto
  with gpipe_pipe.IH(2)[OF _ e gpipe_pipe(7), of m] gpipe_pipe(5) show ?case using n p j t by auto
next
  case (gexec_simple rs d ts c')
  then obtain m where n: "n = Suc m" by (cases n) auto
  have u: "\<not> starts ''<>'' (ts @ rest)" "\<not> starts ''('' (ts @ rest)" using simple_no_redir[OF gexec_simple(2,5)] by auto
  have "\<not> starts ''('' (rs @ ts @ rest)" using gexec_simple(1) u(2)
    by (cases rule: redirs.cases) (auto simp: redir_sym_def)
  moreover obtain j where j: "peek b i ''('' = (starts ''('' (toks b i), j)" "toks b j = toks b i"
    by (rule peek_starts[of "''(''" b i]) (auto simp: symbols_def)
  moreover from parseredirs_complete[OF gexec_simple(1), of b j "ts @ rest" execcmd] obtain c2 i2 where
    r: "parseredirs b execcmd j = Inr (c2, i2)" "tree b c2 = d" "toks b i2 = ts @ rest"
    using gexec_simple(4) j(2) u(1) by auto
  moreover have "argv c2 = Some []" using redirs_argv[OF gexec_simple(1)] r(2) by (auto simp: tree_def argv_map)
  ultimately show ?case using n gexec_simple(4)
      parse_args_complete[OF gexec_simple(2) r(3) r(2)[symmetric] gexec_simple(5,3), of "[]" 0] by auto
next
  case (gexec_block ts c rs c')
  then obtain m where n: "n = Suc m" by (cases n) auto
  obtain i1 where i1: "peek b i ''('' = (starts ''('' (toks b i), i1)" "toks b i1 = toks b i"
    by (rule peek_starts[of "''(''" b i]) (auto simp: symbols_def)
  have t: "starts ''('' (toks b i)" using gexec_block(5) by (simp add: fst_char_def)
  have "parseblock m b i1 \<noteq> None" using gexec_block(7) n i1 t by auto
  then obtain k where k: "m = Suc k" by (cases m) auto
  obtain i2 where i2: "peek b i1 ''('' = (starts ''('' (toks b i1), i2)" "toks b i2 = toks b i1"
    by (rule peek_starts[of "''(''" b i1]) (auto simp: symbols_def)
  have e: "toks b (eat b i2) = ts @ Sym CHR '')'' # rs @ rest" using eat_toks[of b i2] i2(2) i1(2) gexec_block(5) by simp
  have "parseline k b (eat b i2) \<noteq> None" using gexec_block(7) n k i1 i2 t by auto
  with gexec_block.IH[OF _ e, of k] obtain c2 i3 where
    p: "parseline k b (eat b i2) = Some (Inr (c2, i3))" "tree b c2 = c" "toks b i3 = Sym CHR '')'' # rs @ rest"
    using redirs_argv[OF gexec_block(2)] gexec_block(4) by (auto simp: fst_char_def)
  obtain i4 where i4: "peek b i3 '')'' = (starts '')'' (toks b i3), i4)" "toks b i4 = toks b i3"
    by (rule peek_starts[of "'')''" b i3]) (auto simp: symbols_def)
  have f: "toks b (eat b i4) = rs @ rest" using eat_toks[of b i4] i4(2) p(3) by simp
  have "\<not> starts ''<>'' rest" using gexec_block(6) by (auto simp: stop_def starts_def)
  from parseredirs_complete[OF gexec_block(2) f p(2)[symmetric] this] show ?case
    using n k i1 i2 t p i4 by (auto simp: fst_char_def)
qed

declare not_None_eq [iff]

section \<open>The strings of a parsed command\<close>

lemma upd_nth: "k < length s \<Longrightarrow> s[e := x] ! k = (if e = k then x else s ! k)"
  by (cases "e = k") auto

lemma nul_args:
  "length (fold (\<lambda>(q, eq) s. s[eq := NUL]) as s) = length s"
  "k < length s \<Longrightarrow> fold (\<lambda>(q, eq) s. s[eq := NUL]) as s ! k = (if \<exists>q. (q, k) \<in> set as then NUL else s ! k)"
  by (induction as arbitrary: s) (auto simp: upd_nth)

lemma nulterminate_length [simp]: "length (nulterminate c s) = length s"
  by (induction c s rule: nulterminate.induct) (auto simp: nul_args)

lemma nulterminate_nth:
  "k < length s \<Longrightarrow> nulterminate c s ! k = (if \<exists>q. (q, k) \<in> set_cmd c then NUL else s ! k)"
  by (induction c s rule: nulterminate.induct) (auto simp: nul_args upd_nth)

lemma nulterminate_strings:
  assumes "words b c" "s \<in> set_cmd c"
  shows "cstr (nulterminate c (b @ [NUL])) (fst s) = lexeme b s"
proof -
  obtain q e where s: "s = (q, e)" by (cases s)
  have w: "q < e" "e \<le> length b" "\<And>k. q \<le> k \<Longrightarrow> k < e \<Longrightarrow> wordch (b ! k)" using assms s by (auto simp: words_def word_at_def)
  have out: "\<not> (\<exists>q. (q, k) \<in> set_cmd c)" if "q \<le> k" "k < e" for k
  proof
    assume "\<exists>q. (q, k) \<in> set_cmd c"
    then have "\<not> wordch (at b k)" using assms(1) by (auto simp: words_def word_at_def)
    then show False using w that by (simp add: at_def)
  qed
  let ?s = "nulterminate c (b @ [NUL])"
  have "takeWhile (\<lambda>c. c \<noteq> NUL) (drop q ?s) = take (e - q) (drop q ?s)"
  proof (rule takeWhile_eq_take_P_nth)
    show "drop q ?s ! k \<noteq> NUL" if "k < e - q" for k
      using w(3)[of "q + k"] out[of "q + k"] that w by (simp add: nulterminate_nth nth_append wordch_def)
    show "\<not> drop q ?s ! (e - q) \<noteq> NUL" using assms(2) s w by (auto simp: nulterminate_nth)
  qed
  moreover have "take (e - q) (drop q ?s) = take (e - q) (drop q b)"
    using w out by (intro nth_equalityI) (auto simp: nulterminate_nth nth_append)
  ultimately show ?thesis using s by (simp add: cstr_def lexeme_def)
qed

lemma nulterminate_tree: "words b c \<Longrightarrow> strings (nulterminate c (b @ [NUL])) c = tree b c"
  unfolding strings_def tree_def by (intro cmd.map_cong0) (use nulterminate_strings in \<open>auto simp: case_prod_beta\<close>)

lemma toks_at_end:
  assumes "NUL \<notin> set b" "i \<le> length b"
  shows "toks b i = [] \<longleftrightarrow> skip_ws b i = length b"
proof -
  have "b ! skip_ws b i \<noteq> NUL" if "skip_ws b i < length b"
    using assms(1) nth_mem[OF that] by metis
  then have "at b (skip_ws b i) = NUL \<longleftrightarrow> \<not> skip_ws b i < length b"
    by (auto simp: at_def)
  then show ?thesis using skip_ws_le[OF assms(2)] by (auto simp: toks_Nil)
qed

lemma parsecmd_iff:
  assumes "NUL \<notin> set b"
  shows "(\<exists>p s. parsecmd b = Some (Inr (p, s)) \<and> strings s p = c) \<longleftrightarrow> gline (toks b 0) c \<and> few_args c"
proof
  assume "\<exists>p s. parsecmd b = Some (Inr (p, s)) \<and> strings s p = c"
  then obtain p i i1 x where p: "parseline (parse_fuel b) b 0 = Some (Inr (p, i))" "peek b i '''' = (x, i1)" "i1 = length b"
      "strings (nulterminate p (b @ [NUL])) p = c"
    by (auto simp: parsecmd_def split: option.splits sum.splits prod.splits if_splits)
  have "skip_ws b i = length b" using p by (simp add: peek_def Let_def)
  then have e: "toks b i = []" using toks_at_end[OF assms] parse_fwd(1)[OF p(1)] by simp
  have k: "words b p" "few_args p" using parse_keeps(1)[OF assms p(1)] by auto
  then have "c = tree b p" using nulterminate_tree p(4) by simp
  then show "gline (toks b 0) c \<and> few_args c" using parse_sound(1)[OF p(1)] e k by (auto simp: tree_def few_map)
next
  assume g: "gline (toks b 0) c \<and> few_args c"
  then obtain p i where p: "parseline (parse_fuel b) b 0 = Some (Inr (p, i))" "tree b p = c" "toks b i = []"
    using parse_complete(1)[of "toks b 0" c b 0 "[]" "parse_fuel b"] parse_returns(1)[of 0 b "parse_fuel b"] by (auto simp: parse_fuel_def)
  have "skip_ws b i = length b" using toks_at_end[OF assms] parse_fwd(1)[OF p(1)] p(3) by simp
  then have "peek b i '''' = (False, length b)" by (simp add: peek_def Let_def)
  then have "parsecmd b = Some (Inr (p, nulterminate p (b @ [NUL])))" using p by (simp add: parsecmd_def)
  then show "\<exists>p s. parsecmd b = Some (Inr (p, s)) \<and> strings s p = c"
    using nulterminate_tree parse_keeps(1)[OF assms p(1)] p(2) by auto
qed

section \<open>Printing\<close>

text \<open>A command as tokens, in parentheses where the level asks for them: 0 for a simple command or a
  block, 1 for a pipeline, 2 for a pipeline with \<open>&\<close>, 3 for a line.\<close>

definition paren :: "bool \<Rightarrow> token list \<Rightarrow> token list" where
  "paren x ts = (if x then Sym CHR ''('' # ts @ [Sym CHR '')''] else ts)"

fun show_cmd :: "nat \<Rightarrow> string cmd \<Rightarrow> token list" where
  "show_cmd k (EXEC as) = map Word as"
| "show_cmd k (REDIR c f m fd) = show_cmd 0 c @ [Sym (if fd = 0 then CHR ''<'' else CHR ''>''), Word f]"
| "show_cmd k (PIPE l r) = paren (k < 1) (show_cmd 0 l @ Sym CHR ''|'' # show_cmd 1 r)"
| "show_cmd k (BACK c) = paren (k < 2) (show_cmd 2 c @ [Sym CHR ''&''])"
| "show_cmd k (LIST l r) = paren (k < 3) (show_cmd 2 l @ Sym CHR '';'' # show_cmd 3 r)"

text \<open>The commands the parser can build: descriptor and mode of a redirection go together.\<close>

fun proper :: "string cmd \<Rightarrow> bool" where
  "proper (EXEC as) = (\<forall>w \<in> set as. w \<noteq> [] \<and> (\<forall>c \<in> set w. wordch c))"
| "proper (REDIR c f m fd) = (proper c \<and> f \<noteq> [] \<and> (\<forall>c \<in> set f. wordch c) \<and> (m, fd) \<in> {(rdonly, 0), (wronly_create, 1)})"
| "proper (PIPE l r) = (proper l \<and> proper r)"
| "proper (LIST l r) = (proper l \<and> proper r)"
| "proper (BACK c) = proper c"

fun text_of :: "token \<Rightarrow> string" where
  "text_of (Sym c) = (if c = CHR ''+'' then ''>>'' else [c])"
| "text_of (Word w) = w"

definition render :: "token list \<Rightarrow> string" where
  "render ts = concat (map (\<lambda>t. text_of t @ '' '') ts)"

subsection \<open>What is printed is derived\<close>

lemma redirs_snoc: "redirs ts c c' \<Longrightarrow> redir_sym k \<Longrightarrow> redirs (ts @ [Sym k, Word f]) c (redir k c' f)"
  by (induction rule: redirs.induct) (auto intro: redirs.intros)

lemma simple_snoc:
  "simple ts c c' \<Longrightarrow> redir_sym k \<Longrightarrow> (ts = [] \<and> c' = c) \<or> simple (ts @ [Sym k, Word f]) c (redir k c' f)"
proof (induction rule: simple.induct)
  case (simple_Word rs w c c1 ts c')
  show ?case
  proof (cases "ts = [] \<and> c' = c1")
    case True
    then show ?thesis using simple.simple_Word[OF redirs_snoc[OF simple_Word(1,4), of f] simple_Nil] by simp
  next
    case False
    then have "simple (ts @ [Sym k, Word f]) c1 (redir k c' f)" using simple_Word(3,4) by blast
    from simple.simple_Word[OF simple_Word(1) this] show ?thesis by simp
  qed
qed simp

lemma gexec_redir:
  assumes "gexec ts c" "redir_sym k"
  shows "gexec (ts @ [Sym k, Word f]) (redir k c f)"
  using assms(1)
proof (cases rule: gexec.cases)
  case (gexec_simple rs d us)
  show ?thesis
  proof (cases "us = [] \<and> d = c")
    case True
    then show ?thesis using gline_gpipe_gexec.gexec_simple[OF redirs_snoc[OF gexec_simple(2) assms(2), of f] simple_Nil] gexec_simple(1) by simp
  next
    case False
    then have "simple (us @ [Sym k, Word f]) d (redir k c f)" using simple_snoc[OF gexec_simple(3) assms(2), of f] by auto
    then show ?thesis using gline_gpipe_gexec.gexec_simple[OF gexec_simple(2)] gexec_simple(1) by simp
  qed
next
  case (gexec_block us d rs)
  then show ?thesis using gline_gpipe_gexec.gexec_block[OF gexec_block(2) redirs_snoc[OF gexec_block(3) assms(2), of f]] by simp
qed

lemma simple_words: "simple (map Word as) (EXEC bs) (EXEC (bs @ as))"
proof (induction as arbitrary: bs)
  case (Cons w as)
  have "simple (map Word as) (set_arg w (EXEC bs)) (EXEC (bs @ w # as))" using Cons.IH[of "bs @ [w]"] by simp
  from simple_Word[OF redirs_Nil this] show ?case by simp
qed (simp add: simple_Nil)

definition gback :: "token list \<Rightarrow> string cmd \<Rightarrow> bool" where
  "gback ts c \<longleftrightarrow> (\<exists>us d n. ts = us @ replicate n (Sym CHR ''&'') \<and> c = (BACK ^^ n) d \<and> gpipe us d)"

lemma gback_intros: "gpipe ts c \<Longrightarrow> gback ts c" "gback ts c \<Longrightarrow> gback (ts @ [Sym CHR ''&'']) (BACK c)"
proof -
  show "gpipe ts c \<Longrightarrow> gback ts c" unfolding gback_def by (intro exI[of _ ts] exI[of _ c] exI[of _ 0]) simp
  assume "gback ts c"
  then obtain us d n where u: "ts = us @ replicate n (Sym CHR ''&'')" "c = (BACK ^^ n) d" "gpipe us d" by (auto simp: gback_def)
  then show "gback (ts @ [Sym CHR ''&'']) (BACK c)" unfolding gback_def
    by (intro exI[of _ us] exI[of _ d] exI[of _ "Suc n"]) (simp add: replicate_append_same)
qed

lemma gline_intros:
  "gback ts c \<Longrightarrow> gline ts c" "gback ts c \<Longrightarrow> gline us r \<Longrightarrow> gline (ts @ Sym CHR '';'' # us) (LIST c r)"
  using gline_list by (fastforce simp: gback_def intro: gline_one)+

lemma gexec_paren: "gline ts c \<Longrightarrow> gexec (paren True ts) c"
  using gexec_block[OF _ redirs_Nil] by (simp add: paren_def)

text \<open>From one level to the next.\<close>

lemma levels:
  "gexec ts c \<Longrightarrow> gpipe ts c \<and> gback ts c \<and> gline ts c"
  "gpipe ts c \<Longrightarrow> gback ts c \<and> gline ts c"
  using gpipe_one gback_intros gline_intros by auto

lemma show_derived:
  "proper c \<Longrightarrow> gexec (show_cmd 0 c) c \<and> gpipe (show_cmd 1 c) c \<and> gback (show_cmd 2 c) c \<and> gline (show_cmd 3 c) c"
proof (induction c)
  case (EXEC as)
  have "gexec (map Word as) (EXEC as)" using gexec_simple[OF redirs_Nil simple_words[of as "[]"]] by simp
  then show ?case using levels by simp
next
  case (REDIR c f m fd)
  let ?k = "if fd = 0 then CHR ''<'' else CHR ''>''"
  have "redir ?k c f = REDIR c f m fd" "redir_sym ?k" using REDIR(2) by (auto simp: redir_def redir_sym_def fst_char_def)
  then have "gexec (show_cmd 0 c @ [Sym ?k, Word f]) (REDIR c f m fd)" using gexec_redir[of "show_cmd 0 c" c ?k f] REDIR by auto
  then show ?case using levels by simp
next
  case (PIPE l r)
  then have g: "gpipe (show_cmd 0 l @ Sym CHR ''|'' # show_cmd 1 r) (PIPE l r)" using gpipe_pipe by simp
  then show ?case using levels(2)[OF g] gexec_paren[OF conjunct2[OF levels(2)[OF g]]] by (simp add: paren_def)
next
  case (LIST l r)
  then have g: "gline (show_cmd 2 l @ Sym CHR '';'' # show_cmd 3 r) (LIST l r)" using gline_intros(2) by simp
  then show ?case using levels(1)[OF gexec_paren[OF g]] gexec_paren[OF g] by (simp add: paren_def)
next
  case (BACK c)
  then have g: "gback (show_cmd 2 c @ [Sym CHR ''&'']) (BACK c)" using gback_intros(2) by simp
  then show ?case using gline_intros(1)[OF g] levels(1)[OF gexec_paren[OF gline_intros(1)[OF g]]] gexec_paren[OF gline_intros(1)[OF g]]
    by (simp add: paren_def)
qed

subsection \<open>The tokens of printed text\<close>

fun token_ok :: "token \<Rightarrow> bool" where
  "token_ok (Sym c) = (c \<in> set ''|();&<>+'')"
| "token_ok (Word w) = (w \<noteq> [] \<and> (\<forall>c \<in> set w. wordch c))"

lemma show_ok: "proper c \<Longrightarrow> t \<in> set (show_cmd k c) \<Longrightarrow> token_ok t"
  by (induction k c rule: show_cmd.induct) (auto simp: paren_def split: if_splits)

lemma at_append: "at (pre @ c # suf) (length pre) = c"
  by (simp add: at_def)

lemma word_end_word:
  "\<forall>c \<in> set w. wordch c \<Longrightarrow> \<not> wordch d \<Longrightarrow> d \<noteq> NUL \<Longrightarrow> word_end (pre @ w @ d # suf) (length pre) = length pre + length w"
proof (induction w arbitrary: pre)
  case Nil
  then show ?case using at_append[of pre d suf] by (subst word_end.simps) (auto simp: wordch_def)
next
  case (Cons c w)
  have "word_end (pre @ (c # w) @ d # suf) (length pre) = word_end ((pre @ [c]) @ w @ d # suf) (length (pre @ [c]))"
    using at_append[of pre c "w @ d # suf"] Cons(2) by (subst word_end.simps) (auto simp: wordch_def)
  then show ?case using Cons.IH[of "pre @ [c]"] Cons(2-) by simp
qed

lemma skip_ws_here: "at b i \<notin> set whitespace \<Longrightarrow> skip_ws b i = i"
  by (subst skip_ws.simps) simp

lemma skip_ws_space: "at b i = CHR '' '' \<Longrightarrow> skip_ws b i = skip_ws b (Suc i)"
  by (subst skip_ws.simps) (auto simp: at_def whitespace_def strchr_mem split: if_splits)

lemma toks_after:
  assumes "gettoken b i = (r, q, e, j)" "at b e = CHR '' ''"
  shows "toks b j = toks b (Suc e)"
proof -
  have "j = skip_ws b e" using assms(1) by (auto simp: gettoken_def Let_def case_prod_beta)
  then show ?thesis using skip_ws_space[OF assms(2)] toks_skip by simp
qed

lemma toks_token:
  assumes "token_ok t"
  shows "toks (pre @ text_of t @ '' '' @ suf) (length pre) =
    t # toks (pre @ text_of t @ '' '' @ suf) (length (pre @ text_of t @ '' ''))"
proof -
  let ?b = "pre @ text_of t @ '' '' @ suf" and ?i = "length pre"
  obtain r q e j where g: "gettoken ?b ?i = (r, q, e, j)" by (metis prod_cases4)
  obtain c cs where c: "text_of t = c # cs" using assms by (cases t; cases "text_of t") auto
  have a: "at ?b ?i = c" using c at_append[of pre c "cs @ '' '' @ suf"] by simp
  have w: "c \<notin> set whitespace" "c \<noteq> NUL" using assms c by (cases t; auto simp: whitespace_def wordch_def split: if_splits)+
  have q: "q = ?i" using gettoken_eq(1)[OF g] skip_ws_here[of ?b ?i] a w by simp
  have "e = length (pre @ text_of t) \<and> r = (case t of Sym k \<Rightarrow> k | Word _ \<Rightarrow> CHR ''a'')"
  proof (cases t)
    case (Sym k)
    have n: "at ?b (Suc ?i) = (if k = CHR ''+'' then CHR ''>'' else CHR '' '')"
      using Sym at_append[of "pre @ ''>''" "CHR ''>''" "'' '' @ suf"] at_append[of "pre @ [k]" "CHR '' ''" suf] by simp
    have "c = fst_char k" "k \<in> set ''|();&<>+''" using Sym c assms by (auto simp: fst_char_def split: if_splits)
    then have "r = k \<and> e = ?i + (if k = CHR ''+'' then 2 else 1)"
      using g n a q[unfolded gettoken_eq(1)[OF g]] by (auto simp: gettoken_def Let_def fst_char_def)
    then show ?thesis using Sym by simp
  next
    case (Word u)
    then have "c \<notin> set symbols" using assms c by (auto simp: wordch_def)
    then have "r = CHR ''a'' \<and> e = word_end ?b ?i" using gettoken_eq(5)[OF g] q a w by simp
    then show ?thesis using word_end_word[of u "CHR '' ''" pre suf] assms Word by (simp add: wordch_def whitespace_def)
  qed
  then have e: "e = length (pre @ text_of t)" and r: "r = (case t of Sym k \<Rightarrow> k | Word _ \<Rightarrow> CHR ''a'')" by auto
  have "at ?b e = CHR '' ''" using at_append[of "pre @ text_of t" "CHR '' ''" suf] e by simp
  then have "toks ?b j = toks ?b (length (pre @ text_of t @ '' ''))" using toks_after[OF g] e by simp
  moreover have "toks ?b ?i = t # toks ?b j"
    using toks_gettoken[OF g] r q e assms by (cases t) (auto simp: lexeme_def)
  ultimately show ?thesis by simp
qed

lemma toks_render: "\<forall>t \<in> set ts. token_ok t \<Longrightarrow> toks (pre @ render ts) (length pre) = ts"
proof (induction ts arbitrary: pre)
  case Nil
  have "at pre (skip_ws pre (length pre)) = NUL" using skip_ws_ge[of "length pre" pre] by (simp add: at_def)
  then show ?case by (simp add: render_def toks_Nil)
next
  case (Cons t ts)
  have "pre @ render (t # ts) = pre @ text_of t @ '' '' @ render ts" by (simp add: render_def)
  then show ?case using toks_token[of t pre "render ts"] Cons.IH[of "pre @ text_of t @ '' ''"] Cons.prems by simp
qed

lemma text_no_NUL: "token_ok t \<Longrightarrow> NUL \<notin> set (text_of t)"
  by (cases t) (auto simp: wordch_def)

lemma render_no_NUL: "\<forall>t \<in> set ts. token_ok t \<Longrightarrow> NUL \<notin> set (render ts)"
  using text_no_NUL by (auto simp: render_def)

section \<open>Properties\<close>

text \<open>C29: the parser of the shell returns on every line, with a command or with a message.\<close>

theorem parsecmd_returns: "\<exists>r. parsecmd b = Some r"
  using parse_returns(1)[of 0 b "parse_fuel b"]
  by (auto simp: parsecmd_def parse_fuel_def split: option.splits sum.splits prod.splits)

text \<open>C25: the parser accepts exactly the lines whose tokens the grammar derives with fewer than
  \<open>MAXARGS\<close> words in each simple command; the command it builds, read through its pointers into the
  line \<open>nulterminate\<close> has cut up, is the one derived.\<close>

theorem parsecmd_decides_grammar:
  assumes "NUL \<notin> set b"
  shows "(\<exists>p s. parsecmd b = Some (Inr (p, s)) \<and> strings s p = c) \<longleftrightarrow> gline (toks b 0) c \<and> few_args c"
  by (rule parsecmd_iff[OF assms])

theorem parsecmd_decides_grammar_witness:
  "\<exists>p s. parsecmd ''a '' = Some (Inr (p, s)) \<and> strings s p = EXEC [''a'']"
proof -
  have "toks ''a '' 0 = [Word ''a'']"
    using toks_render[of "[Word ''a'']" "[]"] by (simp add: render_def wordch_def whitespace_def symbols_def)
  moreover have "gline [Word ''a''] (EXEC [''a''])" using show_derived[of "EXEC [''a'']"] by (simp add: wordch_def whitespace_def symbols_def)
  ultimately show ?thesis using parsecmd_decides_grammar[of "''a ''" "EXEC [''a'']"] by simp
qed

text \<open>C28: a command printed with the parentheses it needs parses back to itself.\<close>

theorem parse_print:
  assumes "proper c" and "few_args c"
  shows "\<exists>p s. parsecmd (render (show_cmd 3 c)) = Some (Inr (p, s)) \<and> strings s p = c"
proof -
  have ok: "\<forall>t \<in> set (show_cmd 3 c). token_ok t" using show_ok[OF assms(1)] by blast
  have "toks (render (show_cmd 3 c)) 0 = show_cmd 3 c" using toks_render[OF ok, of "[]"] by simp
  then show ?thesis using parsecmd_iff[OF render_no_NUL[OF ok], of c] show_derived[OF assms(1)] assms(2) by simp
qed

theorem parse_print_witness:
  "\<exists>p s. parsecmd ''( a | b > f & ; c ) < g '' = Some (Inr (p, s)) \<and>
    strings s p = REDIR (LIST (BACK (PIPE (EXEC [''a'']) (REDIR (EXEC [''b'']) ''f'' 0x201 1))) (EXEC [''c''])) ''g'' 0 0"
  using parse_print[of "REDIR (LIST (BACK (PIPE (EXEC [''a'']) (REDIR (EXEC [''b'']) ''f'' 0x201 1))) (EXEC [''c''])) ''g'' 0 0"]
  by (simp add: render_def paren_def wordch_def whitespace_def symbols_def)

text \<open>C30: in every command the parser delivers, a simple command has fewer than \<open>MAXARGS\<close> words, and every
  pair of pointers delimits a longest run of word characters inside the line.\<close>

theorem parsecmd_well_formed:
  assumes "parsecmd b = Some (Inr (p, s))" and "NUL \<notin> set b"
  shows "few_args p \<and> (\<forall>x \<in> set_cmd p. word_at b x \<and> cstr s (fst x) = lexeme b x) \<and> length s = Suc (length b)"
proof -
  obtain i where i: "parseline (parse_fuel b) b 0 = Some (Inr (p, i))" "s = nulterminate p (b @ [NUL])"
    using assms(1) by (auto simp: parsecmd_def split: option.splits sum.splits prod.splits if_splits)
  then show ?thesis using parse_keeps(1)[OF assms(2) i(1)] nulterminate_strings by (simp add: words_def)
qed

theorem parsecmd_well_formed_witness:
  "few_args (REDIR (EXEC [(0, 3)]) (5, 6) 0 0) \<and> cstr (''cat'' @ [NUL] @ ''<f'' @ [NUL]) 5 = ''f''"
proof -
  have "parsecmd ''cat <f'' = Some (Inr (REDIR (EXEC [(0, 3)]) (5, 6) 0 0, ''cat'' @ [NUL] @ ''<f'' @ [NUL]))" by code_simp
  from parsecmd_well_formed[OF this] show ?thesis by (simp add: lexeme_def)
qed

text \<open>The operator \<open>>>\<close> builds the same command as \<open>>\<close>: nothing makes the output go to the end of the file.\<close>

lemma append_like_write: "redir CHR ''+'' c f = redir CHR ''>'' c f"
  by (simp add: redir_def)

end
