(* ===== verification/Sh_Run.thy ===== *)
theory Sh_Run
  imports Sh_Properties
begin

text \<open>
  How the shell runs a parsed command (\<open>runcmd\<close> of \<open>sh.c\<close>) and its main loop.  A process is a tree of the
  system calls it makes, with a branch for every result; \<open>exec\<close> has a branch only for its failure.  The
  descriptor table is as in the kernel: \<open>dup\<close>, \<open>open\<close> and \<open>pipe\<close> take the lowest free descriptors.
  Shown: every program is started with exactly the descriptors its place in the command asks for, and
  no process keeps an end of a pipe it does not use.
\<close>

section \<open>Running a command\<close>

datatype prog =
    Exit
  | Say string prog
  | Close int prog
  | Open string int "int \<Rightarrow> prog"
  | Dup int prog
  | MkPipe "(int \<times> int) option \<Rightarrow> prog"
  | Fork "int \<Rightarrow> prog"
  | Wait prog
  | Exec "string list" prog
  | Chdir string "int \<Rightarrow> prog"

definition sh_panic :: "string \<Rightarrow> prog" where
  "sh_panic s = Say (s @ [NL]) Exit"

definition fork1 :: "(int \<Rightarrow> prog) \<Rightarrow> prog" where
  "fork1 k = Fork (\<lambda>pid. if pid = -1 then sh_panic ''fork'' else k pid)"

primrec runcmd :: "string cmd \<Rightarrow> prog" where
  "runcmd (EXEC as) = (case as of [] \<Rightarrow> Exit | a # _ \<Rightarrow> Exec as (Say (''exec '' @ a @ '' failed'' @ [NL]) Exit))"
| "runcmd (REDIR c f m fd) =
    Close fd (Open f m (\<lambda>r. if r < 0 then Say (''open '' @ f @ '' failed'' @ [NL]) Exit else runcmd c))"
| "runcmd (LIST l r) = fork1 (\<lambda>pid. if pid = 0 then runcmd l else Wait (runcmd r))"
| "runcmd (PIPE l r) = MkPipe (\<lambda>p. case p of
     None \<Rightarrow> sh_panic ''pipe''
   | Some (p0, p1) \<Rightarrow>
      fork1 (\<lambda>pid. if pid = 0 then Close 1 (Dup p1 (Close p0 (Close p1 (runcmd l))))
        else fork1 (\<lambda>pid. if pid = 0 then Close 0 (Dup p0 (Close p0 (Close p1 (runcmd r))))
          else Close p0 (Close p1 (Wait (Wait Exit))))))"
| "runcmd (BACK c) = fork1 (\<lambda>pid. if pid = 0 then runcmd c else Exit)"

text \<open>\<open>runcmd(parsecmd(buf))\<close> in the child; \<open>parsecmd\<close> always returns.\<close>

definition runline :: "string \<Rightarrow> prog" where
  "runline buf = (case parsecmd buf of
     Some (Inr (c, s)) \<Rightarrow> runcmd (strings s c)
   | Some (Inl e) \<Rightarrow> Say e Exit
   | None \<Rightarrow> Exit)"

text \<open>The loop of \<open>main\<close> over the lines that \<open>gets\<close> delivers; an empty one is the end of the input.\<close>

fun sh_loop :: "string list \<Rightarrow> prog" where
  "sh_loop [] = Say ''$ '' Exit"
| "sh_loop (buf # ls) = Say ''$ ''
    (if buf = [] then Exit
     else if take 3 buf = ''cd '' then
       Chdir (drop 3 (butlast buf)) (\<lambda>r.
         if r < 0 then Say (''cannot cd '' @ drop 3 (butlast buf) @ [NL]) (sh_loop ls) else sh_loop ls)
     else fork1 (\<lambda>pid.
       if pid = 0 then runline buf
       else Wait (sh_loop ls)))"

section \<open>Descriptors\<close>

datatype ofile = Std nat | Named string int | Rend nat | Wend nat

type_synonym fdt = "int \<rightharpoonup> ofile"

definition lowest :: "fdt \<Rightarrow> int \<Rightarrow> bool" where
  "lowest T d \<longleftrightarrow> 0 \<le> d \<and> d < int NOFILE \<and> T d = None \<and> (\<forall>e. 0 \<le> e \<and> e < d \<longrightarrow> T e \<noteq> None)"

datatype event = Started "string list" | Waits

text \<open>\<open>reaches T p e U\<close>: of the processes that come from one that runs \<open>p\<close> with the descriptors \<open>T\<close>, one can
  reach the event \<open>e\<close> with the descriptors \<open>U\<close>.\<close>

inductive reaches :: "fdt \<Rightarrow> prog \<Rightarrow> event \<Rightarrow> fdt \<Rightarrow> bool" where
  "reaches T (Exec as k) (Started as) T"
| "reaches T k e U \<Longrightarrow> reaches T (Exec as k) e U"
| "reaches T (Wait k) Waits T"
| "reaches T k e U \<Longrightarrow> reaches T (Wait k) e U"
| "reaches T k e U \<Longrightarrow> reaches T (Say s k) e U"
| "reaches (T(d := None)) k e U \<Longrightarrow> reaches T (Close d k) e U"
| "lowest T d \<Longrightarrow> reaches (T(d \<mapsto> Named f m)) (k d) e U \<Longrightarrow> reaches T (Open f m k) e U"
| "reaches T (k (-1)) e U \<Longrightarrow> reaches T (Open f m k) e U"
| "T d = Some f \<Longrightarrow> lowest T d' \<Longrightarrow> reaches (T(d' \<mapsto> f)) k e U \<Longrightarrow> reaches T (Dup d k) e U"
| "lowest T d \<Longrightarrow> lowest (T(d \<mapsto> Rend i)) d' \<Longrightarrow> reaches (T(d \<mapsto> Rend i, d' \<mapsto> Wend i)) (k (Some (d, d'))) e U \<Longrightarrow>
   reaches T (MkPipe k) e U"
| "reaches T (k None) e U \<Longrightarrow> reaches T (MkPipe k) e U"
| "reaches T (k 0) e U \<Longrightarrow> reaches T (Fork k) e U"
| "0 < pid \<Longrightarrow> reaches T (k pid) e U \<Longrightarrow> reaches T (Fork k) e U"
| "reaches T (k (-1)) e U \<Longrightarrow> reaches T (Fork k) e U"
| "r \<in> {0, -1} \<Longrightarrow> reaches T (k r) e U \<Longrightarrow> reaches T (Chdir s k) e U"

inductive_simps reaches_simps [simp]:
  "reaches T Exit e U" "reaches T (Exec as k) e U" "reaches T (Wait k) e U" "reaches T (Say s k) e U"
  "reaches T (Close d k) e U" "reaches T (Fork k) e U"

inductive_simps reaches_alloc:
  "reaches T (Open f m k) e U" "reaches T (Dup d k) e U" "reaches T (MkPipe k) e U" "reaches T (Chdir s k) e U"

text \<open>Where input and output of the programs of a command come from and go to.\<close>

inductive wired :: "string cmd \<Rightarrow> ofile \<Rightarrow> ofile \<Rightarrow> string list \<Rightarrow> ofile \<Rightarrow> ofile \<Rightarrow> bool" where
  "as \<noteq> [] \<Longrightarrow> wired (EXEC as) i u as i u"
| "wired c (Named f m) u as i' u' \<Longrightarrow> wired (REDIR c f m 0) i u as i' u'"
| "wired c i (Named f m) as i' u' \<Longrightarrow> wired (REDIR c f m 1) i u as i' u'"
| "wired l i u as i' u' \<Longrightarrow> wired (LIST l r) i u as i' u'"
| "wired r i u as i' u' \<Longrightarrow> wired (LIST l r) i u as i' u'"
| "wired l i (Wend k) as i' u' \<Longrightarrow> wired (PIPE l r) i u as i' u'"
| "wired r (Rend k) u as i' u' \<Longrightarrow> wired (PIPE l r) i u as i' u'"
| "wired c i u as i' u' \<Longrightarrow> wired (BACK c) i u as i' u'"

section \<open>What is started\<close>

text \<open>A table with input, output and diagnostics.\<close>

definition std :: "ofile \<Rightarrow> ofile \<Rightarrow> ofile \<Rightarrow> fdt" where
  "std i u x = [0 \<mapsto> i, 1 \<mapsto> u, 2 \<mapsto> x]"

lemma lowest_unique: "lowest T d \<Longrightarrow> lowest T d' \<longleftrightarrow> d' = d"
  unfolding lowest_def by (metis linorder_less_linear)

lemma below3: "0 \<le> e \<Longrightarrow> e < (3 :: int) \<Longrightarrow> e = 0 \<or> e = 1 \<or> e = 2"
  by auto

lemma below4: "0 \<le> e \<Longrightarrow> e < (4 :: int) \<Longrightarrow> e = 0 \<or> e = 1 \<or> e = 2 \<or> e = 3"
  by auto

lemma lowest_std:
  "lowest (std i u x) 3" "lowest ((std i u x)(3 \<mapsto> a)) 4"
  "lowest ((std i u x)(0 := None)) 0" "lowest ((std i u x)(1 := None)) 1"
  "lowest ((std i u x)(3 \<mapsto> a, 4 \<mapsto> b, 0 := None)) 0" "lowest ((std i u x)(3 \<mapsto> a, 4 \<mapsto> b, 1 := None)) 1"
  using below3 below4 by (auto simp: lowest_def std_def NOFILE_def)

text \<open>The calls that allocate, where the lowest free descriptors are known.\<close>

lemma reaches_Open: "lowest T d \<Longrightarrow> reaches T (Open f m k) e U \<longleftrightarrow> reaches (T(d \<mapsto> Named f m)) (k d) e U \<or> reaches T (k (-1)) e U"
  by (simp add: reaches_alloc lowest_unique)

lemma reaches_Dup: "lowest T d' \<Longrightarrow> T d = Some f \<Longrightarrow> reaches T (Dup d k) e U \<longleftrightarrow> reaches (T(d' \<mapsto> f)) k e U"
  by (simp add: reaches_alloc lowest_unique)

lemma reaches_MkPipe:
  assumes "lowest T d" and "\<And>i. lowest (T(d \<mapsto> Rend i)) d'"
  shows "reaches T (MkPipe k) e U \<longleftrightarrow> (\<exists>i. reaches (T(d \<mapsto> Rend i, d' \<mapsto> Wend i)) (k (Some (d, d'))) e U) \<or> reaches T (k None) e U"
  using assms lowest_unique[OF assms(2)] by (simp add: reaches_alloc lowest_unique)

lemmas reaches_at [simp] = reaches_Open[OF lowest_std(3)] reaches_Open[OF lowest_std(4)]
  reaches_Dup[OF lowest_std(5)] reaches_Dup[OF lowest_std(6)] reaches_MkPipe[OF lowest_std(1,2)]

lemma std_upd [simp]:
  "(std i u x)(0 \<mapsto> a) = std a u x" "(std i u x)(1 \<mapsto> a) = std i a x" "(std i u x)(3 := None) = std i u x"
  "(std i u x)(4 := None) = std i u x"
  by (auto simp: std_def fun_eq_iff)

inductive_simps wired_simps [simp]:
  "wired (EXEC as) i u bs i' u'" "wired (REDIR c f m fd) i u as i' u'" "wired (LIST l r) i u as i' u'"
  "wired (PIPE l r) i u as i' u'" "wired (BACK c) i u as i' u'"

lemma std_get [simp]: "std i u x 3 = None" "std i u x 0 = Some i" "std i u x 1 = Some u"
  by (simp_all add: std_def)

lemma std_inject [simp]: "std i u x = std i' u' x' \<longleftrightarrow> i = i' \<and> u = u' \<and> x = x'"
proof
  assume e: "std i u x = std i' u' x'"
  show "i = i' \<and> u = u' \<and> x = x'" using fun_cong[OF e, of 0] fun_cong[OF e, of 1] fun_cong[OF e, of 2] by (simp add: std_def)
qed simp

lemma reaches_fork1 [simp]:
  "reaches T (fork1 (\<lambda>pid. if pid = 0 then p else q)) e U \<longleftrightarrow> reaches T p e U \<or> reaches T q e U"
proof
  assume "reaches T p e U \<or> reaches T q e U"
  then show "reaches T (fork1 (\<lambda>pid. if pid = 0 then p else q)) e U" unfolding fork1_def
    by (elim disjE) (rule reaches.intros(12), simp, rule reaches.intros(13)[of 1], simp_all)
qed (auto simp: fork1_def sh_panic_def split: if_splits)

lemma reaches_runcmd:
  "proper c \<Longrightarrow> reaches (std i u x) (runcmd c) (Started as) U \<longleftrightarrow> (\<exists>i' u'. wired c i u as i' u' \<and> U = std i' u' x)"
proof (induction c arbitrary: i u)
  case (EXEC bs)
  then show ?case by (auto split: list.splits)
next
  case (REDIR c f m fd)
  then show ?case by auto
next
  case (PIPE l r)
  then show ?case by (auto simp: sh_panic_def)
next
  case (LIST l r)
  then show ?case by auto
next
  case (BACK c)
  then show ?case by auto
qed

lemma reaches_std: "proper c \<Longrightarrow> reaches (std i u x) (runcmd c) e U \<Longrightarrow> \<exists>i' u'. U = std i' u' x"
proof (induction c arbitrary: i u)
  case (EXEC bs)
  then show ?case by (auto split: list.splits)
next
  case (REDIR c f m fd)
  then show ?case by auto
next
  case (PIPE l r)
  then show ?case by (auto simp: sh_panic_def)
qed auto

section \<open>Proper commands\<close>

lemma proper_set_arg: "proper c \<Longrightarrow> token_ok (Word w) \<Longrightarrow> proper (set_arg w c)"
  by (induction w c rule: set_arg.induct) auto

lemma proper_redirs: "redirs ts c c' \<Longrightarrow> \<forall>t \<in> set ts. token_ok t \<Longrightarrow> proper c \<Longrightarrow> proper c'"
  by (induction rule: redirs.induct) (auto simp: redir_def)

lemma proper_simple: "simple ts c c' \<Longrightarrow> \<forall>t \<in> set ts. token_ok t \<Longrightarrow> proper c \<Longrightarrow> proper c'"
proof (induction rule: simple.induct)
  case (simple_Word rs w c c1 ts c')
  then show ?case using proper_set_arg[of c w] proper_redirs[OF simple_Word(1)] by simp
qed

lemma proper_backs: "proper c \<Longrightarrow> proper ((BACK ^^ n) c)"
  by (induction n) auto

lemma proper_derived:
  "gline ts c \<Longrightarrow> \<forall>t \<in> set ts. token_ok t \<Longrightarrow> proper c"
  "gpipe ts d \<Longrightarrow> \<forall>t \<in> set ts. token_ok t \<Longrightarrow> proper d"
  "gexec ts e \<Longrightarrow> \<forall>t \<in> set ts. token_ok t \<Longrightarrow> proper e"
proof (induction rule: gline_gpipe_gexec.inducts)
  case (gexec_simple rs c ts c')
  then show ?case using proper_redirs[OF gexec_simple(1)] proper_simple[OF gexec_simple(2)] by simp
next
  case (gexec_block ts c rs c')
  then show ?case using proper_redirs[OF gexec_block(2)] by simp
qed (auto simp: proper_backs)

lemma toks_ok: "NUL \<notin> set b \<Longrightarrow> \<forall>t \<in> set (toks b i). token_ok t"
proof (induction b i rule: toks.induct)
  case (1 b i)
  obtain r q e j where g: "gettoken b i = (r, q, e, j)" by (metis prod_cases4)
  show ?case
  proof (cases "r = NUL")
    case False
    have "token_ok (if r = CHR ''a'' then Word (lexeme b (q, e)) else Sym r)"
      using g
    proof (cases rule: gettoken_kinds)
      case word
      have "word_at b (q, e)" using gettoken_word g word(1) 1(2) by simp
      then have "lexeme b (q, e) \<noteq> [] \<and> (\<forall>c \<in> set (lexeme b (q, e)). wordch c)"
        by (auto simp: word_at_def lexeme_def in_set_conv_nth)
      then show ?thesis using word(1) by simp
    qed (use False in auto)
    then show ?thesis using 1(1)[OF g[symmetric] refl refl False 1(2)] toks_gettoken[OF g] False by auto
  qed (simp add: toks_gettoken[OF g])
qed

section \<open>Properties\<close>

text \<open>C26: a program is started for a command exactly when the command contains it, and then with the input
  and output its place asks for: those of the shell, the file of a redirection, the end of a pipe,
  and with no other descriptor beside its diagnostics.\<close>

theorem runcmd_wires:
  assumes "proper c"
  shows "reaches (std i u x) (runcmd c) (Started as) U \<longleftrightarrow> (\<exists>i' u'. wired c i u as i' u' \<and> U = std i' u' x)"
  by (rule reaches_runcmd[OF assms])

theorem runcmd_wires_witness:
  "reaches (std (Std 0) (Std 1) (Std 2)) (runcmd (PIPE (EXEC [''ls'']) (REDIR (EXEC [''wc'']) ''f'' 0x201 1))) (Started [''wc''])
    (std (Rend 7) (Named ''f'' 0x201) (Std 2))"
  using runcmd_wires[of "PIPE (EXEC [''ls'']) (REDIR (EXEC [''wc'']) ''f'' 0x201 1)" "Std 0" "Std 1" "Std 2" "[''wc'']"
      "std (Rend 7) (Named ''f'' 0x201) (Std 2)"]
  by (simp add: wordch_def whitespace_def symbols_def)

text \<open>a process of the shell that waits for its children has the descriptors 0, 1 and 2 only, so it
  holds no end of a pipe open that its children read from or write to.\<close>

theorem waiting_holds_no_pipe:
  assumes "proper c" and "reaches (std i u x) (runcmd c) e U"
  shows "dom U = {0, 1, 2} \<and> U 2 = Some x"
proof -
  obtain i' u' where "U = std i' u' x" using reaches_std[OF assms] by auto
  then show ?thesis by (auto simp: std_def split: if_splits)
qed

theorem waiting_holds_no_pipe_witness:
  "dom (std (Std 0) (Std 1) (Std 2)) = {0, 1, 2}"
proof -
  have "reaches (std (Std 0) (Std 1) (Std 2)) (runcmd (PIPE (EXEC [''a'']) (EXEC [''b'']))) Waits (std (Std 0) (Std 1) (Std 2))"
    by simp
  from waiting_holds_no_pipe[OF _ this] show ?thesis by (simp add: wordch_def whitespace_def symbols_def)
qed

text \<open>The lines the shell gets to see, and those it passes to a child.\<close>

definition seen :: "string list \<Rightarrow> string list" where
  "seen ls = filter (\<lambda>l. take 3 l \<noteq> ''cd '') (takeWhile (\<lambda>l. l \<noteq> []) ls)"

lemma reaches_Chdir: "reaches T (Chdir s (\<lambda>r. if r < 0 then Say m p else p)) e U \<longleftrightarrow> reaches T p e U"
  by (auto simp: reaches_alloc)

lemma seen_Cons: "seen (l # ls) = (if l = [] then [] else if take 3 l = ''cd '' then seen ls else l # seen ls)"
  by (simp add: seen_def)

lemma reaches_runline:
  assumes l: "NUL \<notin> set l"
  shows "reaches (std i u x) (runline l) (Started as) U \<longleftrightarrow>
      (\<exists>c i' u'. gline (toks l 0) c \<and> few_args c \<and> wired c i u as i' u' \<and> U = std i' u' x)"
proof (cases "\<exists>p s. parsecmd l = Some (Inr (p, s))")
  case True
  then obtain p s where p: "parsecmd l = Some (Inr (p, s))" by auto
  have g: "gline (toks l 0) c \<and> few_args c \<longleftrightarrow> c = strings s p" for c using parsecmd_iff[OF l, of c] p by auto
  then have "proper (strings s p)" using proper_derived(1) toks_ok[OF l] by blast
  from reaches_runcmd[OF this] have "reaches (std i u x) (runline l) (Started as) U \<longleftrightarrow>
      (\<exists>i' u'. wired (strings s p) i u as i' u' \<and> U = std i' u' x)" using p by (simp add: runline_def)
  also have "\<dots> \<longleftrightarrow> (\<exists>c i' u'. gline (toks l 0) c \<and> few_args c \<and> wired c i u as i' u' \<and> U = std i' u' x)"
  proof
    assume "\<exists>i' u'. wired (strings s p) i u as i' u' \<and> U = std i' u' x"
    then show "\<exists>c i' u'. gline (toks l 0) c \<and> few_args c \<and> wired c i u as i' u' \<and> U = std i' u' x"
      using g[of "strings s p"] by (intro exI[of _ "strings s p"]) simp
  next
    assume "\<exists>c i' u'. gline (toks l 0) c \<and> few_args c \<and> wired c i u as i' u' \<and> U = std i' u' x"
    then obtain c where c: "gline (toks l 0) c \<and> few_args c" "\<exists>i' u'. wired c i u as i' u' \<and> U = std i' u' x" by auto
    show "\<exists>i' u'. wired (strings s p) i u as i' u' \<and> U = std i' u' x" using c(2) c(1)[unfolded g] by simp
  qed
  finally show ?thesis .
next
  case False
  then have "\<not> (\<exists>c. gline (toks l 0) c \<and> few_args c)" using parsecmd_iff[OF l] by blast
  then show ?thesis using False by (auto simp: runline_def split: option.splits sum.splits)
qed

text \<open>C27: the shell starts exactly the programs of the commands on the lines it is given, up to the end of
  the input, each with its descriptors; a line that the grammar does not derive starts nothing and
  does not end the shell.\<close>

theorem shell_starts:
  assumes "\<forall>l \<in> set ls. NUL \<notin> set l"
  shows "reaches (std i u x) (sh_loop ls) (Started as) U \<longleftrightarrow>
    (\<exists>l \<in> set (seen ls). \<exists>c i' u'. gline (toks l 0) c \<and> few_args c \<and> wired c i u as i' u' \<and> U = std i' u' x)"
  using assms
proof (induction ls)
  case Nil
  then show ?case by (simp add: seen_def)
next
  case (Cons l ls)
  have l: "NUL \<notin> set l" using Cons.prems by simp
  have tail: "\<forall>l \<in> set ls. NUL \<notin> set l" using Cons.prems by simp
  note IH = Cons.IH[OF tail]
  show ?case
  proof (cases "l = []")
    case False
    then show ?thesis
    proof (cases "take 3 l = ''cd ''")
      case True
      then show ?thesis using False IH by (simp add: reaches_Chdir seen_Cons)
    next
      case cmd: False
      then show ?thesis using False IH reaches_runline[OF l] by (simp add: seen_Cons)
    qed
  qed (simp add: seen_Cons)
qed

theorem shell_starts_witness:
  "reaches (std (Std 0) (Std 1) (Std 2)) (sh_loop [''cd / '', ''a '']) (Started [''a'']) (std (Std 0) (Std 1) (Std 2))"
proof -
  have "toks ''a '' 0 = [Word ''a'']"
    using toks_render[of "[Word ''a'']" "[]"] by (simp add: render_def wordch_def whitespace_def symbols_def)
  moreover have "gline [Word ''a''] (EXEC [''a''])" using show_derived[of "EXEC [''a'']"] by (simp add: wordch_def whitespace_def symbols_def)
  ultimately have "gline (toks ''a '' 0) (EXEC [''a'']) \<and> few_args (EXEC [''a''])" by simp
  then show ?thesis using shell_starts[of "[''cd / '', ''a '']" "Std 0" "Std 1" "Std 2" "[''a'']" "std (Std 0) (Std 1) (Std 2)"]
    by (auto simp: seen_Cons)
qed

end
