(* ===== verification/Ulib.thy ===== *)
theory Ulib
  imports Cprintf
begin

text \<open>
  The C library of the user programs (\<open>ulib.c\<close>, \<open>printf.c\<close>).  Strings that are only read are the
  lists of their bytes before the NUL; routines that write work on byte memory.
\<close>

section \<open>ulib.c\<close>

text \<open>\<open>strcpy\<close>: \<open>None\<close> when no NUL is met within \<open>n\<close> bytes; with \<open>n = 2 ^ 32\<close> the loop does not end.\<close>

fun strcpy_loop :: "nat \<Rightarrow> mem \<Rightarrow> u32 \<Rightarrow> u32 \<Rightarrow> mem option" where
  "strcpy_loop 0 m s t = None"
| "strcpy_loop (Suc n) m s t = (let m' = m(s := m t) in if m t \<noteq> 0 then strcpy_loop n m' (s + 1) (t + 1) else Some m')"

fun strcmp :: "u8 list \<Rightarrow> u8 list \<Rightarrow> int" where
  "strcmp (p # ps) (q # qs) = (if p = q then strcmp ps qs else uint p - uint q)"
| "strcmp (p # ps) [] = uint p"
| "strcmp [] (q # qs) = - uint q"
| "strcmp [] [] = 0"

definition umemset :: "mem \<Rightarrow> u32 \<Rightarrow> u32 \<Rightarrow> u32 \<Rightarrow> mem" where
  "umemset m dst c n = stosb (unat n) m dst (ucast c)"

definition umemmove :: "mem \<Rightarrow> u32 \<Rightarrow> u32 \<Rightarrow> int \<Rightarrow> mem" where
  "umemmove m vdst vsrc n = copy_up (nat n) m vdst vsrc"

text \<open>\<open>gets\<close>: what it stores before the NUL, given the bytes \<open>read(0, &c, 1)\<close> delivers one by one, and
  the bytes not read.\<close>

fun gets_loop :: "int \<Rightarrow> int \<Rightarrow> u8 list \<Rightarrow> u8 list \<times> u8 list" where
  "gets_loop i lim [] = ([], [])"
| "gets_loop i lim (c # cs) =
     (if i + 1 < lim then
        if c = ascii CHR 0x0A \<or> c = ascii CHR 0x0D then ([c], cs)
        else (let (bs, r) = gets_loop (i + 1) lim cs in (c # bs, r))
      else ([], c # cs))"

text \<open>\<open>None\<close> when the \<open>int\<close> sum \<open>n * 10 + *s\<close> overflows.\<close>

fun atoi_loop :: "int \<Rightarrow> u8 list \<Rightarrow> int option" where
  "atoi_loop n [] = Some n"
| "atoi_loop n (c # s) =
     (if ascii CHR ''0'' \<le> c \<and> c \<le> ascii CHR ''9'' then
        if n * 10 + uint c < 2 ^ 31 then atoi_loop (n * 10 + uint c - 48) s else None
      else Some n)"

definition atoi :: "u8 list \<Rightarrow> int option" where
  "atoi s = atoi_loop 0 s"

section \<open>printf.c\<close>

definition udigit :: "u32 \<Rightarrow> u8" where
  "udigit d = str ''0123456789ABCDEF'' ! unat d"

text \<open>The bytes \<open>printint\<close> writes one by one with \<open>putc\<close>; \<open>None\<close> when \<open>buf\<close> would overflow.
  The negation of the least \<open>int\<close> wraps, as it does on the machine.\<close>

definition uprintint :: "u32 \<Rightarrow> u32 \<Rightarrow> bool \<Rightarrow> u8 list option" where
  "uprintint xx base sg =
     (let neg = sg \<and> xx <s 0; x = (if neg then - xx else xx)
      in map_option (\<lambda>ds. (if neg then [ascii CHR ''-''] else []) @ rev (map udigit ds))
           (digits_loop (if neg then 15 else 16) x base))"

text \<open>The loop of \<open>printf\<close>: \<open>pct\<close> says that \<open>state\<close> is \<open>'%'\<close>.  An argument that is not there, or
  is a number used as a string, has no defined meaning.\<close>

fun printf_loop :: "bool \<Rightarrow> u8 list \<Rightarrow> karg list \<Rightarrow> u8 list option" where
  "printf_loop pct [] args = Some []"
| "printf_loop False (c # fmt) args =
     (if c = ascii CHR ''%'' then printf_loop True fmt args
      else map_option (\<lambda>bs. c # bs) (printf_loop False fmt args))"
| "printf_loop True (c # fmt) args =
     (if c = ascii CHR ''d'' then (case args of
          Num n # ap \<Rightarrow> (case (uprintint n 10 True, printf_loop False fmt ap) of (Some a, Some b) \<Rightarrow> Some (a @ b) | _ \<Rightarrow> None) | _ \<Rightarrow> None)
      else if c = ascii CHR ''x'' \<or> c = ascii CHR ''p'' then (case args of
          Num n # ap \<Rightarrow> (case (uprintint n 16 False, printf_loop False fmt ap) of (Some a, Some b) \<Rightarrow> Some (a @ b) | _ \<Rightarrow> None) | _ \<Rightarrow> None)
      else if c = ascii CHR ''s'' then (case args of
          Str (Some s) # ap \<Rightarrow> map_option (\<lambda>bs. s @ bs) (printf_loop False fmt ap)
        | Str None # ap \<Rightarrow> map_option (\<lambda>bs. str ''(null)'' @ bs) (printf_loop False fmt ap)
        | _ \<Rightarrow> None)
      else if c = ascii CHR ''c'' then (case args of
          Num n # ap \<Rightarrow> map_option (\<lambda>bs. ucast n # bs) (printf_loop False fmt ap) | _ \<Rightarrow> None)
      else if c = ascii CHR ''%'' then map_option (\<lambda>bs. c # bs) (printf_loop False fmt args)
      else map_option (\<lambda>bs. ascii CHR ''%'' # c # bs) (printf_loop False fmt args))"

text \<open>What \<open>printf(fd, fmt, ...)\<close> writes to \<open>fd\<close>.\<close>

definition printf :: "u8 list \<Rightarrow> karg list \<Rightarrow> u8 list option" where
  "printf fmt args = printf_loop False fmt args"

section \<open>Comparing strings\<close>

text \<open>\<open>strcmp\<close> is 0 exactly on equal strings, and its sign is the lexicographic order of the
  strings as unsigned bytes.\<close>

theorem strcmp_orders:
  assumes "0 \<notin> set p" and "0 \<notin> set q"
  shows "(strcmp p q = 0 \<longleftrightarrow> p = q) \<and> (strcmp p q < 0 \<longleftrightarrow> (p, q) \<in> lexord {(a, b). a < b})"
  using assms
proof (induction p q rule: strcmp.induct)
  case (1 p ps q qs)
  then show ?case by (auto simp: word_less_def word_uint_eq_iff)
next
  case (2 p ps)
  then have "0 < uint p" using uint_0_iff[of p] uint_ge_0[of p] by (auto simp: less_le simp del: uint_ge_0)
  then show ?case by simp
next
  case (3 q qs)
  then have "0 < uint q" using uint_0_iff[of q] uint_ge_0[of q] by (auto simp: less_le simp del: uint_ge_0)
  then show ?case by simp
qed simp

theorem strcmp_orders_witness:
  "strcmp [1, 200] [1, 100, 7] \<noteq> 0 \<and> \<not> ([1, 200], [1, 100, 7 :: u8]) \<in> lexord {(a, b). a < b}"
  using strcmp_orders[of "[1, 200]" "[1, 100, 7]"] by simp

section \<open>Numbers\<close>

lemma udigit_table:
  "\<forall>k \<in> set [0..<10]. uint (udigit (of_nat k)) = 48 + int k \<and> ascii CHR ''0'' \<le> udigit (of_nat k) \<and> udigit (of_nat k) \<le> ascii CHR ''9''"
  by code_simp

lemma udigit_ascii:
  assumes "d < (10 :: u32)"
  shows "uint (udigit d) = 48 + int (unat d)" "ascii CHR ''0'' \<le> udigit d" "udigit d \<le> ascii CHR ''9''"
proof -
  have "unat d < 10" using assms by (simp add: word_less_nat_alt)
  then have "unat d \<in> set [0..<10]" by simp
  from udigit_table[rule_format, OF this]
  show "uint (udigit d) = 48 + int (unat d)" "ascii CHR ''0'' \<le> udigit d" "udigit d \<le> ascii CHR ''9''" by simp_all
qed

lemma value_mono: "n \<le> foldl (\<lambda>a d. 10 * a + unat d) n ds"
proof (induction ds arbitrary: n)
  case (Cons d ds)
  have "n \<le> 10 * n + unat d" by simp
  also have "\<dots> \<le> foldl (\<lambda>a d. 10 * a + unat d) (10 * n + unat d) ds" by (rule Cons.IH)
  finally show ?case by simp
qed simp

lemma atoi_digits:
  assumes "\<forall>d \<in> set ds. d < (10 :: u32)" and "n \<le> 2147483599"
  shows "atoi_loop (int n) (map udigit ds) =
    (let v = foldl (\<lambda>a d. 10 * a + unat d) n ds in if v \<le> 2147483599 then Some (int v) else None)"
  using assms
proof (induction ds arbitrary: n)
  case (Cons d ds)
  let ?m = "10 * n + unat d"
  have "d < 10" using Cons.prems(1) by simp
  note u = udigit_ascii[OF this]
  have e: "int n * 10 + uint (udigit d) = int ?m + 48" unfolding u(1) by simp
  have p: "(2 :: int) ^ 31 = 2147483648" by simp
  have st: "atoi_loop (int n) (map udigit (d # ds)) =
      (if int ?m + 48 < 2 ^ 31 then atoi_loop (int ?m) (map udigit ds) else None)"
    by (simp only: list.map atoi_loop.simps e u(2,3) simp_thms if_True add_diff_cancel_right')
  show ?case
  proof (cases "?m \<le> 2147483599")
    case True
    then have "int ?m + 48 < 2 ^ 31" unfolding p by linarith
    then show ?thesis using st Cons.IH[OF _ True] Cons.prems(1) by simp
  next
    case False
    then have "\<not> int ?m + 48 < 2 ^ 31" unfolding p by linarith
    then show ?thesis using st False value_mono[of ?m ds] by (simp add: Let_def)
  qed
qed simp

lemma printed_digits:
  assumes "15 \<le> k"
  obtains ds where "digits_loop k n 10 = Some ds" "\<forall>d \<in> set ds. d < 10" "foldl (\<lambda>a d. 10 * a + unat d) 0 (rev ds) = unat n"
proof -
  have "unat n < 10 ^ 15" using unat_lt32(1)[of n] by simp
  also have "(10 :: nat) ^ 15 \<le> 10 ^ k" using assms by (intro power_increasing) simp_all
  finally have "unat n < unat (10 :: u32) ^ k" by simp
  then obtain ds where ds: "digits_loop k n 10 = Some ds" "foldr (\<lambda>d a. unat d + 10 * a) ds 0 = unat n" "\<forall>d \<in> set ds. d < 10"
    using digits_loop_value[of 10 k n] assms by auto
  then show ?thesis using that[of ds] by (simp add: foldr_conv_foldl add.commute)
qed

text \<open>C39: \<open>atoi\<close> on what \<open>printf("%d")\<close> writes, for every number: it reads a number from 0 to
  2147483599 back as that number and stops at the minus sign of a negative one, with result 0;
  for the 48 largest numbers its sum \<open>n * 10 + *s\<close> overflows an \<open>int\<close> before the subtraction.\<close>

theorem atoi_reads_printf:
  "\<exists>bs. printf (str ''%d'') [Num n] = Some bs \<and>
     atoi bs = (if sint n < 0 then Some 0 else if sint n \<le> 2147483599 then Some (sint n) else None)"
proof (cases "n <s 0")
  case True
  obtain ds where ds: "digits_loop 15 (- n) 10 = Some ds" using printed_digits[of 15 "- n"] by auto
  have "printf (str ''%d'') [Num n] = Some (ascii CHR ''-'' # map udigit (rev ds))"
    using ds True by (simp add: printf_def str_def ascii_def uprintint_def rev_map)
  moreover have "atoi (ascii CHR ''-'' # b) = Some 0" for b by (simp add: atoi_def ascii_def)
  ultimately show ?thesis using True by (simp add: word_sless_alt)
next
  case False
  then have s: "sint n = int (unat n)" using uint_lt2p[of n] by (simp add: word_sless_alt sint32 split: if_splits)
  obtain ds where ds: "digits_loop 16 n 10 = Some ds" "\<forall>d \<in> set ds. d < 10" "foldl (\<lambda>a d. 10 * a + unat d) 0 (rev ds) = unat n"
    using printed_digits[of 16 n] by auto
  have "printf (str ''%d'') [Num n] = Some (map udigit (rev ds))"
    using ds(1) False by (simp add: printf_def str_def ascii_def uprintint_def rev_map)
  moreover have "atoi (map udigit (rev ds)) = (if unat n \<le> 2147483599 then Some (int (unat n)) else None)"
    using atoi_digits[of "rev ds" 0] ds(2,3) by (simp add: atoi_def Let_def)
  moreover have "int (unat n) \<le> 2147483599 \<longleftrightarrow> unat n \<le> 2147483599" "\<not> int (unat n) < 0" by linarith+
  ultimately show ?thesis unfolding s by (simp only: if_False) blast
qed

section \<open>Moving memory\<close>

text \<open>the \<open>memmove\<close> of the user library copies upwards; it agrees with the \<open>memmove\<close> of the kernel
  unless the destination starts inside the source.\<close>

theorem umemmove_like_kernel:
  assumes "0 \<le> sint n" and "\<not> (src < dst \<and> dst < src + n)"
  shows "umemmove m dst src (sint n) = memmove m dst src n"
proof -
  have "sint n = int (unat n)" using assms(1) uint_lt2p[of n] by (simp add: sint32 split: if_splits)
  then have "nat (sint n) = unat n" by (simp only: nat_int)
  then show ?thesis using assms(2) by (auto simp: umemmove_def memmove_def)
qed

theorem umemmove_like_kernel_witness: "umemmove (\<lambda>a. ucast a) 0x1000 0x1002 6 = memmove (\<lambda>a. ucast a) 0x1000 0x1002 6"
  using umemmove_like_kernel[of 6 "0x1002" "0x1000" "\<lambda>a. ucast a"] by (simp add: sint32)

text \<open>Otherwise it repeats the first bytes of the source.\<close>

lemma umemmove_overlap: "umemmove (\<lambda>a. ucast a) 0x1001 0x1000 3 0x1003 = 0 \<and> memmove (\<lambda>a. ucast a) 0x1001 0x1000 3 0x1003 = 2"
  by code_simp

end
