(* ===== verification/Spec2Isabelle.thy ===== *)
theory Spec2Isabelle
  imports Trap_Properties Sleep_Wakeup Semaphore Pipe_Properties Log_Properties Spinlock Sh_Run Ulib
begin

text \<open>
  A verification library for xv6 with kernel threads.

  \<^bold>\<open>The program.\<close>  xv6 is a small Unix kernel for x86 multiprocessors; this version adds kernel
  threads: \<open>clone\<close> creates a thread in the address space of its creator, \<open>join\<close> waits for a thread
  of the group, \<open>park\<close> and \<open>unpark\<close> block and wake a thread by pid, and a user library builds
  ticket locks, spin locks and semaphores on them.  A trap enters \<open>trap.c\<close>, a system call goes
  through \<open>syscall.c\<close> to \<open>sysproc.c\<close>, \<open>sysfile.c\<close> and \<open>exec.c\<close>, and from there to processes
  (\<open>proc.c\<close>), virtual memory (\<open>vm.c\<close>, \<open>kalloc.c\<close>), open files and pipes (\<open>file.c\<close>, \<open>pipe.c\<close>), the file
  system (\<open>fs.c\<close>, \<open>log.c\<close>, \<open>bio.c\<close>, \<open>memide.c\<close>) and the console (\<open>console.c\<close>).  User programs use the
  library (\<open>ulib.c\<close>, \<open>printf.c\<close>, \<open>ucthreads.c\<close>); among them are the shell \<open>sh.c\<close> and \<open>grep.c\<close>.

  \<^bold>\<open>How the kernel is modelled.\<close>  A kernel function is a function from the state \<open>kst\<close> to an outcome:
  \<open>Ok\<close> with a result, \<open>Panic\<close> with the message of \<open>panic()\<close>, \<open>Fault\<close> where the C code has no defined
  meaning (a null pointer, an index out of range, overflow of an \<open>int\<close>), or \<open>Asleep\<close> when the thread
  never runs again.  The state has what all CPUs share (\<open>shared\<close>: process table, memory, file table,
  inode and buffer caches, disk, log, console) and what belongs to the running thread, among it
  the script \<open>others\<close>: the steps other threads and CPUs take whenever the thread takes a spinlock
  or is switched out.  Theorems hold for every script that satisfies the stated conditions, so
  for every interleaving at that granularity.

  \<^item> \<open>Prelude\<close>, \<open>Memory\<close> (\<open>types.h\<close>, \<open>param.h\<close>, \<open>mmu.h\<close>, \<open>memlayout.h\<close>, \<open>string.c\<close>): words, limits, byte
    memory with 32-bit wrap-around and the string routines as loops over it, with their closed
    forms.
  \<^item> \<open>Kernel_Monad\<close>, \<open>Kernel_State\<close> (\<open>proc.h\<close>, \<open>file.h\<close>, \<open>fs.h\<close>, \<open>buf.h\<close>, \<open>spinlock.c\<close>): outcomes, the
    preservation rules \<open>pres\<close> and triples \<open>trip\<close>, the records of the C structs, spinlocks and the
    conditions \<open>thr\<close>, \<open>env_ok\<close> on what the others do.
  \<^item> \<open>Sched\<close> (\<open>proc.c\<close>, \<open>vm.c\<close>): the scheduler, \<open>sleep\<close>, \<open>wakeup\<close>, \<open>kill\<close>, \<open>park\<close>, \<open>unpark\<close>.  Shown: no
    wakeup is lost between \<open>park\<close> and \<open>unpark\<close> in either order; \<open>kill\<close> interrupts a sleep.  The locale \<open>ptable_inv\<close> states what an invariant of the process
    table has to allow the scheduler to do; inside it every function of the kernel is shown to
    keep such an invariant, once for all of them.
  \<^item> \<open>Sleep_Wakeup\<close> (\<open>proc.c\<close>): the statements of \<open>sleep\<close> interleaved one by one with the steps of other
    threads, under the rules of the two locks.  Shown: a \<open>wakeup\<close> made after the sleeper gave up its
    lock is never lost, in any order of steps.
  \<^item> \<open>Kalloc\<close>, \<open>Vm\<close>, \<open>Usercopy\<close> (\<open>kalloc.c\<close>, \<open>vm.c\<close>, \<open>proc.c\<close>): the page allocator, page tables as words of
    memory, copies to and from user memory.  Shown: \<open>kalloc\<close> and \<open>kfree\<close> keep a list of distinct
    free pages, the initialisation fills it, \<open>mappages\<close> maps exactly the requested range, or exactly
    a prefix of it when it runs out of memory.
  \<^item> \<open>Sleeplock\<close>, \<open>Bio\<close>, \<open>Log\<close>, \<open>Inode\<close>, \<open>Fs\<close> (\<open>sleeplock.c\<close>, \<open>bio.c\<close>, \<open>memide.c\<close>, \<open>log.c\<close>, \<open>fs.c\<close>): sleep locks, the
    buffer cache as a doubly linked list over the memory disk, the write-ahead log, blocks,
    inodes, directories and paths.  Shown: \<open>acquiresleep\<close> takes a free lock at once and never takes
    one from its owner.
  \<^item> \<open>Bio_Properties\<close>, \<open>Log_Properties\<close>: the buffer cache as a view of the disk.  Shown, for a thread that
    is not disturbed: a commit is atomic, since after a stop at any disk write recovery leaves all home
    blocks old or all new; recovery may itself be interrupted and started again; \<open>log_write\<close> adds a
    block to the transaction once and writes nothing.
  \<^item> \<open>Cprintf\<close>, \<open>Console\<close> (\<open>console.c\<close>), \<open>Pipe\<close>, \<open>File\<close> (\<open>pipe.c\<close>, \<open>file.c\<close>): formatted output, line editing,
    pipes and open files.  \<open>Pipe_Properties\<close>: writing and reading refine a queue of bytes, through
    wrap-around of the ring and of its counters.
  \<^item> \<open>Sysargs\<close>, \<open>Proc\<close>, \<open>Exec\<close>, \<open>Sysfile\<close>, \<open>Syscall\<close> (\<open>syscall.c\<close>, \<open>proc.c\<close>, \<open>exec.c\<close>, \<open>sysfile.c\<close>, \<open>sysproc.c\<close>,
    \<open>trap.c\<close>): fetching arguments, processes and threads, loading programs, every system call,
    dispatch and the trap handler.
  \<^item> \<open>Thread_Groups\<close>, \<open>Lifecycle\<close>, \<open>Exit_Run\<close>, \<open>Process_Properties\<close>, \<open>Trap_Properties\<close>: the invariant of the thread
    groups (the count of a leader is the number of live threads that point to it, and every
    live thread has a leader that has not been reaped).  Shown: \<open>fork\<close>, \<open>clone\<close>, \<open>exit\<close>, \<open>wait\<close> and \<open>join\<close>
    keep it, and so does every other trap, through the whole handler; \<open>exit\<close> leaves a zombie that is
    no longer counted, wakes who waits for it and never returns; \<open>wait\<close> and \<open>join\<close> free exactly the
    slots of a dead child and of a dead thread.
  \<^item> \<open>User_Locks\<close>, \<open>User_Queue\<close>, \<open>Semaphore\<close> (\<open>ucthreads.c\<close>, \<open>user.h\<close>): the user library as systems of any number
    of threads that take one shared-memory access per step.  Shown: both locks exclude, the ticket
    lock makes progress through any wrap-around of its counters, the ring buffer refines a list
    (interface \<open>bounded_queue\<close>), and the semaphore, running on the kernel's \<open>park\<close> and \<open>unpark\<close>, lets
    no more threads through than it should and loses no wakeup.
  \<^item> \<open>Spinlock\<close> (\<open>spinlock.c\<close>): the kernel's spinlocks on any number of CPUs, one memory access per step.
    Shown: mutual exclusion, nesting of \<open>pushcli\<close> and \<open>popcli\<close>, and when the panics happen.  The
    monadic model takes these locks as one atomic step.
  \<^item> \<open>Ulib\<close> (\<open>ulib.c\<close>, \<open>printf.c\<close>): strings, numbers and formatted output in user programs.  Shown: \<open>atoi\<close>
    reads what \<open>printf\<close> prints, \<open>strcmp\<close> is the lexicographic order, where \<open>memmove\<close> agrees with the
    kernel's.
  \<^item> \<open>Grep\<close> (\<open>grep.c\<close>): the matcher decides the language of a pattern; the loop prints the matching lines
    however \<open>read\<close> cuts the input between lines.
  \<^item> \<open>Sh\<close>, \<open>Sh_Properties\<close>, \<open>Sh_Run\<close> (\<open>sh.c\<close>): the parser over positions in the line, against a grammar on
    tokens: it returns, accepts exactly what is derived, prints and parses back; then \<open>runcmd\<close> and the
    main loop as trees of system calls: every program is started with the descriptors its place in
    the command asks for and no end of a pipe is left open.

  \<^bold>\<open>Loops.\<close>  Loops over lists and counters are structural; the others are functions with a measure, so
  they are total.  The loops around \<open>sleep\<close> end because each sleep uses up a step of the script; a
  thread that is not woken by any step of the script has the outcome \<open>Asleep\<close>.  The recursive descent of
  the shell has fuel of four calls for each character of the line and four more, which is enough: a
  block consumes its parenthesis before the four functions call each other again.

  \<^bold>\<open>Not modelled.\<close>  Boot code and assembler, the descriptor tables, the APIC, serial port and other
  hardware glue (\<open>bootmain.c\<close>, \<open>main.c\<close>, \<open>lapic.c\<close>, \<open>ioapic.c\<close>, \<open>mp.c\<close>, \<open>picirq.c\<close>, \<open>uart.c\<close>): they only program
  devices.  The drivers \<open>ide.c\<close>, of which \<open>memide.c\<close> is the modelled alternative, and \<open>kbd.c\<close>, whose
  characters the console takes as input.  The allocator \<open>umalloc.c\<close>, which the shell is taken to
  find memory with.  \<open>mkfs.c\<close> runs on the host.  The programs that are short sequences of system
  calls, and the test programs \<open>usertests.c\<close>, \<open>clonetest.c\<close>, \<open>forktest.c\<close>, \<open>stressfs.c\<close>: they test the code
  modelled here.
\<close>

end
